(* ===== verification/Prelude.thy ===== *)
theory Prelude
  imports Main "HOL-Library.Word" "HOL-Library.Signed_Division"
begin

text \<open>
  What every component of the model shares: the machine-integer types of the firmware, the C
  operations the sources use on strings and integers (\<open>strlcpy\<close>, \<open>strcmp\<close>, the truncating
  \<open>%\<close>), the little-endian layout of the multi-byte fields, and the first-match search that
  both slot tables use.  The collections \<open>tempio_inv\<close> (preservation of invariants) and
  \<open>tempio_abs\<close> (equations between an operation and its abstract counterpart) are filled by the
  component theories.
\<close>

named_theorems tempio_inv
named_theorems tempio_abs

section \<open>Machine integers\<close>

type_synonym byte = "8 word"
type_synonym u8 = "8 word"
type_synonym i8 = "8 word"
type_synonym u16 = "16 word"
type_synonym u32 = "32 word"

text \<open>
  The C++ operator \<open>%\<close> on \<open>int\<close> truncates towards zero (\<open>smod\<close>); on the values the ring
  buffers use, it is the mathematical remainder.
\<close>

lemma smod_int_nonneg [simp]:
  fixes a b :: int
  assumes "0 \<le> a" and "0 < b"
  shows "a smod b = a mod b"
proof (cases "a = 0")
  case True
  then show ?thesis by (simp add: signed_modulo_int_def)
next
  case False
  with assms show ?thesis by (simp add: signed_modulo_int_def)
qed

lemma mod_wrap_less:
  fixes a n :: int
  shows "0 < n \<Longrightarrow> 0 \<le> a mod n \<and> a mod n < n"
  by simp

text \<open>Two numbers less than \<open>n\<close> apart have the same remainder only if they are equal.\<close>

lemma mod_window_inj:
  fixes h i j n :: int
  assumes "0 < n" and "0 \<le> i" "i < n" and "0 \<le> j" "j < n"
    and "(h + i) mod n = (h + j) mod n"
  shows "i = j"
proof -
  have "(h + i - h) mod n = (h + j - h) mod n"
    using assms(6) by (metis mod_diff_left_eq)
  then show ?thesis using assms by simp
qed

lemma mod_inner_add_diff:
  fixes a b c n :: int
  shows "(a + b mod n - c) mod n = (a + b - c) mod n"
  by (metis mod_add_right_eq mod_diff_left_eq)

section \<open>Little-endian fields\<close>

definition le16 :: "u16 \<Rightarrow> byte list" where
  "le16 w = [ucast w, ucast (drop_bit 8 w)]"

definition rd16 :: "byte \<Rightarrow> byte \<Rightarrow> u16" where
  "rd16 b0 b1 = word_cat b1 b0"

definition le32 :: "u32 \<Rightarrow> byte list" where
  "le32 w = [ucast w, ucast (drop_bit 8 w), ucast (drop_bit 16 w), ucast (drop_bit 24 w)]"

definition rd32 :: "byte \<Rightarrow> byte \<Rightarrow> byte \<Rightarrow> byte \<Rightarrow> u32" where
  "rd32 b0 b1 b2 b3 = word_cat (word_cat b3 b2 :: u16) (word_cat b1 b0 :: u16)"

lemma length_le16 [simp]: "length (le16 w) = 2"
  by (simp add: le16_def)

lemma length_le32 [simp]: "length (le32 w) = 4"
  by (simp add: le32_def)

lemma rd16_ucast [simp]: "rd16 (ucast w) (ucast (drop_bit 8 w)) = w"
  unfolding rd16_def by (rule bit_word_eqI) (auto simp: bit_word_cat_iff bit_simps)

lemma rd32_ucast [simp]:
  "rd32 (ucast w) (ucast (drop_bit 8 w)) (ucast (drop_bit 16 w)) (ucast (drop_bit 24 w)) = w"
  unfolding rd32_def
  by (rule bit_word_eqI) (auto simp: bit_word_cat_iff bit_simps not_less)

lemma le16_inject [simp]: "le16 v = le16 w \<longleftrightarrow> v = w"
  unfolding le16_def by (metis list.inject rd16_ucast)

section \<open>C strings\<close>

text \<open>
  A \<open>const char*\<close> is read up to its first NUL byte; \<open>strlcpy\<close> into a buffer of \<open>n > 0\<close>
  bytes copies at most \<open>n - 1\<close> of them and always terminates.
\<close>

definition cstr :: "string \<Rightarrow> string" where
  "cstr s = takeWhile (\<lambda>c. c \<noteq> CHR 0x00) s"

definition strlcpy :: "nat \<Rightarrow> string \<Rightarrow> string" where
  "strlcpy n s = take (n - 1) (cstr s)"

definition strcmp_eq :: "string \<Rightarrow> string \<Rightarrow> bool" where
  "strcmp_eq a b \<longleftrightarrow> cstr a = cstr b"

text \<open>\<open>snprintf(buf, n, ...)\<close> keeps the first \<open>n - 1\<close> characters of its text.\<close>

definition snprintf :: "nat \<Rightarrow> string \<Rightarrow> string" where
  "snprintf n s = take (n - 1) s"

lemma snprintf_id [simp]: "length s < n \<Longrightarrow> snprintf n s = s"
  by (simp add: snprintf_def)

text \<open>\<open>tolower\<close> in the C locale.\<close>

definition tolower :: "char \<Rightarrow> char" where
  "tolower c = (let n = of_char c :: nat in if 65 \<le> n \<and> n \<le> 90 then char_of (n + 32) else c)"

text \<open>The strings that fit a \<open>char[n]\<close> field with their terminator.\<close>

definition fits :: "nat \<Rightarrow> string \<Rightarrow> bool" where
  "fits n s \<longleftrightarrow> length s < n \<and> CHR 0x00 \<notin> set s"

lemma cstr_no_nul [simp]: "CHR 0x00 \<notin> set s \<Longrightarrow> cstr s = s"
  by (auto simp: cstr_def takeWhile_eq_all_conv)

lemma nul_notin_cstr [simp]: "CHR 0x00 \<notin> set (cstr s)"
  by (auto simp: cstr_def dest: set_takeWhileD)

lemma nul_notin_strlcpy [simp]: "CHR 0x00 \<notin> set (strlcpy n s)"
  by (auto simp: strlcpy_def dest: in_set_takeD)

lemma strlcpy_length: "length (strlcpy n s) \<le> n - 1"
  by (simp add: strlcpy_def)

lemma strlcpy_fits [simp, intro]: "0 < n \<Longrightarrow> fits n (strlcpy n s)"
  using strlcpy_length [of n s] by (auto simp: fits_def)

lemma strlcpy_id [simp]: "fits n s \<Longrightarrow> strlcpy n s = s"
  by (auto simp: fits_def strlcpy_def)

lemma fits_mono: "fits n s \<Longrightarrow> n \<le> m \<Longrightarrow> fits m s"
  by (auto simp: fits_def)

lemma fits_cstr [simp]: "fits n s \<Longrightarrow> cstr s = s"
  by (simp add: fits_def)

lemma strcmp_eq_fits [simp]: "fits n a \<Longrightarrow> fits m b \<Longrightarrow> strcmp_eq a b \<longleftrightarrow> a = b"
  by (simp add: strcmp_eq_def)

section \<open>First match in a table\<close>

text \<open>
  The loops \<open>for (i = 0; i < N; i++) if (pred(t[i])) return i;\<close> of both slot tables: the index
  of the first entry that satisfies the predicate, \<open>None\<close> for the \<open>-1\<close> or \<open>nullptr\<close> result.
\<close>

fun first_index :: "('a \<Rightarrow> bool) \<Rightarrow> 'a list \<Rightarrow> nat option" where
  "first_index p [] = None"
| "first_index p (x # xs) = (if p x then Some 0 else map_option Suc (first_index p xs))"

lemma first_index_None: "first_index p xs = None \<longleftrightarrow> (\<forall>x \<in> set xs. \<not> p x)"
  by (induction xs) auto

lemma first_index_Some:
  "first_index p xs = Some i \<longleftrightarrow> i < length xs \<and> p (xs ! i) \<and> (\<forall>j<i. \<not> p (xs ! j))"
proof (induction xs arbitrary: i)
  case Nil
  then show ?case by simp
next
  case (Cons x xs)
  show ?case
    by (cases i) (auto simp: Cons.IH less_Suc_eq_0_disj)
qed

lemma first_index_SomeD:
  assumes "first_index p xs = Some i"
  shows "i < length xs" "p (xs ! i)" "xs ! i \<in> set xs"
  using assms by (auto simp: first_index_Some)

text \<open>The first match is the first element that a filter keeps.\<close>

lemma filter_first_index:
  "first_index p xs = Some i \<Longrightarrow> filter p xs = xs ! i # filter p (drop (Suc i) xs)"
  by (induction xs arbitrary: i) (auto split: if_splits)

lemma first_index_cong:
  "(\<And>x. x \<in> set xs \<Longrightarrow> p x = q x) \<Longrightarrow> first_index p xs = first_index q xs"
  by (induction xs) auto

lemma first_index_map: "first_index p (map f xs) = first_index (p \<circ> f) xs"
  by (induction xs) auto

text \<open>A match that is the only one of its table is the first one.\<close>

lemma first_index_unique:
  assumes "i < length xs" "p (xs ! i)"
    and "\<And>j. j < length xs \<Longrightarrow> p (xs ! j) \<Longrightarrow> j = i"
  shows "first_index p xs = Some i"
proof -
  have "\<not> p (xs ! j)" if "j < i" for j
    using assms(3) [of j] assms(1) that by (metis less_irrefl less_trans)
  with assms(1,2) show ?thesis by (simp add: first_index_Some)
qed

lemma set_list_update_subset: "x \<in> set (xs[i := v]) \<Longrightarrow> x = v \<or> x \<in> set xs"
  by (metis in_set_conv_nth length_list_update nth_list_update nth_list_update_neq)

lemma list_update_Ball:
  "(\<And>x. x \<in> set xs \<Longrightarrow> P x) \<Longrightarrow> P v \<Longrightarrow> x \<in> set (xs[i := v]) \<Longrightarrow> P x"
  using set_list_update_subset by metis

lemma map_update_idle: "f v = f (xs ! i) \<Longrightarrow> map f (xs[i := v]) = map f xs"
  by (cases "i < length xs") (simp_all add: list_eq_iff_nth_eq nth_list_update)

section \<open>Tables of slots as maps\<close>

text \<open>
  A slot table is an array whose entries are in use or not; the entries in use have distinct
  keys.  As a map it sends the key of an entry in use to the entry's value.
\<close>

definition table_map :: "('a \<Rightarrow> bool) \<Rightarrow> ('a \<Rightarrow> 'k) \<Rightarrow> ('a \<Rightarrow> 'v) \<Rightarrow> 'a list \<Rightarrow> ('k \<rightharpoonup> 'v)" where
  "table_map P key val xs = map_of (map (\<lambda>x. (key x, val x)) (filter P xs))"

definition table_keys :: "('a \<Rightarrow> bool) \<Rightarrow> ('a \<Rightarrow> 'k) \<Rightarrow> 'a list \<Rightarrow> 'k list" where
  "table_keys P key xs = map key (filter P xs)"

lemma filter_split_at:
  "i < length xs \<Longrightarrow> filter P xs
     = filter P (take i xs) @ (if P (xs ! i) then [xs ! i] else []) @ filter P (drop (Suc i) xs)"
  by (subst id_take_nth_drop [of i xs]) (simp_all del: append_take_drop_id)

lemma filter_update_at:
  "i < length xs \<Longrightarrow> filter P (xs[i := v])
     = filter P (take i xs) @ (if P v then [v] else []) @ filter P (drop (Suc i) xs)"
  by (simp add: upd_conv_take_nth_drop)

lemma table_map_None:
  "table_map P key val xs k = None \<longleftrightarrow> k \<notin> set (table_keys P key xs)"
  by (auto simp: table_map_def table_keys_def map_of_eq_None_iff image_image)

lemma table_map_at:
  assumes "distinct (table_keys P key xs)" and "i < length xs" and "P (xs ! i)"
  shows "table_map P key val xs (key (xs ! i)) = Some (val (xs ! i))"
  unfolding table_map_def
  using assms by (intro map_of_is_SomeI) (auto simp: table_keys_def comp_def)

lemma table_map_dom: "dom (table_map P key val xs) = set (table_keys P key xs)"
  by (auto simp: dom_def table_map_None)

lemma table_map_card:
  "distinct (table_keys P key xs) \<Longrightarrow> card (dom (table_map P key val xs)) = length (filter P xs)"
  by (simp add: table_map_dom distinct_card) (simp add: table_keys_def)

lemma table_map_finite [simp]: "finite (dom (table_map P key val xs))"
  by (simp add: table_map_dom)

text \<open>A table seen from position \<open>i\<close>: the entries before, the entry, the entries after.\<close>

lemma table_keys_split:
  assumes "i < length xs"
  shows "table_keys P key xs = table_keys P key (take i xs)
      @ (if P (xs ! i) then [key (xs ! i)] else []) @ table_keys P key (drop (Suc i) xs)"
    and "table_keys P key (xs[i := v]) = table_keys P key (take i xs)
      @ (if P v then [key v] else []) @ table_keys P key (drop (Suc i) xs)"
  using assms by (simp_all add: table_keys_def filter_split_at [of i xs P] filter_update_at)

lemma table_map_split:
  assumes "i < length xs"
  shows "table_map P key val xs = table_map P key val (drop (Suc i) xs)
      ++ (if P (xs ! i) then [key (xs ! i) \<mapsto> val (xs ! i)] else Map.empty)
      ++ table_map P key val (take i xs)"
    and "table_map P key val (xs[i := v]) = table_map P key val (drop (Suc i) xs)
      ++ (if P v then [key v \<mapsto> val v] else Map.empty) ++ table_map P key val (take i xs)"
  using assms by (simp_all add: table_map_def filter_split_at [of i xs P] filter_update_at)

lemma table_map_notin: "k \<notin> set (table_keys P key xs) \<Longrightarrow> table_map P key val xs k = None"
  by (simp add: table_map_None)

lemma table_unique:
  assumes "distinct (table_keys P key xs)" and "i < length xs" "P (xs ! i)"
    and "j < length xs" "P (xs ! j)" and "key (xs ! i) = key (xs ! j)"
  shows "i = j"
proof (rule ccontr)
  assume "i \<noteq> j"
  then have "xs ! j \<in> set (take i xs) \<or> xs ! j \<in> set (drop (Suc i) xs)"
    using assms(2,4)
    by (cases "j < i") (auto simp: in_set_conv_nth intro: exI [of _ j] exI [of _ "j - Suc i"])
  with assms(1,3,5,6) show False
    unfolding table_keys_split(1) [OF assms(2)] by (auto simp: table_keys_def)
qed

text \<open>The three ways a step changes a table: rewrite an entry, take a free one, release one.\<close>

lemma table_rewrite:
  assumes "distinct (table_keys P key xs)" and "i < length xs" and "P (xs ! i)"
    and "P v" and "key v = key (xs ! i)"
  shows "table_keys P key (xs[i := v]) = table_keys P key xs"
    and "table_map P key val (xs[i := v]) = (table_map P key val xs)(key v \<mapsto> val v)"
proof -
  show "table_keys P key (xs[i := v]) = table_keys P key xs"
    using assms(3-5) by (simp add: table_keys_split [OF assms(2)])
  have "key v \<notin> set (table_keys P key (take i xs))"
    using assms(1,3,5) by (simp add: table_keys_split(1) [OF assms(2)])
  with assms(3-5) show "table_map P key val (xs[i := v]) = (table_map P key val xs)(key v \<mapsto> val v)"
    by (simp add: table_map_split [OF assms(2)] fun_eq_iff map_add_def table_map_notin
        split: option.splits)
qed

lemma table_insert:
  assumes "distinct (table_keys P key xs)" and "i < length xs" and "\<not> P (xs ! i)"
    and "P v" and "key v \<notin> set (table_keys P key xs)"
  shows "distinct (table_keys P key (xs[i := v]))"
    and "table_map P key val (xs[i := v]) = (table_map P key val xs)(key v \<mapsto> val v)"
proof -
  have new: "key v \<notin> set (table_keys P key (take i xs))"
      "key v \<notin> set (table_keys P key (drop (Suc i) xs))"
    using assms(3,5) by (simp_all add: table_keys_split(1) [OF assms(2)])
  show "distinct (table_keys P key (xs[i := v]))"
    using assms(1,3) new by (simp add: table_keys_split [OF assms(2)])
  show "table_map P key val (xs[i := v]) = (table_map P key val xs)(key v \<mapsto> val v)"
    using assms(3,4) new
    by (simp add: table_map_split [OF assms(2)] fun_eq_iff map_add_def table_map_notin
        split: option.splits)
qed

lemma table_release:
  assumes "distinct (table_keys P key xs)" and "i < length xs" and "P (xs ! i)" and "\<not> P v"
  shows "distinct (table_keys P key (xs[i := v]))"
    and "table_map P key val (xs[i := v]) = (table_map P key val xs)(key (xs ! i) := None)"
proof -
  have gone: "key (xs ! i) \<notin> set (table_keys P key (take i xs))"
      "key (xs ! i) \<notin> set (table_keys P key (drop (Suc i) xs))"
    using assms(1,3) by (simp_all add: table_keys_split(1) [OF assms(2)])
  show "distinct (table_keys P key (xs[i := v]))"
    using assms(1,3,4) by (simp add: table_keys_split [OF assms(2)])
  show "table_map P key val (xs[i := v]) = (table_map P key val xs)(key (xs ! i) := None)"
    using assms(3,4) gone
    by (simp add: table_map_split [OF assms(2)] fun_eq_iff map_add_def table_map_notin
        split: option.splits)
qed

end
