(* ===== verification/Protocol.thy ===== *)
theory Protocol
  imports Prelude
begin

text \<open>
  The BLE protocol that hub and nodes share, \<^verbatim>\<open>firmware/lib/protocol/protocol.h\<close>: the UUIDs, the
  message codes, the packed structures with their bytes on the air (little-endian, no padding), and the
  readers that the receivers use (\<open>memcpy\<close> of \<open>sizeof\<close> bytes after the length check, so \<open>None\<close>
  is the early return on a short message).  Floats are kept as their 32 raw bits: the firmware
  copies them and never computes with them.
\<close>

section \<open>UUIDs\<close>

definition TEMPIO_SERVICE_UUID :: string where
  "TEMPIO_SERVICE_UUID = ''4c544d50-0001-4654-b726-a8e800000000''"

definition TEMPIO_CHAR_DATA_UUID :: string where
  "TEMPIO_CHAR_DATA_UUID = ''4c544d50-0002-4654-b726-a8e800000000''"

definition TEMPIO_CHAR_CONFIG_UUID :: string where
  "TEMPIO_CHAR_CONFIG_UUID = ''4c544d50-0003-4654-b726-a8e800000000''"

section \<open>Message codes\<close>

datatype MsgType = SENSOR_DATA | IR_TIMING | HUB_READY | SET_INTERVAL | RESET_NODE | TEST_CMD
  | NODE_INFO | CMD_ACK

fun msg_code :: "MsgType \<Rightarrow> byte" where
  "msg_code SENSOR_DATA = 0x01"
| "msg_code IR_TIMING = 0x02"
| "msg_code HUB_READY = 0x10"
| "msg_code SET_INTERVAL = 0x12"
| "msg_code RESET_NODE = 0x13"
| "msg_code TEST_CMD = 0x14"
| "msg_code NODE_INFO = 0x20"
| "msg_code CMD_ACK = 0x21"

text \<open>\<open>static_cast<MsgType>(b)\<close>: \<open>None\<close> for a byte that is no enumerator (the \<open>default:\<close> branches).\<close>

definition msg_of_byte :: "byte \<Rightarrow> MsgType option" where
  "msg_of_byte b =
     find (\<lambda>t. msg_code t = b)
       [SENSOR_DATA, IR_TIMING, HUB_READY, SET_INTERVAL, RESET_NODE, TEST_CMD, NODE_INFO, CMD_ACK]"

lemma msg_of_byte_code [simp]: "msg_of_byte (msg_code t) = Some t"
  by (cases t) (simp_all add: msg_of_byte_def)

lemma msg_of_byte_num [simp]:
  "msg_of_byte 0x01 = Some SENSOR_DATA" "msg_of_byte 0x02 = Some IR_TIMING"
  "msg_of_byte 0x10 = Some HUB_READY" "msg_of_byte 0x12 = Some SET_INTERVAL"
  "msg_of_byte 0x13 = Some RESET_NODE" "msg_of_byte 0x14 = Some TEST_CMD"
  "msg_of_byte 0x20 = Some NODE_INFO" "msg_of_byte 0x21 = Some CMD_ACK"
  by (simp_all add: msg_of_byte_def)

lemma msg_code_inject [simp]: "msg_code s = msg_code t \<longleftrightarrow> s = t"
  by (metis msg_of_byte_code option.inject)

lemma msg_of_byte_Some: "msg_of_byte b = Some t \<longleftrightarrow> b = msg_code t"
proof
  assume "msg_of_byte b = Some t"
  then show "b = msg_code t"
    by (auto simp: msg_of_byte_def split: if_splits)
qed simp

text \<open>Message types are ordered by their code on the wire.\<close>

instantiation MsgType :: linorder
begin

definition less_eq_MsgType :: "MsgType \<Rightarrow> MsgType \<Rightarrow> bool" where
  "less_eq_MsgType s t \<longleftrightarrow> msg_code s \<le> msg_code t"

definition less_MsgType :: "MsgType \<Rightarrow> MsgType \<Rightarrow> bool" where
  "less_MsgType s t \<longleftrightarrow> msg_code s < msg_code t"

instance
  by standard (auto simp: less_eq_MsgType_def less_MsgType_def dest: order_antisym)

end

text \<open>
  The ranges of the codes: data, configuration commands, node reports.  The comment of
  \<open>protocol.h\<close> ties each range to a characteristic and a direction.
\<close>

definition is_data_msg :: "MsgType \<Rightarrow> bool" where
  "is_data_msg t \<longleftrightarrow> 0x01 \<le> msg_code t \<and> msg_code t \<le> 0x0F"

definition is_config_msg :: "MsgType \<Rightarrow> bool" where
  "is_config_msg t \<longleftrightarrow> 0x10 \<le> msg_code t \<and> msg_code t \<le> 0x1F"

definition is_report_msg :: "MsgType \<Rightarrow> bool" where
  "is_report_msg t \<longleftrightarrow> 0x20 \<le> msg_code t \<and> msg_code t \<le> 0x2F"

text \<open>\<open>NodeType\<close> has a fixed underlying type and is filled by \<open>memcpy\<close>: any byte can occur.\<close>

type_synonym NodeType = byte

definition NT_SENSOR :: NodeType where
  "NT_SENSOR = 0x01"

definition NT_IR :: NodeType where
  "NT_IR = 0x02"

section \<open>Packed structures\<close>

record SensorData =
  sd_type :: byte
  sd_temp :: u32
  sd_humidity :: u32
  sd_ldr :: u16
  sd_battery_mv :: u16

record NodeInfo =
  ni_type :: byte
  ni_node_type :: NodeType
  ni_battery_mv :: u16
  ni_fw_major :: u8
  ni_fw_minor :: u8

record CmdAck =
  ca_type :: byte
  ca_cmd_id :: u16
  ca_success :: u8

record TestCmd =
  tc_type :: byte
  tc_cmd_id :: u16
  tc_led :: u8

record HubReady =
  hr_type :: byte

record SetInterval =
  si_type :: byte
  si_cmd_id :: u16
  si_interval_sec :: u16

record ResetNode =
  rn_type :: byte
  rn_cmd_id :: u16
  rn_level :: u8

subsection \<open>The bytes of a structure\<close>

definition bytes_SensorData :: "SensorData \<Rightarrow> byte list" where
  "bytes_SensorData d = sd_type d # le32 (sd_temp d) @ le32 (sd_humidity d)
     @ le16 (sd_ldr d) @ le16 (sd_battery_mv d)"

definition bytes_NodeInfo :: "NodeInfo \<Rightarrow> byte list" where
  "bytes_NodeInfo d = ni_type d # ni_node_type d # le16 (ni_battery_mv d)
     @ [ni_fw_major d, ni_fw_minor d]"

definition bytes_CmdAck :: "CmdAck \<Rightarrow> byte list" where
  "bytes_CmdAck d = ca_type d # le16 (ca_cmd_id d) @ [ca_success d]"

definition bytes_TestCmd :: "TestCmd \<Rightarrow> byte list" where
  "bytes_TestCmd d = tc_type d # le16 (tc_cmd_id d) @ [tc_led d]"

definition bytes_HubReady :: "HubReady \<Rightarrow> byte list" where
  "bytes_HubReady d = [hr_type d]"

definition bytes_SetInterval :: "SetInterval \<Rightarrow> byte list" where
  "bytes_SetInterval d = si_type d # le16 (si_cmd_id d) @ le16 (si_interval_sec d)"

definition bytes_ResetNode :: "ResetNode \<Rightarrow> byte list" where
  "bytes_ResetNode d = rn_type d # le16 (rn_cmd_id d) @ [rn_level d]"

text \<open>
  The variable-length IR packet, as its layout comment gives it: code, command id, number of
  timings, then the timings.
\<close>

definition bytes_IrTiming :: "u16 \<Rightarrow> u16 list \<Rightarrow> byte list" where
  "bytes_IrTiming cid ts =
     msg_code IR_TIMING # le16 cid @ le16 (word_of_nat (length ts)) @ concat (map le16 ts)"

subsection \<open>Reading a structure from received bytes\<close>

fun read_SensorData :: "byte list \<Rightarrow> SensorData option" where
  "read_SensorData (t # t0 # t1 # t2 # t3 # h0 # h1 # h2 # h3 # l0 # l1 # b0 # b1 # _) =
     Some \<lparr>sd_type = t, sd_temp = rd32 t0 t1 t2 t3, sd_humidity = rd32 h0 h1 h2 h3,
           sd_ldr = rd16 l0 l1, sd_battery_mv = rd16 b0 b1\<rparr>"
| "read_SensorData _ = None"

fun read_NodeInfo :: "byte list \<Rightarrow> NodeInfo option" where
  "read_NodeInfo (t # n # b0 # b1 # ma # mi # _) =
     Some \<lparr>ni_type = t, ni_node_type = n, ni_battery_mv = rd16 b0 b1,
           ni_fw_major = ma, ni_fw_minor = mi\<rparr>"
| "read_NodeInfo _ = None"

fun read_CmdAck :: "byte list \<Rightarrow> CmdAck option" where
  "read_CmdAck (t # c0 # c1 # s # _) =
     Some \<lparr>ca_type = t, ca_cmd_id = rd16 c0 c1, ca_success = s\<rparr>"
| "read_CmdAck _ = None"

fun read_TestCmd :: "byte list \<Rightarrow> TestCmd option" where
  "read_TestCmd (t # c0 # c1 # l # _) =
     Some \<lparr>tc_type = t, tc_cmd_id = rd16 c0 c1, tc_led = l\<rparr>"
| "read_TestCmd _ = None"

fun read_SetInterval :: "byte list \<Rightarrow> SetInterval option" where
  "read_SetInterval (t # c0 # c1 # i0 # i1 # _) =
     Some \<lparr>si_type = t, si_cmd_id = rd16 c0 c1, si_interval_sec = rd16 i0 i1\<rparr>"
| "read_SetInterval _ = None"

fun read_ResetNode :: "byte list \<Rightarrow> ResetNode option" where
  "read_ResetNode (t # c0 # c1 # l # _) =
     Some \<lparr>rn_type = t, rn_cmd_id = rd16 c0 c1, rn_level = l\<rparr>"
| "read_ResetNode _ = None"

fun read_u16s :: "nat \<Rightarrow> byte list \<Rightarrow> u16 list option" where
  "read_u16s 0 bs = Some []"
| "read_u16s (Suc n) (b0 # b1 # bs) = map_option (Cons (rd16 b0 b1)) (read_u16s n bs)"
| "read_u16s (Suc n) _ = None"

fun read_IrTiming :: "byte list \<Rightarrow> (u16 \<times> u16 list) option" where
  "read_IrTiming (t # c0 # c1 # n0 # n1 # bs) =
     (if t = msg_code IR_TIMING
      then map_option (Pair (rd16 c0 c1)) (read_u16s (unat (rd16 n0 n1)) bs) else None)"
| "read_IrTiming _ = None"

lemmas bytes_defs = bytes_SensorData_def bytes_NodeInfo_def bytes_CmdAck_def bytes_TestCmd_def
  bytes_HubReady_def bytes_SetInterval_def bytes_ResetNode_def

section \<open>Sizes and round trips\<close>

lemma length_bytes [simp]:
  "length (bytes_SensorData sd) = 13" "length (bytes_NodeInfo ni) = 6"
  "length (bytes_CmdAck ca) = 4" "length (bytes_TestCmd tc) = 4"
  "length (bytes_HubReady hr) = 1" "length (bytes_SetInterval si) = 5"
  "length (bytes_ResetNode rn) = 4"
  by (simp_all add: bytes_defs)

lemma length_concat_le16 [simp]: "length (concat (map le16 ts)) = 2 * length ts"
  by (induction ts) simp_all

lemma length_bytes_IrTiming [simp]: "length (bytes_IrTiming cid ts) = 5 + 2 * length ts"
  by (simp add: bytes_IrTiming_def)

lemma read_bytes [simp]:
  "read_SensorData (bytes_SensorData sd @ bs) = Some sd"
  "read_NodeInfo (bytes_NodeInfo ni @ bs) = Some ni"
  "read_CmdAck (bytes_CmdAck ca @ bs) = Some ca"
  "read_TestCmd (bytes_TestCmd tc @ bs) = Some tc"
  "read_SetInterval (bytes_SetInterval si @ bs) = Some si"
  "read_ResetNode (bytes_ResetNode rn @ bs) = Some rn"
  by (simp_all add: bytes_defs le16_def le32_def)

lemmas read_bytes_nil [simp] = read_bytes [where bs = "[]", simplified]

text \<open>The readers accept exactly the messages that pass the \<open>len >= sizeof(...)\<close> check.\<close>

lemma read_defined:
  "read_SensorData bs \<noteq> None \<longleftrightarrow> 13 \<le> length bs"
  "read_NodeInfo bs \<noteq> None \<longleftrightarrow> 6 \<le> length bs"
  "read_CmdAck bs \<noteq> None \<longleftrightarrow> 4 \<le> length bs"
  "read_TestCmd bs \<noteq> None \<longleftrightarrow> 4 \<le> length bs"
  "read_SetInterval bs \<noteq> None \<longleftrightarrow> 5 \<le> length bs"
  "read_ResetNode bs \<noteq> None \<longleftrightarrow> 4 \<le> length bs"
  by ((cases bs rule: read_SensorData.cases; simp), (cases bs rule: read_NodeInfo.cases; simp),
      (cases bs rule: read_CmdAck.cases; simp), (cases bs rule: read_TestCmd.cases; simp),
      (cases bs rule: read_SetInterval.cases; simp), (cases bs rule: read_ResetNode.cases; simp))

lemma read_u16s_concat [simp]: "read_u16s (length ts) (concat (map le16 ts) @ bs) = Some ts"
  by (induction ts) (simp_all add: le16_def)

lemma read_IrTiming_bytes:
  assumes "length ts < 2 ^ 16"
  shows "read_IrTiming (bytes_IrTiming cid ts @ bs) = Some (cid, ts)"
proof -
  have "unat (word_of_nat (length ts) :: u16) = length ts"
    using assms by (simp add: unsigned_of_nat take_bit_nat_eq_self)
  then show ?thesis
    by (simp add: bytes_IrTiming_def le16_def)
qed

text \<open>
  The layout of the specification: the fields of a message one after the other, each with its width in bytes
  and its value, the lowest byte first.
\<close>

fun le_bytes :: "nat \<Rightarrow> nat \<Rightarrow> byte list" where
  "le_bytes 0 v = []"
| "le_bytes (Suc w) v = word_of_nat (v mod 256) # le_bytes w (v div 256)"

definition layout :: "(nat \<times> nat) list \<Rightarrow> byte list" where
  "layout fs = concat (map (\<lambda>(width, v). le_bytes width v) fs)"

lemma word_of_nat_byte: "(word_of_nat (v mod 256) :: byte) = word_of_nat v"
  using word_of_nat_eq_iff [where 'a = 8, of "v mod 256" v] by (simp add: take_bit_eq_mod)

lemma ucast_byte: "(ucast (w :: 'a::len word) :: byte) = word_of_nat (unat w)"
  by simp

lemma ucast_drop_byte: "(ucast (drop_bit n (w :: 'a::len word)) :: byte) = word_of_nat (unat w div 2 ^ n)"
proof -
  have "(ucast (drop_bit n w) :: byte) = word_of_nat (unat (drop_bit n w))" by (rule ucast_byte)
  also have "unat (drop_bit n w) = unat w div 2 ^ n" unfolding unat_drop_bit_eq by (rule drop_bit_eq_div)
  finally show ?thesis .
qed

lemma le_bytes_num:
  "le_bytes 1 v = [word_of_nat v]" "le_bytes 2 v = [word_of_nat v, word_of_nat (v div 2 ^ 8)]"
  "le_bytes 4 v = [word_of_nat v, word_of_nat (v div 2 ^ 8), word_of_nat (v div 2 ^ 16), word_of_nat (v div 2 ^ 24)]"
proof -
  have num: "1 = Suc 0" "2 = Suc (Suc 0)" "4 = Suc (Suc (Suc (Suc 0)))" by simp_all
  have pow: "v div 256 = v div 2 ^ 8" "v div 256 div 256 = v div 2 ^ 16" "v div 256 div 256 div 256 = v div 2 ^ 24"
    by (simp_all add: div_mult2_eq [symmetric])
  show "le_bytes 1 v = [word_of_nat v]" "le_bytes 2 v = [word_of_nat v, word_of_nat (v div 2 ^ 8)]"
    "le_bytes 4 v = [word_of_nat v, word_of_nat (v div 2 ^ 8), word_of_nat (v div 2 ^ 16), word_of_nat (v div 2 ^ 24)]"
    unfolding pow [symmetric] by (simp_all only: num le_bytes.simps word_of_nat_byte)
qed

lemma le_fields:
  "[w] = le_bytes 1 (unat (w :: byte))" "le16 x = le_bytes 2 (unat x)" "le32 y = le_bytes 4 (unat y)"
  unfolding le_bytes_num le16_def le32_def ucast_drop_byte by simp_all

lemma le_cell: "w # ws = le_bytes 1 (unat w) @ ws"
  unfolding le_fields(1) [symmetric] by simp

lemma layout_simps [simp]:
  "layout [] = []" "layout ((width, v) # fs) = le_bytes width v @ layout fs"
  by (simp_all add: layout_def)

lemma message_layout:
  "bytes_SensorData sd = layout [(1, unat (sd_type sd)), (4, unat (sd_temp sd)), (4, unat (sd_humidity sd)),
     (2, unat (sd_ldr sd)), (2, unat (sd_battery_mv sd))]"
  "bytes_NodeInfo ni = layout [(1, unat (ni_type ni)), (1, unat (ni_node_type ni)), (2, unat (ni_battery_mv ni)),
     (1, unat (ni_fw_major ni)), (1, unat (ni_fw_minor ni))]"
  "bytes_CmdAck ca = layout [(1, unat (ca_type ca)), (2, unat (ca_cmd_id ca)), (1, unat (ca_success ca))]"
  "bytes_TestCmd tc = layout [(1, unat (tc_type tc)), (2, unat (tc_cmd_id tc)), (1, unat (tc_led tc))]"
  "bytes_HubReady hr = layout [(1, unat (hr_type hr))]"
  "bytes_SetInterval si = layout [(1, unat (si_type si)), (2, unat (si_cmd_id si)), (2, unat (si_interval_sec si))]"
  "bytes_ResetNode rn = layout [(1, unat (rn_type rn)), (2, unat (rn_cmd_id rn)), (1, unat (rn_level rn))]"
  "bytes_IrTiming cid ts = layout ([(1, 0x02), (2, unat cid), (2, length ts mod 65536)] @ map (\<lambda>t. (2, unat t)) ts)"
proof -
  have timings: "concat (map le16 ts) = layout (map (\<lambda>t. (2, unat t)) ts)"
    by (induction ts) (simp_all add: le_fields)
  have count: "unat (word_of_nat n :: u16) = n mod 65536" for n
    by (simp add: unsigned_of_nat take_bit_eq_mod)
  show "bytes_IrTiming cid ts = layout ([(1, 0x02), (2, unat cid), (2, length ts mod 65536)] @ map (\<lambda>t. (2, unat t)) ts)"
    by (simp add: bytes_IrTiming_def le_cell timings le_fields(2) count del: One_nat_def)
qed (simp_all add: bytes_defs le_cell le_fields(2,3) del: One_nat_def)

text \<open>
  C37: the wire format.  Every message of the protocol is laid out without padding in the order of its declaration,
  field by field, lowest byte first; what one side writes the other reads back, whatever bytes follow; and a
  message is rejected exactly if it is shorter than its structure.
\<close>

theorem protocol_wire_format:
  "bytes_SensorData sd = layout [(1, unat (sd_type sd)), (4, unat (sd_temp sd)), (4, unat (sd_humidity sd)),
       (2, unat (sd_ldr sd)), (2, unat (sd_battery_mv sd))]
     \<and> read_SensorData (bytes_SensorData sd @ bs) = Some sd \<and> (read_SensorData bs = None \<longleftrightarrow> length bs < 13)
   \<and> bytes_NodeInfo ni = layout [(1, unat (ni_type ni)), (1, unat (ni_node_type ni)), (2, unat (ni_battery_mv ni)),
       (1, unat (ni_fw_major ni)), (1, unat (ni_fw_minor ni))]
     \<and> read_NodeInfo (bytes_NodeInfo ni @ bs) = Some ni \<and> (read_NodeInfo bs = None \<longleftrightarrow> length bs < 6)
   \<and> bytes_CmdAck ca = layout [(1, unat (ca_type ca)), (2, unat (ca_cmd_id ca)), (1, unat (ca_success ca))]
     \<and> read_CmdAck (bytes_CmdAck ca @ bs) = Some ca \<and> (read_CmdAck bs = None \<longleftrightarrow> length bs < 4)
   \<and> bytes_TestCmd tc = layout [(1, unat (tc_type tc)), (2, unat (tc_cmd_id tc)), (1, unat (tc_led tc))]
     \<and> read_TestCmd (bytes_TestCmd tc @ bs) = Some tc \<and> (read_TestCmd bs = None \<longleftrightarrow> length bs < 4)
   \<and> bytes_HubReady hr = layout [(1, unat (hr_type hr))]
   \<and> bytes_SetInterval si = layout [(1, unat (si_type si)), (2, unat (si_cmd_id si)), (2, unat (si_interval_sec si))]
     \<and> read_SetInterval (bytes_SetInterval si @ bs) = Some si \<and> (read_SetInterval bs = None \<longleftrightarrow> length bs < 5)
   \<and> bytes_ResetNode rn = layout [(1, unat (rn_type rn)), (2, unat (rn_cmd_id rn)), (1, unat (rn_level rn))]
     \<and> read_ResetNode (bytes_ResetNode rn @ bs) = Some rn \<and> (read_ResetNode bs = None \<longleftrightarrow> length bs < 4)
   \<and> bytes_IrTiming cid ts = layout ([(1, 0x02), (2, unat cid), (2, length ts mod 65536)] @ map (\<lambda>t. (2, unat t)) ts)
     \<and> read_IrTiming (bytes_IrTiming cid (take 247 ts) @ bs) = Some (cid, take 247 ts)
   \<and> map (unat \<circ> msg_code) [SENSOR_DATA, IR_TIMING, HUB_READY, SET_INTERVAL, RESET_NODE, TEST_CMD, NODE_INFO, CMD_ACK]
     = [0x01, 0x02, 0x10, 0x12, 0x13, 0x14, 0x20, 0x21]"
proof -
  have short: "read_SensorData bs = None \<longleftrightarrow> length bs < 13" "read_NodeInfo bs = None \<longleftrightarrow> length bs < 6"
    "read_CmdAck bs = None \<longleftrightarrow> length bs < 4" "read_TestCmd bs = None \<longleftrightarrow> length bs < 4"
    "read_SetInterval bs = None \<longleftrightarrow> length bs < 5" "read_ResetNode bs = None \<longleftrightarrow> length bs < 4"
    using read_defined [of bs] by (auto simp: not_le [symmetric] simp del: not_None_eq)
  have ir: "read_IrTiming (bytes_IrTiming cid (take 247 ts) @ bs) = Some (cid, take 247 ts)"
    by (rule read_IrTiming_bytes) simp
  show ?thesis
    by (intro conjI) (rule message_layout read_bytes short ir | simp)+
qed

end
