(* ===== verification/Hub_Types.thy ===== *)
theory Hub_Types
  imports Protocol
begin

text \<open>
  What all parts of the hub share: the constants of \<^verbatim>\<open>hub/config.h\<close> and the data transfer
  objects of \<^verbatim>\<open>hub/dto/\<close>.  A \<open>char[n]\<close> field is the string it holds; the code fills it with
  \<open>strlcpy\<close>, so a well-formed value has fewer than \<open>n\<close> characters.
\<close>

section \<open>Configuration\<close>

definition LOOP_DELAY_MS :: nat where "LOOP_DELAY_MS = 100"
definition MAX_NODES :: nat where "MAX_NODES = 5"
definition PENDING_MAX :: int where "PENDING_MAX = 8"
definition REPORT_QUEUE_MAX :: int where "REPORT_QUEUE_MAX = 8"
definition CMD_PENDING_PER_NODE :: int where "CMD_PENDING_PER_NODE = 4"
definition CMD_TTL_MS :: u32 where "CMD_TTL_MS = 300000"
definition BLE_MAX_WRITE_SIZE :: nat where "BLE_MAX_WRITE_SIZE = 500"
definition REPORT_JSON_BUF_SIZE :: nat where "REPORT_JSON_BUF_SIZE = 512"
definition STATUS_JSON_BUF_SIZE :: nat where "STATUS_JSON_BUF_SIZE = 256"
definition POST_CONNECT_DELAY_MS :: nat where "POST_CONNECT_DELAY_MS = 200"

lemmas config_defs = MAX_NODES_def PENDING_MAX_def REPORT_QUEUE_MAX_def CMD_PENDING_PER_NODE_def
  CMD_TTL_MS_def BLE_MAX_WRITE_SIZE_def

section \<open>Data transfer objects\<close>

record MqttCommand =
  mc_target :: string
  mc_type :: string
  mc_payload :: string
  mc_cmd_id :: u16
  mc_queued_at :: u32

text \<open>The floats of a report are raw bits; its defaults are the member initialisers.\<close>

record SensorReport =
  sr_node_id :: string
  sr_node_type_str :: string
  sr_temperature :: u32
  sr_humidity :: u32
  sr_ldr :: u16
  sr_battery_mv :: u16
  sr_ble_rssi :: i8
  sr_wifi_rssi :: u16
  sr_free_heap :: u32
  sr_uptime_ms :: u32

definition SensorReport_init :: SensorReport where
  "SensorReport_init = \<lparr>sr_node_id = [], sr_node_type_str = [], sr_temperature = 0,
     sr_humidity = 0, sr_ldr = 0, sr_battery_mv = 0, sr_ble_rssi = 0, sr_wifi_rssi = 0,
     sr_free_heap = 0, sr_uptime_ms = 0\<rparr>"

record CmdAckReport =
  ar_node_id :: string
  ar_cmd_id :: u16
  ar_success :: bool

definition CmdAckReport_init :: CmdAckReport where
  "CmdAckReport_init = \<lparr>ar_node_id = [], ar_cmd_id = 0, ar_success = False\<rparr>"

end
