(* ===== verification/Thread_Safe_Queue.thy ===== *)
theory Thread_Safe_Queue
  imports Prelude
begin

text \<open>
  The ring buffer \<^verbatim>\<open>ThreadSafeQueue<T, N>\<close> of \<^verbatim>\<open>util/thread_safe_queue.h\<close>, through which all
  tasks of the hub exchange data.  The state is the C++ object (array, head, tail, count); every
  operation is the body of its method, with the template parameter \<open>N\<close> as an argument.  The
  contract is the locale \<open>bounded_fifo\<close>: a list of at most \<open>cap\<close> items.  Clients reason with the
  locale's lemmas, and the interpretation \<open>tsq\<close> discharges the contract for the ring.
\<close>

section \<open>The ring buffer\<close>

record 'a tsq =
  tsq_buf :: "'a list"
  tsq_head :: int
  tsq_tail :: int
  tsq_count :: int

text \<open>The constructor; the array \<open>buf_\<close> holds whatever its elements were constructed with.\<close>

definition tsq_new :: "'a list \<Rightarrow> 'a tsq" where
  "tsq_new b = \<lparr>tsq_buf = b, tsq_head = 0, tsq_tail = 0, tsq_count = 0\<rparr>"

definition tsq_push :: "int \<Rightarrow> 'a tsq \<Rightarrow> 'a \<Rightarrow> bool \<times> 'a tsq" where
  "tsq_push N q item =
     (if tsq_count q \<ge> N then (False, q)
      else (True, q\<lparr>tsq_buf := (tsq_buf q)[nat (tsq_tail q) := item],
                    tsq_tail := (tsq_tail q + 1) smod N,
                    tsq_count := tsq_count q + 1\<rparr>))"

text \<open>\<open>pop(&out)\<close>: \<open>None\<close> is the result \<open>false\<close>, which leaves \<open>*out\<close> alone.\<close>

definition tsq_pop :: "int \<Rightarrow> 'a tsq \<Rightarrow> 'a option \<times> 'a tsq" where
  "tsq_pop N q =
     (if tsq_count q \<le> 0 then (None, q)
      else (Some (tsq_buf q ! nat (tsq_head q)),
            q\<lparr>tsq_head := (tsq_head q + 1) smod N, tsq_count := tsq_count q - 1\<rparr>))"

definition tsq_size :: "'a tsq \<Rightarrow> int" where
  "tsq_size q = tsq_count q"

definition tsq_empty :: "'a tsq \<Rightarrow> bool" where
  "tsq_empty q \<longleftrightarrow> tsq_count q \<le> 0"

definition tsq_full :: "int \<Rightarrow> 'a tsq \<Rightarrow> bool" where
  "tsq_full N q \<longleftrightarrow> tsq_count q \<ge> N"

text \<open>\<open>contains(pred)\<close>: the loop over \<open>i\<close>, from \<open>i\<close> on.\<close>

function tsq_contains_from :: "int \<Rightarrow> ('a \<Rightarrow> bool) \<Rightarrow> 'a tsq \<Rightarrow> int \<Rightarrow> bool" where
  "tsq_contains_from N pred q i =
     (if i < tsq_count q
      then if pred (tsq_buf q ! nat ((tsq_head q + i) smod N)) then True
           else tsq_contains_from N pred q (i + 1)
      else False)"
  by pat_completeness auto
termination
  by (relation "measure (\<lambda>(N, pred, q, i). nat (tsq_count q - i))") auto

declare tsq_contains_from.simps [simp del]

definition tsq_contains :: "int \<Rightarrow> ('a \<Rightarrow> bool) \<Rightarrow> 'a tsq \<Rightarrow> bool" where
  "tsq_contains N pred q = tsq_contains_from N pred q 0"

text \<open>The variants without a lock of their own, for callers that hold one.\<close>

definition tsq_pushUnsafe :: "int \<Rightarrow> 'a tsq \<Rightarrow> 'a \<Rightarrow> bool \<times> 'a tsq" where
  "tsq_pushUnsafe N q item =
     (if tsq_count q \<ge> N then (False, q)
      else (True, q\<lparr>tsq_buf := (tsq_buf q)[nat (tsq_tail q) := item],
                    tsq_tail := (tsq_tail q + 1) smod N,
                    tsq_count := tsq_count q + 1\<rparr>))"

definition tsq_countUnsafe :: "'a tsq \<Rightarrow> int" where
  "tsq_countUnsafe q = tsq_count q"

definition tsq_emptyUnsafe :: "'a tsq \<Rightarrow> bool" where
  "tsq_emptyUnsafe q \<longleftrightarrow> tsq_count q \<le> 0"

definition tsq_popUnsafe :: "int \<Rightarrow> 'a tsq \<Rightarrow> 'a option \<times> 'a tsq" where
  "tsq_popUnsafe N q =
     (if tsq_count q \<le> 0 then (None, q)
      else (Some (tsq_buf q ! nat (tsq_head q)),
            q\<lparr>tsq_head := (tsq_head q + 1) smod N, tsq_count := tsq_count q - 1\<rparr>))"

definition tsq_pushFrontUnsafe :: "int \<Rightarrow> 'a tsq \<Rightarrow> 'a \<Rightarrow> bool \<times> 'a tsq" where
  "tsq_pushFrontUnsafe N q item =
     (if tsq_count q \<ge> N then (False, q)
      else (let h = (tsq_head q - 1 + N) smod N
            in (True, q\<lparr>tsq_head := h, tsq_buf := (tsq_buf q)[nat h := item],
                        tsq_count := tsq_count q + 1\<rparr>)))"

text \<open>The locked methods and their \<open>Unsafe\<close> variants have the same body.\<close>

lemma tsq_unsafe_same:
  "tsq_push = tsq_pushUnsafe" "tsq_pop = tsq_popUnsafe"
  "tsq_size = tsq_countUnsafe" "tsq_empty = tsq_emptyUnsafe"
  by (auto simp: fun_eq_iff tsq_push_def tsq_pushUnsafe_def tsq_pop_def tsq_popUnsafe_def
      tsq_size_def tsq_countUnsafe_def tsq_empty_def tsq_emptyUnsafe_def)

section \<open>The contract: a bounded list\<close>

definition bl_push :: "nat \<Rightarrow> 'a list \<Rightarrow> 'a \<Rightarrow> bool \<times> 'a list" where
  "bl_push cap xs x = (if length xs < cap then (True, xs @ [x]) else (False, xs))"

definition bl_pushFront :: "nat \<Rightarrow> 'a list \<Rightarrow> 'a \<Rightarrow> bool \<times> 'a list" where
  "bl_pushFront cap xs x = (if length xs < cap then (True, x # xs) else (False, xs))"

definition bl_pop :: "'a list \<Rightarrow> 'a option \<times> 'a list" where
  "bl_pop xs = (case xs of [] \<Rightarrow> (None, []) | x # xs' \<Rightarrow> (Some x, xs'))"

text \<open>A run of operations and its observable results.\<close>

datatype 'a fifo_op = Push 'a | PushFront 'a | Pop

datatype 'a fifo_out = Pushed bool | Popped "'a option"

fun fifo_step ::
  "('q \<Rightarrow> 'a \<Rightarrow> bool \<times> 'q) \<Rightarrow> ('q \<Rightarrow> 'a \<Rightarrow> bool \<times> 'q) \<Rightarrow> ('q \<Rightarrow> 'a option \<times> 'q)
   \<Rightarrow> 'q \<Rightarrow> 'a fifo_op \<Rightarrow> 'a fifo_out \<times> 'q" where
  "fifo_step push pushFront pop q (Push x) = map_prod Pushed id (push q x)"
| "fifo_step push pushFront pop q (PushFront x) = map_prod Pushed id (pushFront q x)"
| "fifo_step push pushFront pop q Pop = map_prod Popped id (pop q)"

fun fifo_run ::
  "('q \<Rightarrow> 'a \<Rightarrow> bool \<times> 'q) \<Rightarrow> ('q \<Rightarrow> 'a \<Rightarrow> bool \<times> 'q) \<Rightarrow> ('q \<Rightarrow> 'a option \<times> 'q)
   \<Rightarrow> 'q \<Rightarrow> 'a fifo_op list \<Rightarrow> 'a fifo_out list \<times> 'q" where
  "fifo_run push pushFront pop q [] = ([], q)"
| "fifo_run push pushFront pop q (a # as) =
     (let (o1, q1) = fifo_step push pushFront pop q a;
          (os, q2) = fifo_run push pushFront pop q1 as
      in (o1 # os, q2))"

locale bounded_fifo =
  fixes push :: "'q \<Rightarrow> 'a \<Rightarrow> bool \<times> 'q"
    and pushFront :: "'q \<Rightarrow> 'a \<Rightarrow> bool \<times> 'q"
    and pop :: "'q \<Rightarrow> 'a option \<times> 'q"
    and cap :: nat
    and items :: "'q \<Rightarrow> 'a list"
    and inv :: "'q \<Rightarrow> bool"
  assumes items_push: "inv q \<Longrightarrow> map_prod id items (push q x) = bl_push cap (items q) x"
    and items_pushFront:
      "inv q \<Longrightarrow> map_prod id items (pushFront q x) = bl_pushFront cap (items q) x"
    and items_pop: "inv q \<Longrightarrow> map_prod id items (pop q) = bl_pop (items q)"
    and inv_push: "inv q \<Longrightarrow> inv (snd (push q x))"
    and inv_pushFront: "inv q \<Longrightarrow> inv (snd (pushFront q x))"
    and inv_pop: "inv q \<Longrightarrow> inv (snd (pop q))"
    and items_cap: "inv q \<Longrightarrow> length (items q) \<le> cap"
begin

lemma push_ok: "inv q \<Longrightarrow> fst (push q x) \<longleftrightarrow> length (items q) < cap"
  using items_push [of q x] by (cases "push q x") (auto simp: bl_push_def split: if_splits)

lemma push_items:
  "inv q \<Longrightarrow> items (snd (push q x)) = (if length (items q) < cap then items q @ [x] else items q)"
  using items_push [of q x] by (cases "push q x") (auto simp: bl_push_def split: if_splits)

lemma pushFront_ok: "inv q \<Longrightarrow> fst (pushFront q x) \<longleftrightarrow> length (items q) < cap"
  using items_pushFront [of q x]
  by (cases "pushFront q x") (auto simp: bl_pushFront_def split: if_splits)

lemma pushFront_items:
  "inv q \<Longrightarrow>
     items (snd (pushFront q x)) = (if length (items q) < cap then x # items q else items q)"
  using items_pushFront [of q x]
  by (cases "pushFront q x") (auto simp: bl_pushFront_def split: if_splits)

lemma pop_result: "inv q \<Longrightarrow> fst (pop q) = (if items q = [] then None else Some (hd (items q)))"
  using items_pop [of q] by (cases "pop q") (auto simp: bl_pop_def split: list.splits)

lemma pop_items: "inv q \<Longrightarrow> items (snd (pop q)) = tl (items q)"
  using items_pop [of q] by (cases "pop q") (auto simp: bl_pop_def split: list.splits)

lemma popE:
  assumes "inv q" and "pop q = (Some x, q')"
  shows "items q = x # items q'" and "inv q'"
  using pop_result [OF assms(1)] pop_items [OF assms(1)] inv_pop [OF assms(1)] assms(2)
  by (auto split: if_splits)

lemma pop_NoneE:
  assumes "inv q" and "pop q = (None, q')"
  shows "items q = []" and "items q' = []" and "inv q'"
  using pop_result [OF assms(1)] pop_items [OF assms(1)] inv_pop [OF assms(1)] assms(2)
  by (auto split: if_splits)

text \<open>An item taken out can always be put back, and the queue is then as it was.\<close>

lemma pop_pushFront:
  assumes "inv q" and "pop q = (Some x, q')"
  shows "fst (pushFront q' y)" and "items (snd (pushFront q' y)) = y # tl (items q)"
  using popE [OF assms] items_cap [OF assms(1)] pushFront_ok [of q' y] pushFront_items [of q' y]
  by auto

lemma step_refines:
  assumes "inv q"
  shows "map_prod id items (fifo_step push pushFront pop q a)
         = fifo_step (bl_push cap) (bl_pushFront cap) bl_pop (items q) a"
    and "inv (snd (fifo_step push pushFront pop q a))"
  using items_push [OF assms] items_pushFront [OF assms] items_pop [OF assms]
    inv_push [OF assms] inv_pushFront [OF assms] inv_pop [OF assms]
  by (cases a; simp add: map_prod_def split_beta prod_eq_iff)+

lemma run_refines:
  assumes "inv q"
  shows "map_prod id items (fifo_run push pushFront pop q as)
         = fifo_run (bl_push cap) (bl_pushFront cap) bl_pop (items q) as
         \<and> inv (snd (fifo_run push pushFront pop q as))"
  using assms
proof (induction as arbitrary: q)
  case Nil
  then show ?case by simp
next
  case (Cons a as)
  show ?case
    using step_refines [OF Cons.prems, of a] Cons.IH [of "snd (fifo_step push pushFront pop q a)"]
    by (auto simp: split_beta prod_eq_iff)
qed

end

text \<open>What a bounded list itself does: nothing is lost, duplicated or reordered.\<close>

fun accepted :: "'a fifo_op list \<Rightarrow> 'a fifo_out list \<Rightarrow> 'a list" where
  "accepted (Push x # as) (Pushed True # os) = x # accepted as os"
| "accepted (a # as) (r # os) = accepted as os"
| "accepted _ _ = []"

fun taken_out :: "'a fifo_out list \<Rightarrow> 'a list" where
  "taken_out (Popped (Some x) # os) = x # taken_out os"
| "taken_out (_ # os) = taken_out os"
| "taken_out [] = []"

definition no_front :: "'a fifo_op list \<Rightarrow> bool" where
  "no_front as \<longleftrightarrow> (\<forall>x. PushFront x \<notin> set as)"

lemma no_front_Cons: "no_front (a # as) \<longleftrightarrow> (\<forall>x. a \<noteq> PushFront x) \<and> no_front as"
  by (auto simp: no_front_def)

lemma bl_fifo:
  assumes "no_front as"
    and "fifo_run (bl_push cap) (bl_pushFront cap) bl_pop xs as = (os, ys)"
  shows "xs @ accepted as os = taken_out os @ ys"
  using assms
proof (induction as arbitrary: xs os ys)
  case Nil
  then show ?case by simp
next
  case (Cons a as)
  obtain o1 zs where step: "fifo_step (bl_push cap) (bl_pushFront cap) bl_pop xs a = (o1, zs)"
    by fastforce
  obtain os' where run: "fifo_run (bl_push cap) (bl_pushFront cap) bl_pop zs as = (os', ys)"
    and os: "os = o1 # os'"
    using Cons.prems(2) step by (auto split: prod.splits)
  have IH: "zs @ accepted as os' = taken_out os' @ ys"
    using Cons.IH [OF _ run] Cons.prems(1) by (simp add: no_front_Cons)
  show ?case
  proof (cases a)
    case (Push x)
    with step IH os show ?thesis by (auto simp: bl_push_def split: if_splits)
  next
    case (PushFront x)
    with Cons.prems(1) show ?thesis by (simp add: no_front_Cons)
  next
    case Pop
    with step IH os show ?thesis by (cases xs) (auto simp: bl_pop_def)
  qed
qed

section \<open>The ring buffer keeps the contract\<close>

definition tsq_inv :: "int \<Rightarrow> 'a tsq \<Rightarrow> bool" where
  "tsq_inv N q \<longleftrightarrow> 0 < N \<and> length (tsq_buf q) = nat N \<and> 0 \<le> tsq_head q \<and> tsq_head q < N
     \<and> 0 \<le> tsq_count q \<and> tsq_count q \<le> N \<and> tsq_tail q = (tsq_head q + tsq_count q) mod N"

definition tsq_items :: "int \<Rightarrow> 'a tsq \<Rightarrow> 'a list" where
  "tsq_items N q =
     map (\<lambda>i. tsq_buf q ! nat ((tsq_head q + int i) mod N)) [0..<nat (tsq_count q)]"

lemma tsq_inv_new: "0 < N \<Longrightarrow> length b = nat N \<Longrightarrow> tsq_inv N (tsq_new b)"
  by (simp add: tsq_inv_def tsq_new_def)

lemma tsq_items_new [simp]: "tsq_items N (tsq_new b) = []"
  by (simp add: tsq_items_def tsq_new_def)

lemma length_tsq_items: "length (tsq_items N q) = nat (tsq_count q)"
  by (simp add: tsq_items_def)

lemma tsq_count_items: "tsq_inv N q \<Longrightarrow> tsq_count q = int (length (tsq_items N q))"
  by (simp add: length_tsq_items tsq_inv_def)

lemma tsq_items_Nil: "tsq_inv N q \<Longrightarrow> tsq_items N q = [] \<longleftrightarrow> tsq_count q \<le> 0"
  by (auto simp: tsq_items_def tsq_inv_def)

text \<open>Writing the cell one past the window leaves the window's cells alone.\<close>

lemma ring_write_outside:
  fixes h k n :: int
  assumes "0 < n" "length b = nat n" "0 \<le> k" "k < n" "int i < n" "int i \<noteq> k"
  shows "b[nat ((h + k) mod n) := x] ! nat ((h + int i) mod n) = b ! nat ((h + int i) mod n)"
proof -
  have "(h + int i) mod n \<noteq> (h + k) mod n"
    using mod_window_inj [of n "int i" k h] assms by auto
  then show ?thesis
    using assms(1) by (simp add: nat_eq_iff2)
qed

lemma tsq_push_refines:
  assumes "tsq_inv N q"
  shows "map_prod id (tsq_items N) (tsq_pushUnsafe N q x) = bl_push (nat N) (tsq_items N q) x"
    and "tsq_inv N (snd (tsq_pushUnsafe N q x))"
proof -
  note inv = assms [unfolded tsq_inv_def]
  show "map_prod id (tsq_items N) (tsq_pushUnsafe N q x) = bl_push (nat N) (tsq_items N q) x"
  proof (cases "tsq_count q < N")
    case True
    have old: "(tsq_buf q)[nat ((tsq_head q + tsq_count q) mod N) := x]
          ! nat ((tsq_head q + int i) mod N) = tsq_buf q ! nat ((tsq_head q + int i) mod N)"
      if "i < nat (tsq_count q)" for i
      using that inv True by (intro ring_write_outside) auto
    have "nat (tsq_count q + 1) = Suc (nat (tsq_count q))"
      using inv by linarith
    with True inv show ?thesis
      by (simp add: tsq_pushUnsafe_def bl_push_def length_tsq_items tsq_items_def old
          nat_less_iff)
  next
    case False
    with inv show ?thesis
      by (simp add: tsq_pushUnsafe_def bl_push_def length_tsq_items)
  qed
  show "tsq_inv N (snd (tsq_pushUnsafe N q x))"
    using inv by (auto simp: tsq_inv_def tsq_pushUnsafe_def mod_simps algebra_simps)
qed

lemma tsq_pop_refines:
  assumes "tsq_inv N q"
  shows "map_prod id (tsq_items N) (tsq_popUnsafe N q) = bl_pop (tsq_items N q)"
    and "tsq_inv N (snd (tsq_popUnsafe N q))"
proof -
  note inv = assms [unfolded tsq_inv_def]
  show "map_prod id (tsq_items N) (tsq_popUnsafe N q) = bl_pop (tsq_items N q)"
  proof (cases "0 < tsq_count q")
    case True
    define k where "k = nat (tsq_count q - 1)"
    have k: "nat (tsq_count q) = Suc k" "nat (tsq_count q - 1) = k"
      using True by (auto simp: k_def)
    have "tsq_items N q = tsq_buf q ! nat (tsq_head q)
        # map (\<lambda>i. tsq_buf q ! nat ((tsq_head q + int (Suc i)) mod N)) [0..<k]"
      using inv k by (simp add: tsq_items_def upt_conv_Cons map_Suc_upt [symmetric] del: upt_Suc)
    with True inv k show ?thesis
      by (simp add: tsq_popUnsafe_def bl_pop_def tsq_items_def mod_simps algebra_simps)
  next
    case False
    with inv show ?thesis
      by (simp add: tsq_popUnsafe_def bl_pop_def tsq_items_def)
  qed
  show "tsq_inv N (snd (tsq_popUnsafe N q))"
    using inv mod_inner_add_diff [of "tsq_count q" "tsq_head q + 1" N 1]
    by (auto simp: tsq_inv_def tsq_popUnsafe_def algebra_simps)
qed

lemma tsq_pushFront_refines:
  assumes "tsq_inv N q"
  shows "map_prod id (tsq_items N) (tsq_pushFrontUnsafe N q x)
         = bl_pushFront (nat N) (tsq_items N q) x"
    and "tsq_inv N (snd (tsq_pushFrontUnsafe N q x))"
proof -
  note inv = assms [unfolded tsq_inv_def]
  define h where "h = (tsq_head q - 1 + N) mod N"
  have h: "0 \<le> h" "h < N" "(tsq_head q - 1 + N) smod N = h"
    using inv by (simp_all add: h_def)
  have step: "(h + int (Suc i)) mod N = (tsq_head q + int i) mod N" for i
    using mod_inner_add_diff [of "int (Suc i)" "tsq_head q - 1 + N" N 0]
    by (simp add: h_def algebra_simps)
  have at_h: "nat ((h + 0) mod N) = nat h"
    using h by simp
  show "map_prod id (tsq_items N) (tsq_pushFrontUnsafe N q x)
        = bl_pushFront (nat N) (tsq_items N q) x"
  proof (cases "tsq_count q < N")
    case True
    have cells: "(tsq_buf q)[nat h := x] ! nat ((tsq_head q + int i) mod N)
        = tsq_buf q ! nat ((tsq_head q + int i) mod N)" if "i < nat (tsq_count q)" for i
      using ring_write_outside [of N "tsq_buf q" 0 "Suc i" h x] step [of i] at_h inv True that
      by simp
    have len: "nat (tsq_count q + 1) = Suc (nat (tsq_count q))"
      using inv by linarith
    have "tsq_items N (snd (tsq_pushFrontUnsafe N q x))
        = map (\<lambda>i. (tsq_buf q)[nat h := x] ! nat ((h + int i) mod N))
            [0..<Suc (nat (tsq_count q))]"
      using True h len by (simp add: tsq_items_def tsq_pushFrontUnsafe_def Let_def)
    also have "\<dots> = (tsq_buf q)[nat h := x] ! nat h
        # map (\<lambda>i. (tsq_buf q)[nat h := x] ! nat ((h + int (Suc i)) mod N))
            [0..<nat (tsq_count q)]"
      using at_h by (simp add: upt_conv_Cons map_Suc_upt [symmetric] del: upt_Suc of_nat_Suc)
    also have "\<dots> = x # tsq_items N q"
      using inv h by (simp add: step cells tsq_items_def nat_less_iff del: of_nat_Suc)
    finally show ?thesis
      using True inv by (simp add: tsq_pushFrontUnsafe_def bl_pushFront_def length_tsq_items
          Let_def nat_less_iff split: prod.splits)
  next
    case False
    with inv show ?thesis
      by (simp add: tsq_pushFrontUnsafe_def bl_pushFront_def length_tsq_items)
  qed
  show "tsq_inv N (snd (tsq_pushFrontUnsafe N q x))"
    using inv h step [of "nat (tsq_count q)"]
    by (auto simp: tsq_inv_def tsq_pushFrontUnsafe_def Let_def algebra_simps)
qed

interpretation tsq: bounded_fifo "tsq_pushUnsafe N" "tsq_pushFrontUnsafe N" "tsq_popUnsafe N"
    "nat N" "tsq_items N" "tsq_inv N" for N
  by unfold_locales
     (simp_all add: tsq_push_refines tsq_pushFront_refines tsq_pop_refines length_tsq_items,
      simp add: tsq_inv_def nat_mono)

lemmas tsq_inv_intros [tempio_inv] = tsq.inv_push tsq.inv_pushFront tsq.inv_pop

lemma tsq_invD:
  assumes "tsq_inv N q"
  shows "0 \<le> tsq_head q" "tsq_head q < N" "0 \<le> tsq_tail q" "tsq_tail q < N"
    "0 \<le> tsq_count q" "tsq_count q \<le> N" "length (tsq_buf q) = nat N" "0 < N"
  using assms by (auto simp: tsq_inv_def)

text \<open>\<open>count\<close>, \<open>empty\<close>, \<open>full\<close> and \<open>contains\<close> report on the list of items.\<close>

lemma tsq_contains_from_iff:
  assumes "tsq_inv N q" and "0 \<le> i"
  shows "tsq_contains_from N pred q i \<longleftrightarrow> (\<exists>x \<in> set (drop (nat i) (tsq_items N q)). pred x)"
  using assms
proof (induction N pred q i rule: tsq_contains_from.induct)
  case (1 N pred q i)
  show ?case
  proof (cases "i < tsq_count q")
    case True
    with "1.prems" have nth: "nat i < length (tsq_items N q)"
      by (simp add: length_tsq_items)
    have item: "tsq_items N q ! nat i = tsq_buf q ! nat ((tsq_head q + i) smod N)"
      using nth "1.prems" by (simp add: tsq_items_def tsq_inv_def)
    have "drop (nat i) (tsq_items N q) = tsq_items N q ! nat i # drop (nat (i + 1)) (tsq_items N q)"
      using nth "1.prems" by (simp add: Cons_nth_drop_Suc nat_add_distrib)
    with True item "1.IH" "1.prems" show ?thesis
      by (subst tsq_contains_from.simps) auto
  next
    case False
    then show ?thesis
      by (subst tsq_contains_from.simps) (simp add: length_tsq_items)
  qed
qed

lemma tsq_contains_iff:
  "tsq_inv N q \<Longrightarrow> tsq_contains N pred q \<longleftrightarrow> (\<exists>x \<in> set (tsq_items N q). pred x)"
  by (simp add: tsq_contains_def tsq_contains_from_iff)

lemma tsq_queries:
  assumes "tsq_inv N q"
  shows "tsq_size q = int (length (tsq_items N q))"
    and "tsq_countUnsafe q = int (length (tsq_items N q))"
    and "tsq_empty q \<longleftrightarrow> tsq_items N q = []"
    and "tsq_emptyUnsafe q \<longleftrightarrow> tsq_items N q = []"
    and "tsq_full N q \<longleftrightarrow> length (tsq_items N q) = nat N"
  using tsq_invD [OF assms]
  by (auto simp: tsq_size_def tsq_countUnsafe_def tsq_empty_def tsq_emptyUnsafe_def tsq_full_def
      tsq_items_Nil [OF assms] length_tsq_items)

section \<open>Properties\<close>

text \<open>
  All methods, with what they return.  \<open>tsq_call\<close> runs the code of the method, \<open>list_call\<close> is what the
  method does to a bounded list.
\<close>

datatype 'a tsq_method =
  MPush 'a | MPop | MCount | MEmpty | MFull | MContains "'a \<Rightarrow> bool"
| MPushUnsafe 'a | MCountUnsafe | MEmptyUnsafe | MPopUnsafe | MPushFrontUnsafe 'a

datatype 'a tsq_answer = ABool bool | AItem "'a option" | AInt int

fun tsq_call :: "int \<Rightarrow> 'a tsq_method \<Rightarrow> 'a tsq \<Rightarrow> 'a tsq_answer \<times> 'a tsq" where
  "tsq_call N (MPush x) q = map_prod ABool id (tsq_push N q x)"
| "tsq_call N MPop q = map_prod AItem id (tsq_pop N q)"
| "tsq_call N MCount q = (AInt (tsq_size q), q)"
| "tsq_call N MEmpty q = (ABool (tsq_empty q), q)"
| "tsq_call N MFull q = (ABool (tsq_full N q), q)"
| "tsq_call N (MContains pred) q = (ABool (tsq_contains N pred q), q)"
| "tsq_call N (MPushUnsafe x) q = map_prod ABool id (tsq_pushUnsafe N q x)"
| "tsq_call N MCountUnsafe q = (AInt (tsq_countUnsafe q), q)"
| "tsq_call N MEmptyUnsafe q = (ABool (tsq_emptyUnsafe q), q)"
| "tsq_call N MPopUnsafe q = map_prod AItem id (tsq_popUnsafe N q)"
| "tsq_call N (MPushFrontUnsafe x) q = map_prod ABool id (tsq_pushFrontUnsafe N q x)"

fun list_call :: "nat \<Rightarrow> 'a tsq_method \<Rightarrow> 'a list \<Rightarrow> 'a tsq_answer \<times> 'a list" where
  "list_call cap (MPush x) xs = map_prod ABool id (bl_push cap xs x)"
| "list_call cap (MPushUnsafe x) xs = map_prod ABool id (bl_push cap xs x)"
| "list_call cap (MPushFrontUnsafe x) xs = map_prod ABool id (bl_pushFront cap xs x)"
| "list_call cap MPop xs = map_prod AItem id (bl_pop xs)"
| "list_call cap MPopUnsafe xs = map_prod AItem id (bl_pop xs)"
| "list_call cap MCount xs = (AInt (int (length xs)), xs)"
| "list_call cap MCountUnsafe xs = (AInt (int (length xs)), xs)"
| "list_call cap MEmpty xs = (ABool (xs = []), xs)"
| "list_call cap MEmptyUnsafe xs = (ABool (xs = []), xs)"
| "list_call cap MFull xs = (ABool (length xs = cap), xs)"
| "list_call cap (MContains pred) xs = (ABool (list_ex pred xs), xs)"

text \<open>The answers to a sequence of calls, and the state at its end.\<close>

fun calls :: "('m \<Rightarrow> 's \<Rightarrow> 'o \<times> 's) \<Rightarrow> 'm list \<Rightarrow> 's \<Rightarrow> 'o list \<times> 's" where
  "calls call [] s = ([], s)"
| "calls call (m # ms) s = (let (r, s1) = call m s; (rs, s2) = calls call ms s1 in (r # rs, s2))"

lemma tsq_call_refines:
  assumes "tsq_inv N q"
  shows "map_prod id (tsq_items N) (tsq_call N m q) = list_call (nat N) m (tsq_items N q)
    \<and> tsq_inv N (snd (tsq_call N m q))"
  using tsq.items_push [OF assms] tsq.items_pushFront [OF assms] tsq.items_pop [OF assms]
    tsq.inv_push [OF assms] tsq.inv_pushFront [OF assms] tsq.inv_pop [OF assms] assms
  by (cases m) (auto simp: tsq_unsafe_same tsq_queries [OF assms] tsq_contains_iff [OF assms]
      list_ex_iff map_prod_def split_beta prod_eq_iff)

lemma tsq_calls_refine:
  assumes "tsq_inv N q"
  shows "map_prod id (tsq_items N) (calls (tsq_call N) ms q) = calls (list_call (nat N)) ms (tsq_items N q)"
  using assms
proof (induction ms arbitrary: q)
  case (Cons m ms)
  obtain r q1 where call: "tsq_call N m q = (r, q1)" by fastforce
  with tsq_call_refines [OF Cons.prems, of m] have step: "list_call (nat N) m (tsq_items N q) = (r, tsq_items N q1)"
    and "tsq_inv N q1" by simp_all
  from Cons.IH [OF this(2)] show ?case
    by (simp add: call step split_beta prod_eq_iff)
qed simp

text \<open>
  C11: the ring buffer, from its constructor on, answers every sequence of calls of any of its methods, locked
  or unlocked, exactly as a list of at most \<open>N\<close> items does, and holds the items of that list.
\<close>

theorem ring_refines_bounded_list:
  assumes "0 < N" and "length b = nat N"
  shows "map_prod id (tsq_items N) (calls (tsq_call N) ms (tsq_new b)) = calls (list_call (nat N)) ms []"
  using tsq_calls_refine [OF tsq_inv_new [OF assms], of ms] by simp

theorem ring_refines_bounded_list_witness:
  "map_prod id (tsq_items 2)
     (calls (tsq_call 2) [MPush 7, MPushFrontUnsafe 8, MFull, MPush 9, MPop, MPushUnsafe 9, MContains ((=) 9), MPop, MCount]
        (tsq_new [0, 0 :: nat]))
   = ([ABool True, ABool True, ABool True, ABool False, AItem (Some 8), ABool True, ABool True, AItem (Some 7), AInt 1], [9])"
  by (subst ring_refines_bounded_list)
     (simp_all add: bl_push_def bl_pushFront_def bl_pop_def)

text \<open>Through \<open>push\<close> and \<open>pop\<close> alone the queue is first-in first-out: the accepted
  items are the delivered ones followed by the ones still queued, in this order, so that none is
  lost, duplicated or overtaken; a rejected push changes nothing.\<close>

theorem ring_fifo:
  assumes "0 < N" and "length b = nat N" and "no_front ops"
    and "fifo_run (tsq_push N) (tsq_pushFrontUnsafe N) (tsq_pop N) (tsq_new b) ops = (res, q)"
  shows "accepted ops res = taken_out res @ tsq_items N q"
proof -
  have "map_prod id (tsq_items N) (res, q)
      = fifo_run (bl_push (nat N)) (bl_pushFront (nat N)) bl_pop [] ops"
    using tsq.run_refines [OF tsq_inv_new [OF assms(1,2)], of ops] assms(4)
    by (simp add: tsq_unsafe_same)
  then show ?thesis
    using bl_fifo [OF assms(3), of "nat N" "[]" res "tsq_items N q"] by simp
qed

theorem ring_fifo_witness:
  "accepted [Push 5, Push 6, Pop] [Pushed True, Pushed True, Popped (Some 5)]
   = [5] @ tsq_items 2 \<lparr>tsq_buf = [5, 6 :: nat], tsq_head = 1, tsq_tail = 0, tsq_count = 1\<rparr>"
proof -
  have run: "fifo_run (tsq_push 2) (tsq_pushFrontUnsafe 2) (tsq_pop 2) (tsq_new [0, 0])
      [Push 5, Push 6, Pop]
    = ([Pushed True, Pushed True, Popped (Some 5)],
       \<lparr>tsq_buf = [5, 6 :: nat], tsq_head = 1, tsq_tail = 0, tsq_count = 1\<rparr>)"
    by (simp add: tsq_push_def tsq_pop_def tsq_new_def)
  show ?thesis
    using ring_fifo [OF _ _ _ run] by (simp add: no_front_def)
qed

end
