(* ===== verification/Ble_State.thy ===== *)
theory Ble_State
  imports Hub_Types Thread_Safe_Queue
begin

text \<open>
  The state that the BLE files of the hub share (\<^verbatim>\<open>ble/ble_internal.h\<close>, the queues of
  \<^verbatim>\<open>ble_connection.cpp\<close> and \<^verbatim>\<open>ble_data.cpp\<close>) and the slot helpers of \<^verbatim>\<open>ble_central.cpp\<close>.
  NimBLE objects are handles (numbers; \<open>None\<close> is \<open>nullptr\<close>), and NimBLE itself is the parameter
  \<open>ble_env\<close>: it answers the \<open>n\<close>-th call the hub makes to it, for every \<open>n\<close>, and says which callbacks
  its host task runs while that call blocks.  Nothing is assumed about these answers.
\<close>

section \<open>State\<close>

record 'adr ConnectedNode =
  cn_client :: "nat option"
  cn_configChar :: "nat option"
  cn_addr :: 'adr
  cn_nodeType :: NodeType
  cn_used :: bool

text \<open>
  Beside the variables of the sources, \<open>bl_scanning\<close> and \<open>bl_led\<close> are what the calls to the scanner
  and the LED pin have set, \<open>bl_created\<close> counts the clients NimBLE has handed out (client \<open>k\<close> is the
  \<open>k\<close>-th), \<open>bl_calls\<close> counts the calls to NimBLE, and \<open>bl_writes\<close> is the log of the
  characteristic writes: handle, bytes, result.
\<close>

record 'adr ble =
  bl_nodes :: "'adr ConnectedNode list"
  bl_doScan :: bool
  bl_lastPrint :: u32
  bl_pendingQueue :: "'adr tsq"
  bl_reportQueue :: "SensorReport tsq"
  bl_ackQueue :: "CmdAckReport tsq"
  bl_scanning :: bool
  bl_led :: bool
  bl_created :: nat
  bl_calls :: nat
  bl_writes :: "(nat \<times> byte list \<times> bool) list"

text \<open>The callbacks: a scan result (the service UUIDs that the device advertises, and its address), a lost link, a notification.\<close>

datatype 'adr ble_event = ScanResult "string list" 'adr | Disconnected nat | Notified "nat option" "byte list" i8

record 'adr ble_env =
  be_addr :: "string \<Rightarrow> 'adr"
  be_toString :: "'adr \<Rightarrow> string"
  be_create :: "nat \<Rightarrow> bool"
  be_connect :: "nat \<Rightarrow> bool"
  be_service :: "string \<Rightarrow> nat \<Rightarrow> bool"
  be_characteristic :: "string \<Rightarrow> string \<Rightarrow> nat \<Rightarrow> nat option"
  be_canNotify :: "string \<Rightarrow> string \<Rightarrow> nat \<Rightarrow> bool"
  be_write :: "nat \<Rightarrow> bool"
  be_events :: "nat \<Rightarrow> 'adr ble_event list"
  be_late :: bool

text \<open>
  \<open>be_service uuid\<close>, \<open>be_characteristic service uuid\<close> and \<open>be_canNotify service uuid\<close> are what the peer answers
  when it is asked for a service, for a characteristic of a service, and whether that one can notify;
  \<open>be_late\<close>: does NimBLE deliver scan results that were in flight when \<open>stop()\<close> was called?
\<close>

section \<open>Slot helpers\<close>

definition findSlotIndex :: "('adr ConnectedNode \<Rightarrow> bool) \<Rightarrow> 'adr ble \<Rightarrow> nat option" where
  "findSlotIndex pred b = first_index pred (bl_nodes b)"

definition isAlreadyConnected :: "'adr ble \<Rightarrow> 'adr \<Rightarrow> bool" where
  "isAlreadyConnected b addr \<longleftrightarrow> findSlotIndex (\<lambda>n. cn_used n \<and> cn_addr n = addr) b \<noteq> None"

definition findEmptySlot :: "'adr ble \<Rightarrow> nat option" where
  "findEmptySlot b = findSlotIndex (\<lambda>n. \<not> cn_used n) b"

definition findSlotByClient :: "'adr ble \<Rightarrow> nat \<Rightarrow> nat option" where
  "findSlotByClient b c = findSlotIndex (\<lambda>n. cn_used n \<and> cn_client n = Some c) b"

definition findSlotByAddr :: "'adr ble \<Rightarrow> 'adr \<Rightarrow> nat option" where
  "findSlotByAddr b addr = findSlotIndex (\<lambda>n. cn_used n \<and> cn_addr n = addr) b"

definition activeCount :: "'adr ble \<Rightarrow> nat" where
  "activeCount b = length (filter cn_used (bl_nodes b))"

definition cleanupDisconnected :: "'adr ble \<Rightarrow> 'adr ble" where
  "cleanupDisconnected b = b\<lparr>bl_nodes :=
     map (\<lambda>n. if \<not> cn_used n \<and> cn_client n \<noteq> None then n\<lparr>cn_configChar := None\<rparr> else n) (bl_nodes b)\<rparr>"

definition setNode ::
  "nat \<Rightarrow> ('adr ConnectedNode \<Rightarrow> 'adr ConnectedNode) \<Rightarrow> 'adr ble \<Rightarrow> 'adr ble" where
  "setNode i f b = b\<lparr>bl_nodes := (bl_nodes b)[i := f (bl_nodes b ! i)]\<rparr>"

definition findReusableClient :: "'adr ble \<Rightarrow> nat option \<times> 'adr ble" where
  "findReusableClient b =
     (case findSlotIndex (\<lambda>n. \<not> cn_used n \<and> cn_client n \<noteq> None) b of
        None \<Rightarrow> (None, b)
      | Some i \<Rightarrow> (cn_client (bl_nodes b ! i), setNode i (cn_client_update (\<lambda>_. None)) b))"

section \<open>Invariants of the slots\<close>

text \<open>The clients that sit in slots, in slot order; the ones in use belong to used slots.\<close>

definition clients :: "'adr ConnectedNode list \<Rightarrow> nat list" where
  "clients ns = concat (map (\<lambda>n. case cn_client n of None \<Rightarrow> [] | Some c \<Rightarrow> [c]) ns)"

definition node_ok :: "'adr ConnectedNode \<Rightarrow> bool" where
  "node_ok n \<longleftrightarrow> (cn_used n \<longrightarrow> cn_client n \<noteq> None) \<and> (\<not> cn_used n \<longrightarrow> cn_configChar n = None)"

definition queues_ok :: "'adr ble \<Rightarrow> bool" where
  "queues_ok b \<longleftrightarrow> tsq_inv PENDING_MAX (bl_pendingQueue b)
     \<and> tsq_inv REPORT_QUEUE_MAX (bl_reportQueue b) \<and> tsq_inv CMD_PENDING_PER_NODE (bl_ackQueue b)"

text \<open>
  \<open>held\<close> are the clients that the connection code has in its hands; together with the slots they
  are all the clients there are, each exactly once: no client is ever lost or shared.
\<close>

definition ble_inv :: "nat list \<Rightarrow> 'adr ble \<Rightarrow> bool" where
  "ble_inv held b \<longleftrightarrow> length (bl_nodes b) = MAX_NODES \<and> (\<forall>n \<in> set (bl_nodes b). node_ok n)
     \<and> distinct (held @ clients (bl_nodes b))
     \<and> set (held @ clients (bl_nodes b)) = {..<bl_created b}
     \<and> queues_ok b"

definition ble_boot ::
  "'adr \<Rightarrow> 'adr list \<Rightarrow> SensorReport list \<Rightarrow> CmdAckReport list \<Rightarrow> 'adr ble" where
  "ble_boot addr0 pend reps acks =
     \<lparr>bl_nodes = replicate MAX_NODES \<lparr>cn_client = None, cn_configChar = None, cn_addr = addr0,
                                     cn_nodeType = NT_SENSOR, cn_used = False\<rparr>,
      bl_doScan = False, bl_lastPrint = 0,
      bl_pendingQueue = tsq_new pend, bl_reportQueue = tsq_new reps, bl_ackQueue = tsq_new acks,
      bl_scanning = False, bl_led = False, bl_created = 0, bl_calls = 0, bl_writes = []\<rparr>"

definition boot_mem :: "'adr list \<Rightarrow> SensorReport list \<Rightarrow> CmdAckReport list \<Rightarrow> bool" where
  "boot_mem pend reps acks \<longleftrightarrow> length pend = nat PENDING_MAX \<and> length reps = nat REPORT_QUEUE_MAX
     \<and> length acks = nat CMD_PENDING_PER_NODE"

lemma ble_inv_boot: "boot_mem pend reps acks \<Longrightarrow> ble_inv [] (ble_boot addr0 pend reps acks)"
  by (auto simp: boot_mem_def ble_inv_def ble_boot_def node_ok_def clients_def queues_ok_def
      config_defs intro!: tsq_inv_new)

lemma clients_split:
  assumes "i < length ns"
  shows "clients ns = clients (take i ns) @ (case cn_client (ns ! i) of None \<Rightarrow> [] | Some c \<Rightarrow> [c])
      @ clients (drop (Suc i) ns)"
    and "clients (ns[i := n]) = clients (take i ns) @ (case cn_client n of None \<Rightarrow> [] | Some c \<Rightarrow> [c])
      @ clients (drop (Suc i) ns)"
proof -
  show "clients ns = clients (take i ns) @ (case cn_client (ns ! i) of None \<Rightarrow> [] | Some c \<Rightarrow> [c])
      @ clients (drop (Suc i) ns)"
    using assms
    by (subst id_take_nth_drop [of i ns]) (simp_all add: clients_def del: append_take_drop_id)
  show "clients (ns[i := n]) = clients (take i ns)
      @ (case cn_client n of None \<Rightarrow> [] | Some c \<Rightarrow> [c]) @ clients (drop (Suc i) ns)"
    using assms by (simp add: clients_def upd_conv_take_nth_drop)
qed

lemma clients_Cons [simp]:
  "clients [] = []"
  "clients (n # ns) = (case cn_client n of None \<Rightarrow> [] | Some c \<Rightarrow> [c]) @ clients ns"
  by (simp_all add: clients_def split: option.splits)

lemma length_clients: "length (clients ns) \<le> length ns"
  by (induction ns) (auto split: option.splits)

lemma clients_map: "(\<And>n. cn_client (f n) = cn_client n) \<Longrightarrow> clients (map f ns) = clients ns"
  by (induction ns) auto

lemma ble_inv_length: "ble_inv held b \<Longrightarrow> length (bl_nodes b) = MAX_NODES"
  by (simp add: ble_inv_def)

lemma ble_inv_queues: "ble_inv held b \<Longrightarrow> queues_ok b"
  by (simp add: ble_inv_def)

lemma findSlotIndex_SomeD:
  assumes "findSlotIndex pred b = Some i"
  shows "i < length (bl_nodes b)" "pred (bl_nodes b ! i)"
  using assms by (auto simp: findSlotIndex_def dest: first_index_SomeD)

lemma ble_inv_node:
  assumes "ble_inv held b" and "i < length (bl_nodes b)"
  shows "node_ok (bl_nodes b ! i)"
  using assms by (auto simp: ble_inv_def)

text \<open>A change of a slot that keeps its client keeps the invariant.\<close>

lemma setNode_same_client:
  assumes "ble_inv held b" and "i < length (bl_nodes b)"
    and "cn_client (f (bl_nodes b ! i)) = cn_client (bl_nodes b ! i)"
    and "node_ok (f (bl_nodes b ! i))"
  shows "ble_inv held (setNode i f b)"
  using assms
  by (auto simp: ble_inv_def setNode_def queues_ok_def clients_split(2)
      clients_split(1) [OF assms(2), symmetric] dest!: set_list_update_subset)

text \<open>Clients move between the slots and the hand.\<close>

lemma setNode_take_client:
  assumes "ble_inv held b" and "i < length (bl_nodes b)"
    and "cn_client (bl_nodes b ! i) = Some c" and "cn_client (f (bl_nodes b ! i)) = None"
    and "node_ok (f (bl_nodes b ! i))"
  shows "ble_inv (c # held) (setNode i f b)"
  using assms clients_split(1) [OF assms(2)] clients_split(2) [OF assms(2), of "f (bl_nodes b ! i)"]
  by (auto simp: ble_inv_def setNode_def queues_ok_def dest!: set_list_update_subset)

lemma setNode_put_client:
  assumes "ble_inv (c # held) b" and "i < length (bl_nodes b)"
    and "cn_client (bl_nodes b ! i) = None" and "cn_client (f (bl_nodes b ! i)) = Some c"
    and "node_ok (f (bl_nodes b ! i))"
  shows "ble_inv held (setNode i f b)"
  using assms clients_split(1) [OF assms(2)] clients_split(2) [OF assms(2), of "f (bl_nodes b ! i)"]
  by (auto simp: ble_inv_def setNode_def queues_ok_def dest!: set_list_update_subset)

text \<open>The number of clients that exist is bounded by the slots and the hand.\<close>

lemma ble_inv_created:
  assumes "ble_inv held b"
  shows "bl_created b \<le> MAX_NODES + length held"
proof -
  have "bl_created b = card (set (held @ clients (bl_nodes b)))"
    using assms by (simp add: ble_inv_def)
  also have "\<dots> \<le> length (held @ clients (bl_nodes b))"
    by (rule card_length)
  finally show ?thesis
    using assms length_clients [of "bl_nodes b"] by (simp add: ble_inv_def)
qed

lemma cleanupDisconnected_inv [tempio_inv]:
  assumes "ble_inv held b"
  shows "ble_inv held (cleanupDisconnected b)"
  using assms clients_map [of "\<lambda>n. if \<not> cn_used n \<and> cn_client n \<noteq> None
      then n\<lparr>cn_configChar := None\<rparr> else n" "bl_nodes b"]
  by (auto simp: ble_inv_def cleanupDisconnected_def queues_ok_def node_ok_def)

text \<open>The clean-up has nothing left to do: the callback has already cleared the characteristic.\<close>

lemma cleanupDisconnected_idle:
  assumes "ble_inv held b"
  shows "cleanupDisconnected b = b"
proof -
  have "n\<lparr>cn_configChar := None\<rparr> = n" if "n \<in> set (bl_nodes b)" "\<not> cn_used n" for n
    using that assms by (cases n) (auto simp: ble_inv_def node_ok_def)
  then have "map (\<lambda>n. if \<not> cn_used n \<and> cn_client n \<noteq> None then n\<lparr>cn_configChar := None\<rparr> else n)
      (bl_nodes b) = bl_nodes b"
    by (intro map_idI) simp
  then show ?thesis by (simp add: cleanupDisconnected_def)
qed

end
