(* ===== verification/Ble_Data.thy ===== *)
theory Ble_Data
  imports Ble_State
begin

text \<open>
  Data from the nodes, \<^verbatim>\<open>ble/ble_data.cpp\<close>: the notify callback parses a message by its first
  byte and puts sensor reports and command acknowledgements into two ring buffers, from which the
  main loop takes them.
\<close>

section \<open>Handlers\<close>

text \<open>\<open>resolveSourceSlot\<close>: the source is the client of the characteristic's service, if it has one.\<close>

definition resolveSourceSlot :: "'adr ble \<Rightarrow> nat option \<Rightarrow> nat option" where
  "resolveSourceSlot b src = (case src of None \<Rightarrow> None | Some c \<Rightarrow> findSlotByClient b c)"

definition handleNodeInfo :: "nat option \<Rightarrow> byte list \<Rightarrow> 'adr ble \<Rightarrow> 'adr ble" where
  "handleNodeInfo slot data b =
     (case read_NodeInfo data of
        None \<Rightarrow> b
      | Some ni \<Rightarrow>
          (case slot of
             None \<Rightarrow> b
           | Some i \<Rightarrow> setNode i (cn_nodeType_update (\<lambda>_. ni_node_type ni)) b))"

definition buildReport ::
  "'adr ble \<Rightarrow> nat option \<Rightarrow> SensorData \<Rightarrow> string \<Rightarrow> i8 \<Rightarrow> SensorReport" where
  "buildReport b slot sd srcAddr rssi =
     SensorReport_init\<lparr>
       sr_node_id := strlcpy 18 srcAddr,
       sr_node_type_str := strlcpy 8
         (case slot of
            Some i \<Rightarrow> if cn_nodeType (bl_nodes b ! i) = NT_IR then ''ir'' else ''sensor''
          | None \<Rightarrow> ''sensor''),
       sr_temperature := sd_temp sd,
       sr_humidity := sd_humidity sd,
       sr_ldr := sd_ldr sd,
       sr_battery_mv := sd_battery_mv sd,
       sr_ble_rssi := (case slot of Some i \<Rightarrow> rssi | None \<Rightarrow> 0)\<rparr>"

definition enqueueReport :: "SensorReport \<Rightarrow> 'adr ble \<Rightarrow> 'adr ble" where
  "enqueueReport rpt b =
     b\<lparr>bl_reportQueue := snd (tsq_push REPORT_QUEUE_MAX (bl_reportQueue b) rpt)\<rparr>"

definition handleCmdAck :: "byte list \<Rightarrow> string \<Rightarrow> 'adr ble \<Rightarrow> 'adr ble" where
  "handleCmdAck data srcAddr b =
     (case read_CmdAck data of
        None \<Rightarrow> b
      | Some ack \<Rightarrow>
          (let rpt = CmdAckReport_init\<lparr>ar_node_id := strlcpy 18 srcAddr,
                       ar_cmd_id := ca_cmd_id ack, ar_success := (ca_success ack \<noteq> 0)\<rparr>
           in b\<lparr>bl_ackQueue := snd (tsq_push CMD_PENDING_PER_NODE (bl_ackQueue b) rpt)\<rparr>))"

definition handleSensorData ::
  "nat option \<Rightarrow> byte list \<Rightarrow> string \<Rightarrow> i8 \<Rightarrow> 'adr ble \<Rightarrow> 'adr ble" where
  "handleSensorData slot data srcAddr rssi b =
     (case read_SensorData data of
        None \<Rightarrow> b
      | Some sd \<Rightarrow> enqueueReport (buildReport b slot sd srcAddr rssi) b)"

definition onDataNotify ::
  "('adr \<Rightarrow> string) \<Rightarrow> nat option \<Rightarrow> byte list \<Rightarrow> i8 \<Rightarrow> 'adr ble \<Rightarrow> 'adr ble" where
  "onDataNotify toString src data rssi b =
     (case data of
        [] \<Rightarrow> b
      | t # _ \<Rightarrow>
          (let slot = resolveSourceSlot b src;
               srcAddr = cstr (case slot of Some i \<Rightarrow> toString (cn_addr (bl_nodes b ! i)) | None \<Rightarrow> ''??'')
           in case msg_of_byte t of
                Some NODE_INFO \<Rightarrow> handleNodeInfo slot data b
              | Some SENSOR_DATA \<Rightarrow> handleSensorData slot data srcAddr rssi b
              | Some CMD_ACK \<Rightarrow> handleCmdAck data srcAddr b
              | _ \<Rightarrow> b))"

definition bleGetPendingReport :: "'adr ble \<Rightarrow> SensorReport option \<times> 'adr ble" where
  "bleGetPendingReport b =
     (let (r, q) = tsq_pop REPORT_QUEUE_MAX (bl_reportQueue b) in (r, b\<lparr>bl_reportQueue := q\<rparr>))"

definition bleGetPendingAck :: "'adr ble \<Rightarrow> CmdAckReport option \<times> 'adr ble" where
  "bleGetPendingAck b =
     (let (r, q) = tsq_pop CMD_PENDING_PER_NODE (bl_ackQueue b) in (r, b\<lparr>bl_ackQueue := q\<rparr>))"

section \<open>What the handlers do to the queues\<close>

abbreviation reports :: "'adr ble \<Rightarrow> SensorReport list" where
  "reports b \<equiv> tsq_items REPORT_QUEUE_MAX (bl_reportQueue b)"

abbreviation acks :: "'adr ble \<Rightarrow> CmdAckReport list" where
  "acks b \<equiv> tsq_items CMD_PENDING_PER_NODE (bl_ackQueue b)"

abbreviation found :: "'adr ble \<Rightarrow> 'adr list" where
  "found b \<equiv> tsq_items PENDING_MAX (bl_pendingQueue b)"

lemma resolveSourceSlot_Some:
  assumes "resolveSourceSlot b src = Some i"
  shows "i < length (bl_nodes b)" "cn_used (bl_nodes b ! i)" "cn_client (bl_nodes b ! i) = src"
  using assms findSlotIndex_SomeD
  by (auto simp: resolveSourceSlot_def findSlotByClient_def split: option.splits
      dest: findSlotIndex_SomeD)

lemma enqueueReport_inv [tempio_inv]: "ble_inv held b \<Longrightarrow> ble_inv held (enqueueReport r b)"
  by (simp add: ble_inv_def queues_ok_def enqueueReport_def tsq_unsafe_same tsq.inv_push)

lemma handleCmdAck_inv [tempio_inv]: "ble_inv held b \<Longrightarrow> ble_inv held (handleCmdAck data s b)"
  by (simp add: ble_inv_def queues_ok_def handleCmdAck_def tsq_unsafe_same tsq.inv_push Let_def
      split: option.splits)

lemma handleSensorData_inv [tempio_inv]:
  "ble_inv held b \<Longrightarrow> ble_inv held (handleSensorData slot data s rssi b)"
  by (simp add: handleSensorData_def enqueueReport_inv split: option.splits)

lemma handleNodeInfo_inv [tempio_inv]:
  assumes "ble_inv held b" and "\<And>i. slot = Some i \<Longrightarrow> i < length (bl_nodes b)"
  shows "ble_inv held (handleNodeInfo slot data b)"
  using assms ble_inv_node [OF assms(1)]
  by (auto simp: handleNodeInfo_def node_ok_def intro!: setNode_same_client split: option.splits)

lemma onDataNotify_inv [tempio_inv]:
  assumes "ble_inv held b"
  shows "ble_inv held (onDataNotify toString src data rssi b)"
  using assms resolveSourceSlot_Some(1) [of b src]
  by (auto simp: onDataNotify_def Let_def
      intro!: handleNodeInfo_inv handleSensorData_inv handleCmdAck_inv split: list.splits
      option.splits MsgType.splits)

text \<open>The rest of the state is not touched by a notification.\<close>

lemma onDataNotify_frame:
  "bl_created (onDataNotify toString src data rssi b) = bl_created b"
  "bl_writes (onDataNotify toString src data rssi b) = bl_writes b"
  "bl_calls (onDataNotify toString src data rssi b) = bl_calls b"
  "bl_pendingQueue (onDataNotify toString src data rssi b) = bl_pendingQueue b"
  "bl_scanning (onDataNotify toString src data rssi b) = bl_scanning b"
  "bl_doScan (onDataNotify toString src data rssi b) = bl_doScan b"
  "bl_led (onDataNotify toString src data rssi b) = bl_led b"
  by (auto simp: onDataNotify_def handleNodeInfo_def handleSensorData_def handleCmdAck_def
      enqueueReport_def setNode_def Let_def split: list.splits option.splits MsgType.splits)

text \<open>Which slots are used, with which client and address, does not change either.\<close>

lemma onDataNotify_nodes:
  "map cn_used (bl_nodes (onDataNotify toString src data rssi b)) = map cn_used (bl_nodes b)"
  "map cn_client (bl_nodes (onDataNotify toString src data rssi b)) = map cn_client (bl_nodes b)"
  "map cn_addr (bl_nodes (onDataNotify toString src data rssi b)) = map cn_addr (bl_nodes b)"
  "map cn_configChar (bl_nodes (onDataNotify toString src data rssi b)) = map cn_configChar (bl_nodes b)"
  by (auto simp: onDataNotify_def handleNodeInfo_def handleSensorData_def handleCmdAck_def
        enqueueReport_def setNode_def Let_def map_update_idle
        split: list.splits option.splits MsgType.splits)

end
