(* ===== verification/Ble_Callbacks.thy ===== *)
theory Ble_Callbacks
  imports Ble_Data
begin

text \<open>
  The callbacks of \<^verbatim>\<open>ble/ble_connection.cpp\<close>, which NimBLE's host task runs at any time: a scan
  result puts a new node's address into the queue of nodes to connect, a lost link frees the
  node's slot.  \<open>ble_call\<close> is a call from the hub into NimBLE: the callbacks that the environment
  schedules for it run before it returns.
\<close>

section \<open>Callbacks\<close>

definition isAlreadyPending :: "'adr ble \<Rightarrow> 'adr \<Rightarrow> bool" where
  "isAlreadyPending b addr = tsq_contains PENDING_MAX (\<lambda>a. a = addr) (bl_pendingQueue b)"

definition onResult :: "string list \<Rightarrow> 'adr \<Rightarrow> 'adr ble \<Rightarrow> 'adr ble" where
  "onResult services addr b =
     (if TEMPIO_SERVICE_UUID \<notin> set services then b
      else if isAlreadyConnected b addr then b
      else if isAlreadyPending b addr then b
      else if findEmptySlot b = None then b
      else if tsq_full PENDING_MAX (bl_pendingQueue b) then b
      else b\<lparr>bl_pendingQueue := snd (tsq_push PENDING_MAX (bl_pendingQueue b) addr)\<rparr>)"

definition onDisconnect :: "nat \<Rightarrow> 'adr ble \<Rightarrow> 'adr ble" where
  "onDisconnect c b =
     (let b1 = (case findSlotByClient b c of
                  None \<Rightarrow> b
                | Some i \<Rightarrow> setNode i (\<lambda>n. n\<lparr>cn_used := False, cn_configChar := None\<rparr>) b)
      in b1\<lparr>bl_led := (activeCount b1 > 0), bl_doScan := True\<rparr>)"

fun run_event :: "'adr ble_env \<Rightarrow> 'adr ble_event \<Rightarrow> 'adr ble \<Rightarrow> 'adr ble" where
  "run_event env (ScanResult services addr) b =
     (if bl_scanning b \<or> be_late env then onResult services addr b else b)"
| "run_event env (Disconnected c) b = onDisconnect c b"
| "run_event env (Notified src data rssi) b = onDataNotify (be_toString env) src data rssi b"

definition run_events :: "'adr ble_env \<Rightarrow> 'adr ble_event list \<Rightarrow> 'adr ble \<Rightarrow> 'adr ble" where
  "run_events env es b = foldl (\<lambda>b e. run_event env e b) b es"

definition ble_call :: "'adr ble_env \<Rightarrow> 'adr ble \<Rightarrow> 'adr ble" where
  "ble_call env b = run_events env (be_events env (bl_calls b)) (b\<lparr>bl_calls := Suc (bl_calls b)\<rparr>)"

section \<open>The callbacks keep the slots' invariant\<close>

lemma onResult_inv [tempio_inv]: "ble_inv held b \<Longrightarrow> ble_inv held (onResult services addr b)"
  by (simp add: ble_inv_def queues_ok_def onResult_def tsq_unsafe_same tsq.inv_push)

lemma ble_inv_flags [simp]:
  "ble_inv held (b\<lparr>bl_led := l\<rparr>) = ble_inv held b"
  "ble_inv held (b\<lparr>bl_doScan := d\<rparr>) = ble_inv held b"
  "ble_inv held (b\<lparr>bl_scanning := sc\<rparr>) = ble_inv held b"
  "ble_inv held (b\<lparr>bl_calls := k\<rparr>) = ble_inv held b"
  "ble_inv held (b\<lparr>bl_writes := w\<rparr>) = ble_inv held b"
  "ble_inv held (b\<lparr>bl_lastPrint := t\<rparr>) = ble_inv held b"
  by (simp_all add: ble_inv_def queues_ok_def)

lemma findSlotByClient_Some:
  assumes "findSlotByClient b c = Some i"
  shows "i < length (bl_nodes b)" "cn_used (bl_nodes b ! i)" "cn_client (bl_nodes b ! i) = Some c"
  using findSlotIndex_SomeD [OF assms [unfolded findSlotByClient_def]] by auto

lemma onDisconnect_inv [tempio_inv]:
  assumes "ble_inv held b"
  shows "ble_inv held (onDisconnect c b)"
proof (cases "findSlotByClient b c")
  case None
  with assms show ?thesis by (simp add: onDisconnect_def)
next
  case (Some i)
  note i = findSlotByClient_Some [OF Some]
  have "ble_inv held (setNode i (\<lambda>n. n\<lparr>cn_used := False, cn_configChar := None\<rparr>) b)"
    using assms i by (intro setNode_same_client) (auto simp: node_ok_def)
  with Some show ?thesis by (simp add: onDisconnect_def Let_def)
qed

lemma run_event_inv [tempio_inv]: "ble_inv held b \<Longrightarrow> ble_inv held (run_event env e b)"
  by (cases e) (auto intro: tempio_inv)

lemma run_events_inv [tempio_inv]: "ble_inv held b \<Longrightarrow> ble_inv held (run_events env es b)"
  unfolding run_events_def by (induction es arbitrary: b) (auto intro: run_event_inv)

lemma ble_call_inv [tempio_inv]: "ble_inv held b \<Longrightarrow> ble_inv held (ble_call env b)"
  by (simp add: ble_call_def run_events_inv)

text \<open>What callbacks never do: create clients, write characteristics, start or stop the scanner.\<close>

lemma run_event_frame [simp]:
  "bl_created (run_event env e b) = bl_created b"
  "bl_writes (run_event env e b) = bl_writes b"
  "bl_calls (run_event env e b) = bl_calls b"
  "bl_scanning (run_event env e b) = bl_scanning b"
  "bl_lastPrint (run_event env e b) = bl_lastPrint b"
  by (cases e; auto simp: onResult_def onDisconnect_def setNode_def Let_def onDataNotify_def
      handleNodeInfo_def handleSensorData_def handleCmdAck_def enqueueReport_def
      split: list.splits option.splits MsgType.splits)+

lemma run_events_frame [simp]:
  "bl_created (run_events env es b) = bl_created b"
  "bl_writes (run_events env es b) = bl_writes b"
  "bl_calls (run_events env es b) = bl_calls b"
  "bl_scanning (run_events env es b) = bl_scanning b"
  "bl_lastPrint (run_events env es b) = bl_lastPrint b"
  unfolding run_events_def by (induction es arbitrary: b; simp)+

lemma ble_call_frame [simp]:
  "bl_created (ble_call env b) = bl_created b"
  "bl_writes (ble_call env b) = bl_writes b"
  "bl_calls (ble_call env b) = Suc (bl_calls b)"
  "bl_scanning (ble_call env b) = bl_scanning b"
  "bl_lastPrint (ble_call env b) = bl_lastPrint b"
  by (simp_all add: ble_call_def)

text \<open>A slot can lose its node to a callback, never gain one, and keeps its client.\<close>

definition slots_shrink :: "'adr ble \<Rightarrow> 'adr ble \<Rightarrow> bool" where
  "slots_shrink b b' \<longleftrightarrow> length (bl_nodes b') = length (bl_nodes b)
     \<and> (\<forall>i < length (bl_nodes b). cn_client (bl_nodes b' ! i) = cn_client (bl_nodes b ! i)
          \<and> cn_addr (bl_nodes b' ! i) = cn_addr (bl_nodes b ! i)
          \<and> (cn_used (bl_nodes b' ! i) \<longrightarrow> cn_used (bl_nodes b ! i)
               \<and> cn_configChar (bl_nodes b' ! i) = cn_configChar (bl_nodes b ! i)))"

lemma slots_shrink_refl [simp, intro]: "slots_shrink b b"
  by (simp add: slots_shrink_def)

lemma slots_shrink_trans [trans]: "slots_shrink a b \<Longrightarrow> slots_shrink b c \<Longrightarrow> slots_shrink a c"
  by (auto simp: slots_shrink_def)

lemma slots_shrink_calls [simp]: "slots_shrink b (b'\<lparr>bl_calls := k\<rparr>) = slots_shrink b b'"
  "slots_shrink (b\<lparr>bl_calls := k\<rparr>) b' = slots_shrink b b'"
  by (simp_all add: slots_shrink_def)

lemma slots_shrink_notify: "slots_shrink b (onDataNotify ts src data rssi b)"
proof -
  let ?b = "onDataNotify ts src data rssi b"
  have eq: "f (bl_nodes ?b ! i) = f (bl_nodes b ! i)"
    if "map f (bl_nodes ?b) = map f (bl_nodes b)" "i < length (bl_nodes b)"
    for i and f :: "'a ConnectedNode \<Rightarrow> 'c"
    using that by (metis length_map nth_map)
  have "length (bl_nodes ?b) = length (bl_nodes b)"
    using onDataNotify_nodes(1) by (metis length_map)
  then show ?thesis
    using eq [OF onDataNotify_nodes(1)] eq [OF onDataNotify_nodes(2)] eq [OF onDataNotify_nodes(3)]
      eq [OF onDataNotify_nodes(4)]
    by (simp add: slots_shrink_def)
qed

lemma slots_shrink_disconnect: "slots_shrink b (onDisconnect c b)"
  by (auto simp: slots_shrink_def onDisconnect_def setNode_def Let_def nth_list_update
      dest: findSlotByClient_Some(1) split: option.splits if_splits)

lemma slots_shrink_result: "slots_shrink b (onResult services addr b)"
  by (auto simp: slots_shrink_def onResult_def)

lemma slots_shrink_event: "slots_shrink b (run_event env e b)"
  by (cases e) (auto simp: slots_shrink_notify slots_shrink_disconnect slots_shrink_result)

lemma slots_shrink_events: "slots_shrink b (run_events env es b)"
  unfolding run_events_def
  by (induction es arbitrary: b) (auto intro: slots_shrink_trans slots_shrink_event)

lemma slots_shrink_call: "slots_shrink b (ble_call env b)"
  using slots_shrink_events [of "b\<lparr>bl_calls := Suc (bl_calls b)\<rparr>" env "be_events env (bl_calls b)"]
  by (simp add: ble_call_def)

section \<open>No node twice\<close>

text \<open>
  The addresses that are queued, in use, or in the hands of the connection code are all
  different.  While an address is in hand this needs a scanner that delivers nothing once it is stopped.
\<close>

definition used_addrs :: "'adr ble \<Rightarrow> 'adr list" where
  "used_addrs b = table_keys cn_used cn_addr (bl_nodes b)"

definition addr_inv :: "'adr list \<Rightarrow> 'adr ble \<Rightarrow> bool" where
  "addr_inv hand b \<longleftrightarrow> distinct (hand @ found b @ used_addrs b) \<and> (hand \<noteq> [] \<longrightarrow> \<not> bl_scanning b)"

lemma isAlreadyConnected_iff: "isAlreadyConnected b addr \<longleftrightarrow> addr \<in> set (used_addrs b)"
  by (auto simp: isAlreadyConnected_def findSlotIndex_def first_index_None used_addrs_def
      table_keys_def)

lemma isAlreadyPending_iff: "queues_ok b \<Longrightarrow> isAlreadyPending b addr \<longleftrightarrow> addr \<in> set (found b)"
  by (auto simp: isAlreadyPending_def tsq_contains_iff queues_ok_def)

text \<open>A scan result is queued exactly when the five tests let it pass.\<close>

lemma onResult_found:
  assumes "queues_ok b"
  shows "found (onResult services addr b) =
    (if TEMPIO_SERVICE_UUID \<in> set services \<and> addr \<notin> set (used_addrs b) \<and> addr \<notin> set (found b) \<and> findEmptySlot b \<noteq> None
        \<and> length (found b) < 8
     then found b @ [addr] else found b)"
proof -
  have q: "tsq_inv PENDING_MAX (bl_pendingQueue b)"
    using assms by (simp add: queues_ok_def)
  have "tsq_full PENDING_MAX (bl_pendingQueue b) \<longleftrightarrow> \<not> length (found b) < 8"
    using tsq_queries(5) [OF q] tsq.items_cap [OF q] by (auto simp: config_defs)
  then show ?thesis
    using tsq.push_items [OF q, of addr] isAlreadyPending_iff [OF assms, of addr]
    by (auto simp: onResult_def isAlreadyConnected_iff tsq_unsafe_same config_defs)
qed

lemma used_addrs_nodes: "bl_nodes b' = bl_nodes b \<Longrightarrow> used_addrs b' = used_addrs b"
  by (simp add: used_addrs_def)

lemma table_keys_zip: "table_keys P key xs = map snd (filter fst (zip (map P xs) (map key xs)))"
  by (induction xs) (simp_all add: table_keys_def)

lemma used_addrs_notify: "used_addrs (onDataNotify ts src data rssi b) = used_addrs b"
  by (simp add: used_addrs_def table_keys_zip onDataNotify_nodes)

lemma addr_inv_result:
  assumes "queues_ok b" and "addr_inv hand b" and "bl_scanning b \<or> hand = []"
  shows "addr_inv hand (onResult services addr b)"
proof -
  have hand: "hand = []" using assms(2,3) by (auto simp: addr_inv_def)
  have "used_addrs (onResult services addr b) = used_addrs b"
    by (simp add: onResult_def used_addrs_def)
  with hand assms show ?thesis
    by (auto simp: addr_inv_def onResult_found)
qed

lemma addr_inv_disconnect:
  assumes "addr_inv hand b"
  shows "addr_inv hand (onDisconnect c b)"
proof (cases "findSlotByClient b c")
  case None
  with assms show ?thesis by (simp add: onDisconnect_def addr_inv_def used_addrs_def)
next
  case (Some i)
  note i = findSlotByClient_Some [OF Some]
  let ?n = "(bl_nodes b ! i)\<lparr>cn_used := False, cn_configChar := None\<rparr>"
  have "set (table_keys cn_used cn_addr ((bl_nodes b)[i := ?n])) \<subseteq> set (used_addrs b)"
    unfolding used_addrs_def table_keys_split [OF i(1)] by auto
  moreover have "distinct (table_keys cn_used cn_addr ((bl_nodes b)[i := ?n]))"
    using assms i by (intro table_release(1)) (auto simp: addr_inv_def used_addrs_def)
  ultimately show ?thesis
    using assms Some
    by (auto simp: addr_inv_def used_addrs_def onDisconnect_def setNode_def Let_def)
qed

lemma addr_inv_event:
  assumes "ble_inv held b" and "addr_inv hand b" and "hand \<noteq> [] \<Longrightarrow> \<not> be_late env"
  shows "addr_inv hand (run_event env e b)"
proof (cases e)
  case (ScanResult services addr)
  with assms show ?thesis by (auto intro!: addr_inv_result intro: ble_inv_queues)
next
  case (Disconnected c)
  with assms show ?thesis by (simp add: addr_inv_disconnect)
next
  case (Notified src data rssi)
  with assms show ?thesis
    by (simp add: addr_inv_def used_addrs_notify onDataNotify_frame)
qed

lemma addr_inv_events:
  assumes "ble_inv held b" and "addr_inv hand b" and "hand \<noteq> [] \<Longrightarrow> \<not> be_late env"
  shows "addr_inv hand (run_events env es b)"
  using assms(1,2) unfolding run_events_def
  by (induction es arbitrary: b) (auto intro: addr_inv_event [OF _ _ assms(3)] run_event_inv)

lemma addr_inv_call:
  assumes "ble_inv held b" and "addr_inv hand b" and "hand \<noteq> [] \<Longrightarrow> \<not> be_late env"
  shows "addr_inv hand (ble_call env b)"
  using assms unfolding ble_call_def
  by (intro addr_inv_events) (auto simp: addr_inv_def used_addrs_def)

end
