(* ===== verification/Ble_Link.thy ===== *)
theory Ble_Link
  imports Ble_Callbacks
begin

text \<open>
  The calls that the command layer makes to BLE (\<^verbatim>\<open>ble/ble_central.cpp\<close>, public API): is a node
  connected, and write bytes to its CONFIG characteristic.  What the command layer may rely on is
  the locale \<open>node_link\<close>.
\<close>

section \<open>Operations\<close>

definition bleConnectedCount :: "'adr ble \<Rightarrow> nat" where
  "bleConnectedCount b = activeCount b"

definition bleIsNodeConnected :: "'adr ble_env \<Rightarrow> 'adr ble \<Rightarrow> string \<Rightarrow> bool" where
  "bleIsNodeConnected env b addrStr = isAlreadyConnected b (be_addr env (cstr addrStr))"

text \<open>\<open>writeValue\<close> is a call into NimBLE: it is logged with its result, and callbacks may run.\<close>

definition writeValue :: "'adr ble_env \<Rightarrow> 'adr ble \<Rightarrow> nat \<Rightarrow> byte list \<Rightarrow> bool \<times> 'adr ble" where
  "writeValue env b h data =
     (let ok = be_write env (bl_calls b)
      in (ok, ble_call env (b\<lparr>bl_writes := bl_writes b @ [(h, data, ok)]\<rparr>)))"

definition bleSendToNode :: "'adr ble_env \<Rightarrow> 'adr ble \<Rightarrow> string \<Rightarrow> byte list \<Rightarrow> bool \<times> 'adr ble" where
  "bleSendToNode env b addrStr data =
     (case findSlotByAddr b (be_addr env (cstr addrStr)) of
        None \<Rightarrow> (False, b)
      | Some slot \<Rightarrow>
          (case cn_configChar (bl_nodes b ! slot) of
             None \<Rightarrow> (False, b)
           | Some h \<Rightarrow> writeValue env b h data))"

section \<open>The contract of the link\<close>

locale node_link =
  fixes send :: "'l \<Rightarrow> string \<Rightarrow> byte list \<Rightarrow> bool \<times> 'l"
    and connected :: "'l \<Rightarrow> string \<Rightarrow> bool"
    and sent :: "'l \<Rightarrow> (nat \<times> byte list \<times> bool) list"
    and inv :: "'l \<Rightarrow> bool"
  assumes send_inv: "inv l \<Longrightarrow> inv (snd (send l n d))"
    and send_unconnected: "\<not> connected l n \<Longrightarrow> send l n d = (False, l)"
    and send_log: "send l n d = (ok, l') \<Longrightarrow>
      (\<exists>h. sent l' = sent l @ [(h, d, ok)]) \<or> (\<not> ok \<and> l' = l)"
begin

lemma send_ok:
  assumes "send l n d = (True, l')"
  shows "connected l n" and "\<exists>h. sent l' = sent l @ [(h, d, True)]"
proof -
  show "connected l n"
    using assms send_unconnected [of l n d] by (cases "connected l n") auto
  show "\<exists>h. sent l' = sent l @ [(h, d, True)]"
    using send_log [OF assms] by auto
qed

text \<open>The log only grows: what has been written stays written.\<close>

lemma send_log_prefix: "send l n d = (ok, l') \<Longrightarrow> \<exists>w. sent l' = sent l @ w \<and> length w \<le> 1"
  using send_log [of l n d ok l'] by (metis append_Nil2 le_numeral_extra(1) length_0_conv
      length_Cons less_eq_nat.simps(1) One_nat_def order_refl)

end

lemma findSlotByAddr_connected: "findSlotByAddr b addr = None \<longleftrightarrow> \<not> isAlreadyConnected b addr"
  by (simp add: findSlotByAddr_def isAlreadyConnected_def)

lemma findSlotByAddr_Some:
  assumes "findSlotByAddr b addr = Some i"
  shows "i < length (bl_nodes b)" "cn_used (bl_nodes b ! i)" "cn_addr (bl_nodes b ! i) = addr"
  using findSlotIndex_SomeD [OF assms [unfolded findSlotByAddr_def]] by auto

lemma writeValue_inv [tempio_inv]: "ble_inv held b \<Longrightarrow> ble_inv held (snd (writeValue env b h d))"
  by (simp add: writeValue_def Let_def ble_call_inv)

lemma bleSendToNode_inv [tempio_inv]:
  "ble_inv held b \<Longrightarrow> ble_inv held (snd (bleSendToNode env b n d))"
  by (auto simp: bleSendToNode_def intro: writeValue_inv split: option.splits)

lemma bleSendToNode_frame [simp]:
  "bl_created (snd (bleSendToNode env b n d)) = bl_created b"
  "bl_scanning (snd (bleSendToNode env b n d)) = bl_scanning b"
  "bl_lastPrint (snd (bleSendToNode env b n d)) = bl_lastPrint b"
  by (auto simp: bleSendToNode_def writeValue_def Let_def split: option.splits)

lemma slots_shrink_writes [simp]:
  "slots_shrink (b\<lparr>bl_writes := w\<rparr>) b' = slots_shrink b b'"
  by (simp add: slots_shrink_def)

lemma bleSendToNode_shrink: "slots_shrink b (snd (bleSendToNode env b n d))"
proof -
  have "slots_shrink b (ble_call env (b\<lparr>bl_writes := w\<rparr>))" for w
    using slots_shrink_call [of "b\<lparr>bl_writes := w\<rparr>" env] by simp
  then show ?thesis
    by (auto simp: bleSendToNode_def writeValue_def Let_def split: option.splits)
qed

lemma addr_inv_send:
  assumes "ble_inv held b" and "addr_inv hand b" and "hand \<noteq> [] \<Longrightarrow> \<not> be_late env"
  shows "addr_inv hand (snd (bleSendToNode env b n d))"
proof -
  have "addr_inv hand (ble_call env (b\<lparr>bl_writes := w\<rparr>))" for w
    using assms by (intro addr_inv_call) (auto simp: addr_inv_def used_addrs_def)
  with assms show ?thesis
    by (auto simp: bleSendToNode_def writeValue_def Let_def split: option.splits)
qed

interpretation ble: node_link "bleSendToNode env" "bleIsNodeConnected env" bl_writes "ble_inv held"
  for env :: "'adr ble_env" and held
proof
  fix b :: "'adr ble" and n d
  show "ble_inv held (snd (bleSendToNode env b n d))" if "ble_inv held b"
    using that by (rule bleSendToNode_inv)
  show "bleSendToNode env b n d = (False, b)" if "\<not> bleIsNodeConnected env b n"
    using that by (simp add: bleSendToNode_def bleIsNodeConnected_def findSlotByAddr_connected
        [symmetric])
  fix ok b'
  assume "bleSendToNode env b n d = (ok, b')"
  then show "(\<exists>h. bl_writes b' = bl_writes b @ [(h, d, ok)]) \<or> (\<not> ok \<and> b' = b)"
    by (auto simp: bleSendToNode_def writeValue_def Let_def split: option.splits)
qed

end
