(* ===== verification/Json_Api.thy ===== *)
theory Json_Api
  imports Hub_Types
begin

text \<open>
  JSON on the hub.  ArduinoJson is not part of the repository, so the calls the code makes to it
  are a parameter \<open>json_api\<close> over an unknown type of document nodes; what the hub puts into a document
  is modelled, as the list of the members in the order the code adds them (\<^verbatim>\<open>hub/dto/*.h\<close>).
\<close>

datatype jval = JStr string | JNat nat | JInt int | JBool bool | JRaw string | JThousandths nat

text \<open>
  \<open>js_parse\<close> is \<open>deserializeJson\<close>: was there an error, and the document; \<open>js_int o k d\<close> is \<open>o[k] | d\<close> with
  an int default, \<open>js_str\<close> the same with a string; \<open>js_array o k\<close> is \<open>o[k].as<JsonArray>()\<close> (\<open>None\<close>: null);
  \<open>js_u16\<close> converts an element; \<open>js_isObject o k\<close> is \<open>o[k].is<JsonObject>()\<close>; \<open>js_child\<close> is
  \<open>serializeJson(o[k], buf, n)\<close> and \<open>js_text\<close> is \<open>serializeJson(doc, buf, n)\<close>, each the string left in the
  buffer; \<open>js_fmt1\<close> is the text of a float under \<open>%.1f\<close>.
\<close>

record 'j json_api =
  js_parse :: "string \<Rightarrow> bool \<times> 'j"
  js_int :: "'j \<Rightarrow> string \<Rightarrow> int \<Rightarrow> int"
  js_str :: "'j \<Rightarrow> string \<Rightarrow> string \<Rightarrow> string"
  js_array :: "'j \<Rightarrow> string \<Rightarrow> 'j list option"
  js_u16 :: "'j \<Rightarrow> u16"
  js_isObject :: "'j \<Rightarrow> string \<Rightarrow> bool"
  js_child :: "'j \<Rightarrow> string \<Rightarrow> nat \<Rightarrow> string"
  js_text :: "(string \<times> jval) list \<Rightarrow> nat \<Rightarrow> string"
  js_fmt1 :: "u32 \<Rightarrow> string"

definition SensorReport_doc :: "'j json_api \<Rightarrow> SensorReport \<Rightarrow> (string \<times> jval) list" where
  "SensorReport_doc js r =
     [(''node_id'', JStr (sr_node_id r)),
      (''node_type'', JStr (sr_node_type_str r)),
      (''temperature'', JRaw (snprintf 8 (js_fmt1 js (sr_temperature r)))),
      (''humidity'', JRaw (snprintf 8 (js_fmt1 js (sr_humidity r))))]
     @ (if sr_ldr r > 0 then [(''lux'', JNat (unat (sr_ldr r)))] else [])
     @ [(''battery_voltage'', JThousandths (unat (sr_battery_mv r))),
        (''ble_rssi'', JInt (sint (sr_ble_rssi r))),
        (''wifi_rssi'', JInt (sint (sr_wifi_rssi r))),
        (''free_heap'', JNat (unat (sr_free_heap r))),
        (''uptime_ms'', JNat (unat (sr_uptime_ms r)))]"

definition SensorReport_toJson :: "'j json_api \<Rightarrow> SensorReport \<Rightarrow> nat \<Rightarrow> string" where
  "SensorReport_toJson js r bufSize = js_text js (SensorReport_doc js r) bufSize"

definition CmdAckReport_doc :: "CmdAckReport \<Rightarrow> (string \<times> jval) list" where
  "CmdAckReport_doc r =
     [(''type'', JStr ''cmd_ack''), (''node_id'', JStr (ar_node_id r)),
      (''cmd_id'', JNat (unat (ar_cmd_id r))), (''success'', JBool (ar_success r))]"

definition CmdAckReport_toJson :: "'j json_api \<Rightarrow> CmdAckReport \<Rightarrow> nat \<Rightarrow> string" where
  "CmdAckReport_toJson js r bufSize = js_text js (CmdAckReport_doc r) bufSize"

text \<open>The members of a document are reached by name; no name occurs twice.\<close>

lemma SensorReport_doc_distinct: "distinct (map fst (SensorReport_doc js r))"
  by (simp add: SensorReport_doc_def)

lemma SensorReport_doc_lux:
  "map_of (SensorReport_doc js r) ''lux''
   = (if sr_ldr r = 0 then None else Some (JNat (unat (sr_ldr r))))"
  by (simp add: SensorReport_doc_def word_gt_0)

text \<open>A document determines the acknowledgement it was made from.\<close>

lemma CmdAckReport_doc_inject: "CmdAckReport_doc r = CmdAckReport_doc s \<longleftrightarrow> r = s"
  by (cases r; cases s) (auto simp: CmdAckReport_doc_def word_unat_eq_iff [symmetric])

end
