(* ===== verification/Cmd_Send.thy ===== *)
theory Cmd_Send
  imports Ble_Link Json_Api
begin

text \<open>
  From a command to a BLE packet, the handlers of \<^verbatim>\<open>cmd/cmd_dispatcher.cpp\<close>.  A handler parses the
  command's JSON payload, fills a packet of \<open>Protocol\<close> and hands it to \<open>bleSendToNode\<close>; its
  result says whether the packet has been written.
\<close>

section \<open>Handlers\<close>

definition handleSetInterval ::
  "'adr ble_env \<Rightarrow> 'j json_api \<Rightarrow> MqttCommand \<Rightarrow> 'adr ble \<Rightarrow> bool \<times> 'adr ble" where
  "handleSetInterval env js cmd b =
     (let (err, doc) = js_parse js (cstr (mc_payload cmd))
      in if err then (False, b)
         else bleSendToNode env b (mc_target cmd)
                (bytes_SetInterval \<lparr>si_type = msg_code SET_INTERVAL, si_cmd_id = mc_cmd_id cmd,
                   si_interval_sec = word_of_int (js_int js doc ''interval_sec'' 60)\<rparr>))"

definition handleResetNode ::
  "'adr ble_env \<Rightarrow> 'j json_api \<Rightarrow> MqttCommand \<Rightarrow> 'adr ble \<Rightarrow> bool \<times> 'adr ble" where
  "handleResetNode env js cmd b =
     (let (err, doc) = js_parse js (cstr (mc_payload cmd))
      in if err then (False, b)
         else bleSendToNode env b (mc_target cmd)
                (bytes_ResetNode \<lparr>rn_type = msg_code RESET_NODE, rn_cmd_id = mc_cmd_id cmd,
                   rn_level = word_of_int (js_int js doc ''level'' 0)\<rparr>))"

text \<open>
  The number of timings is cut to 16 bits before the size test; the loop copies \<open>count\<close> of them.
\<close>

definition handleIrTiming ::
  "'adr ble_env \<Rightarrow> 'j json_api \<Rightarrow> MqttCommand \<Rightarrow> 'adr ble \<Rightarrow> bool \<times> 'adr ble" where
  "handleIrTiming env js cmd b =
     (let (err, doc) = js_parse js (cstr (mc_payload cmd))
      in if err then (False, b)
         else (case js_array js doc ''timings'' of
                 None \<Rightarrow> (False, b)
               | Some timings \<Rightarrow>
                   if length timings = 0 then (False, b)
                   else (let count = word_of_nat (length timings) :: u16;
                             pktLen = 1 + 2 + 2 + unat count * 2
                         in if pktLen > BLE_MAX_WRITE_SIZE then (False, b)
                            else bleSendToNode env b (mc_target cmd)
                                   (msg_code IR_TIMING # le16 (mc_cmd_id cmd) @ le16 count
                                    @ concat (map (\<lambda>i. le16 (js_u16 js (timings ! i)))
                                        [0..<unat count])))))"

definition handleTest ::
  "'adr ble_env \<Rightarrow> 'j json_api \<Rightarrow> MqttCommand \<Rightarrow> 'adr ble \<Rightarrow> bool \<times> 'adr ble" where
  "handleTest env js cmd b =
     (let (err, doc) = js_parse js (cstr (mc_payload cmd))
      in bleSendToNode env b (mc_target cmd)
           (bytes_TestCmd \<lparr>tc_type = msg_code TEST_CMD, tc_cmd_id = mc_cmd_id cmd,
              tc_led = word_of_int (js_int js doc ''led'' 0)\<rparr>))"

definition trySend ::
  "'adr ble_env \<Rightarrow> 'j json_api \<Rightarrow> MqttCommand \<Rightarrow> 'adr ble \<Rightarrow> bool \<times> 'adr ble" where
  "trySend env js cmd b =
     (if strcmp_eq (mc_type cmd) ''SET_INTERVAL'' then handleSetInterval env js cmd b
      else if strcmp_eq (mc_type cmd) ''RESET_NODE'' then handleResetNode env js cmd b
      else if strcmp_eq (mc_type cmd) ''IR_TIMING'' then handleIrTiming env js cmd b
      else if strcmp_eq (mc_type cmd) ''TEST'' then handleTest env js cmd b
      else (False, b))"

lemmas trySend_defs = trySend_def handleSetInterval_def handleResetNode_def handleIrTiming_def
  handleTest_def

section \<open>The packet of a command\<close>

text \<open>
  What the node will read: the specification of the encoding, by the readers of \<open>Protocol\<close>.
  A JSON number is cut to the width of its field.
\<close>

definition timings_of :: "'j json_api \<Rightarrow> MqttCommand \<Rightarrow> u16 list" where
  "timings_of js cmd =
     (case js_array js (snd (js_parse js (cstr (mc_payload cmd)))) ''timings'' of
        None \<Rightarrow> [] | Some ts \<Rightarrow> map (js_u16 js) ts)"

definition node_reads :: "'j json_api \<Rightarrow> MqttCommand \<Rightarrow> byte list \<Rightarrow> bool" where
  "node_reads js cmd pkt =
     (let doc = snd (js_parse js (cstr (mc_payload cmd))); t = cstr (mc_type cmd)
      in if t = ''SET_INTERVAL''
         then msg_of_byte (hd pkt) = Some SET_INTERVAL \<and> read_SetInterval pkt
           = Some \<lparr>si_type = msg_code SET_INTERVAL, si_cmd_id = mc_cmd_id cmd,
                   si_interval_sec = word_of_int (js_int js doc ''interval_sec'' 60)\<rparr>
         else if t = ''RESET_NODE''
         then msg_of_byte (hd pkt) = Some RESET_NODE \<and> read_ResetNode pkt
           = Some \<lparr>rn_type = msg_code RESET_NODE, rn_cmd_id = mc_cmd_id cmd,
                   rn_level = word_of_int (js_int js doc ''level'' 0)\<rparr>
         else if t = ''IR_TIMING''
         then msg_of_byte (hd pkt) = Some IR_TIMING \<and> read_IrTiming pkt
           = Some (mc_cmd_id cmd, take (length (timings_of js cmd) mod 65536) (timings_of js cmd))
         else t = ''TEST'' \<and> msg_of_byte (hd pkt) = Some TEST_CMD \<and> read_TestCmd pkt
           = Some \<lparr>tc_type = msg_code TEST_CMD, tc_cmd_id = mc_cmd_id cmd,
                   tc_led = word_of_int (js_int js doc ''led'' 0)\<rparr>)"

text \<open>The same as a function: the bytes a command is sent as, \<open>None\<close> when no packet is built.\<close>

definition packet_of :: "'j json_api \<Rightarrow> MqttCommand \<Rightarrow> byte list option" where
  "packet_of js cmd =
     (let (err, doc) = js_parse js (cstr (mc_payload cmd)); t = cstr (mc_type cmd);
          ts = timings_of js cmd; n = length ts mod 65536
      in if t = ''TEST''
         then Some (bytes_TestCmd \<lparr>tc_type = msg_code TEST_CMD, tc_cmd_id = mc_cmd_id cmd,
                      tc_led = word_of_int (js_int js doc ''led'' 0)\<rparr>)
         else if err then None
         else if t = ''SET_INTERVAL''
         then Some (bytes_SetInterval \<lparr>si_type = msg_code SET_INTERVAL, si_cmd_id = mc_cmd_id cmd,
                      si_interval_sec = word_of_int (js_int js doc ''interval_sec'' 60)\<rparr>)
         else if t = ''RESET_NODE''
         then Some (bytes_ResetNode \<lparr>rn_type = msg_code RESET_NODE, rn_cmd_id = mc_cmd_id cmd,
                      rn_level = word_of_int (js_int js doc ''level'' 0)\<rparr>)
         else if t = ''IR_TIMING'' \<and> ts \<noteq> [] \<and> n \<le> 247
         then Some (bytes_IrTiming (mc_cmd_id cmd) (take n ts))
         else None)"

lemma map_nth_upt: "n \<le> length xs \<Longrightarrow> map (\<lambda>i. f (xs ! i)) [0..<n] = map f (take n xs)"
  by (auto intro: nth_equalityI)

lemma handleIrTiming_packet:
  assumes "cstr (mc_type cmd) = ''IR_TIMING''"
  shows "handleIrTiming env js cmd b =
    (case packet_of js cmd of None \<Rightarrow> (False, b) | Some pkt \<Rightarrow> bleSendToNode env b (mc_target cmd) pkt)"
proof -
  obtain err doc where doc: "js_parse js (cstr (mc_payload cmd)) = (err, doc)" by fastforce
  have n: "unat (word_of_nat k :: u16) = k mod 65536" for k
    by (simp add: unsigned_of_nat take_bit_eq_mod)
  have m: "map (\<lambda>i. le16 (js_u16 js (ts ! i))) [0..<length ts mod 65536]
      = map le16 (take (length ts mod 65536) (map (js_u16 js) ts))" for ts
    by (simp add: map_nth_upt [of _ _ "\<lambda>x. le16 (js_u16 js x)"] take_map comp_def)
  have w: "(word_of_nat (k mod 65536) :: u16) = word_of_nat k" for k
    by (rule word_unat_eq_iff [THEN iffD2]) (simp add: n)
  show ?thesis
    using assms doc
    by (simp add: handleIrTiming_def packet_of_def timings_of_def n m w bytes_IrTiming_def Let_def
        BLE_MAX_WRITE_SIZE_def min_absorb1 split: option.splits)
qed

lemma trySend_packet:
  "trySend env js cmd b =
    (case packet_of js cmd of None \<Rightarrow> (False, b) | Some pkt \<Rightarrow> bleSendToNode env b (mc_target cmd) pkt)"
proof (cases "cstr (mc_type cmd) = ''IR_TIMING''")
  case True
  then show ?thesis
    using handleIrTiming_packet [OF True] by (simp add: trySend_def strcmp_eq_def)
next
  case False
  then show ?thesis
    by (auto simp: trySend_def strcmp_eq_def handleSetInterval_def handleResetNode_def
        handleTest_def packet_of_def Let_def split: prod.splits)
qed

lemma packet_of_length: "packet_of js cmd = Some pkt \<Longrightarrow> 0 < length pkt \<and> length pkt \<le> 500"
  by (auto simp: packet_of_def Let_def split: prod.splits if_splits)
    (auto simp: bytes_defs bytes_IrTiming_def)

lemma hd_bytes [simp]:
  "hd (bytes_TestCmd tc) = tc_type tc" "hd (bytes_SetInterval si) = si_type si"
  "hd (bytes_ResetNode rn) = rn_type rn" "hd (bytes_IrTiming cid ts) = msg_code IR_TIMING"
  by (simp_all add: bytes_defs bytes_IrTiming_def)

lemma packet_of_reads: "packet_of js cmd = Some pkt \<Longrightarrow> node_reads js cmd pkt"
  using read_IrTiming_bytes [of "take (length (timings_of js cmd) mod 65536) (timings_of js cmd)"
      "mc_cmd_id cmd" "[]"]
  by (auto simp: packet_of_def node_reads_def Let_def split: prod.splits if_splits)

lemma trySend_inv [tempio_inv]: "ble_inv held b \<Longrightarrow> ble_inv held (snd (trySend env js cmd b))"
  by (auto simp: trySend_packet bleSendToNode_inv split: option.splits)

lemma trySend_shrink: "slots_shrink b (snd (trySend env js cmd b))"
  by (auto simp: trySend_packet bleSendToNode_shrink split: option.splits)

lemma trySend_frame [simp]:
  "bl_created (snd (trySend env js cmd b)) = bl_created b"
  "bl_scanning (snd (trySend env js cmd b)) = bl_scanning b"
  "bl_lastPrint (snd (trySend env js cmd b)) = bl_lastPrint b"
  by (simp_all add: trySend_packet split: option.splits)

lemma trySend_addr_inv:
  assumes "ble_inv held b" and "addr_inv hand b" and "hand \<noteq> [] \<Longrightarrow> \<not> be_late env"
  shows "addr_inv hand (snd (trySend env js cmd b))"
  using assms by (auto simp: trySend_packet addr_inv_send split: option.splits)

section \<open>Properties\<close>

text \<open>
  C14: a command that is reported as sent has been written to the node exactly once, in a packet
  of at most 500 bytes from which the node reads the command's type, id and parameters; a command
  of an unknown type, or one whose target is not connected, writes nothing and changes nothing.
\<close>

theorem command_on_the_wire:
  assumes "trySend env js cmd b = (ok, b')"
  shows "(ok \<longrightarrow> bleIsNodeConnected env b (mc_target cmd)
            \<and> (\<exists>h pkt. bl_writes b' = bl_writes b @ [(h, pkt, True)] \<and> length pkt \<le> 500
                 \<and> node_reads js cmd pkt))
    \<and> (\<not> bleIsNodeConnected env b (mc_target cmd)
        \<or> cstr (mc_type cmd) \<notin> {''SET_INTERVAL'', ''RESET_NODE'', ''IR_TIMING'', ''TEST''}
        \<longrightarrow> (ok, b') = (False, b))"
proof (cases "packet_of js cmd")
  case None
  with assms show ?thesis by (simp add: trySend_packet)
next
  case (Some pkt)
  have known: "cstr (mc_type cmd) \<in> {''SET_INTERVAL'', ''RESET_NODE'', ''IR_TIMING'', ''TEST''}"
    using Some by (auto simp: packet_of_def Let_def split: prod.splits if_splits)
  have send: "bleSendToNode env b (mc_target cmd) pkt = (ok, b')"
    using assms Some by (simp add: trySend_packet)
  show ?thesis
    using ble.send_ok [of env b "mc_target cmd" pkt b'] ble.send_unconnected [of env b] send
      packet_of_length [OF Some] packet_of_reads [OF Some] known
    by (cases ok) auto
qed

text \<open>A node in slot 0 that answers everything, and a JSON reader that finds one number.\<close>

definition example_env :: "string ble_env" where
  "example_env = \<lparr>be_addr = id, be_toString = id, be_create = (\<lambda>_. True), be_connect = (\<lambda>_. True),
     be_service = (\<lambda>_ _. True), be_characteristic = (\<lambda>_ _ _. Some 7), be_canNotify = (\<lambda>_ _ _. True), be_write = (\<lambda>_. True), be_events = (\<lambda>_. []), be_late = False\<rparr>"

definition example_json :: "unit json_api" where
  "example_json = \<lparr>js_parse = (\<lambda>s. (s = [], ())), js_int = (\<lambda>_ k d. if k = ''interval_sec'' then 90 else d),
     js_str = (\<lambda>_ _ d. d), js_array = (\<lambda>_ _. None), js_u16 = (\<lambda>_. 0), js_isObject = (\<lambda>_ _. False),
     js_child = (\<lambda>_ _ _. []), js_text = (\<lambda>_ _. []), js_fmt1 = (\<lambda>_. [])\<rparr>"

definition example_ble :: "string ble" where
  "example_ble = setNode 0 (\<lambda>n. n\<lparr>cn_client := Some 0, cn_configChar := Some 7, cn_addr := ''aa'',
       cn_used := True\<rparr>)
     ((ble_boot [] (replicate 8 []) (replicate 8 SensorReport_init) (replicate 4 CmdAckReport_init))
       \<lparr>bl_created := 1\<rparr>)"

definition example_set :: MqttCommand where
  "example_set = \<lparr>mc_target = ''aa'', mc_type = ''SET_INTERVAL'', mc_payload = ''{}'', mc_cmd_id = 9,
     mc_queued_at = 0\<rparr>"

lemma example_ble_connected: "findSlotByAddr example_ble ''aa'' = Some 0"
  by (simp add: findSlotByAddr_def findSlotIndex_def example_ble_def setNode_def ble_boot_def
      config_defs numeral_eq_Suc)

lemma example_send: "trySend example_env example_json example_set example_ble
  = (True, ble_call example_env (example_ble\<lparr>bl_writes := [(7, [0x12, 9, 0, 90, 0], True)]\<rparr>))"
proof -
  have "cn_configChar (bl_nodes example_ble ! 0) = Some 7" "bl_writes example_ble = []"
    by (simp_all add: example_ble_def setNode_def ble_boot_def config_defs)
  then show ?thesis
    using example_ble_connected
    by (simp add: trySend_def example_set_def example_json_def strcmp_eq_def handleSetInterval_def
        bleSendToNode_def example_env_def writeValue_def cstr_def bytes_SetInterval_def le16_def)
qed

theorem command_on_the_wire_witness:
  "\<exists>b' h pkt. trySend example_env example_json example_set example_ble = (True, b')
     \<and> bl_writes b' = bl_writes example_ble @ [(h, pkt, True)] \<and> length pkt \<le> 500
     \<and> node_reads example_json example_set pkt"
  using command_on_the_wire [OF example_send] example_send by auto

end
