(* ===== verification/Pending_Pool.thy ===== *)
theory Pending_Pool
  imports Hub_Types Thread_Safe_Queue
begin

text \<open>
  The pool of commands that wait for their node, \<^verbatim>\<open>util/pending_pool.h\<close>: five slots, each with
  a ring buffer of four commands, the node it belongs to and a \<open>used\<close> flag.  Every public method
  runs inside one critical section, so it is one step here; \<open>millis()\<close> is an argument.  The
  contract \<open>mailbox\<close> is a map from node ids to bounded command lists; \<open>pool_abs\<close> abstracts the
  slots to that map and the interpretation \<open>pool\<close> discharges the contract.
\<close>

section \<open>State and operations\<close>

record Slot =
  sl_queue :: "MqttCommand tsq"
  sl_node_id :: string
  sl_used :: bool

record PendingPool =
  pp_slots :: "Slot list"

text \<open>\<open>findSlot\<close> and \<open>findOrCreate\<close>: the index stands for the slot pointer, \<open>None\<close> for \<open>nullptr\<close>.\<close>

definition pool_findSlot :: "PendingPool \<Rightarrow> string \<Rightarrow> nat option" where
  "pool_findSlot p nodeId =
     first_index (\<lambda>s. sl_used s \<and> strcmp_eq (sl_node_id s) nodeId) (pp_slots p)"

definition pool_setSlot :: "PendingPool \<Rightarrow> nat \<Rightarrow> Slot \<Rightarrow> PendingPool" where
  "pool_setSlot p i s = p\<lparr>pp_slots := (pp_slots p)[i := s]\<rparr>"

definition pool_findOrCreate :: "PendingPool \<Rightarrow> string \<Rightarrow> nat option \<times> PendingPool" where
  "pool_findOrCreate p nodeId =
     (case first_index (\<lambda>s. sl_used s \<and> strcmp_eq (sl_node_id s) nodeId) (pp_slots p) of
        Some i \<Rightarrow> (Some i, p)
      | None \<Rightarrow>
          (case first_index (\<lambda>s. \<not> sl_used s) (pp_slots p) of
             Some i \<Rightarrow>
               (Some i, pool_setSlot p i
                  ((pp_slots p ! i)\<lparr>sl_used := True, sl_node_id := strlcpy 18 nodeId\<rparr>))
           | None \<Rightarrow> (None, p)))"

definition pool_push :: "u32 \<Rightarrow> PendingPool \<Rightarrow> string \<Rightarrow> MqttCommand \<Rightarrow> bool \<times> PendingPool" where
  "pool_push now p nodeId cmd =
     (let stamped = cmd\<lparr>mc_queued_at := now\<rparr>
      in case pool_findOrCreate p nodeId of
           (None, p1) \<Rightarrow> (False, p1)
         | (Some i, p1) \<Rightarrow>
             (let s = pp_slots p1 ! i;
                  (ok, q) = tsq_pushUnsafe CMD_PENDING_PER_NODE (sl_queue s) stamped
              in (ok, pool_setSlot p1 i (s\<lparr>sl_queue := q\<rparr>))))"

definition pool_pushFront ::
  "u32 \<Rightarrow> PendingPool \<Rightarrow> string \<Rightarrow> MqttCommand \<Rightarrow> bool \<times> PendingPool" where
  "pool_pushFront now p nodeId cmd =
     (let stamped = cmd\<lparr>mc_queued_at := now\<rparr>
      in case pool_findOrCreate p nodeId of
           (None, p1) \<Rightarrow> (False, p1)
         | (Some i, p1) \<Rightarrow>
             (let s = pp_slots p1 ! i;
                  (ok, q) = tsq_pushFrontUnsafe CMD_PENDING_PER_NODE (sl_queue s) stamped
              in (ok, pool_setSlot p1 i (s\<lparr>sl_queue := q\<rparr>))))"

text \<open>The age test of \<open>pop\<close>: unsigned subtraction, so it survives a wrap of \<open>millis()\<close>.\<close>

definition cmd_fresh :: "u32 \<Rightarrow> MqttCommand \<Rightarrow> bool" where
  "cmd_fresh now c \<longleftrightarrow> now - mc_queued_at c < CMD_TTL_MS"

text \<open>The \<open>while (slot->queue.popUnsafe(&cmd))\<close> loop of \<open>pop\<close>.\<close>

function pool_pop_loop ::
  "u32 \<Rightarrow> MqttCommand tsq \<Rightarrow> MqttCommand option \<times> MqttCommand tsq" where
  "pool_pop_loop now q =
     (case tsq_popUnsafe CMD_PENDING_PER_NODE q of
        (None, q') \<Rightarrow> (None, q')
      | (Some cmd, q') \<Rightarrow> if cmd_fresh now cmd then (Some cmd, q') else pool_pop_loop now q')"
  by pat_completeness auto
termination
  by (relation "measure (\<lambda>(now, q). nat (tsq_count q))")
     (auto simp: tsq_popUnsafe_def split: if_splits)

declare pool_pop_loop.simps [simp del]

definition pool_pop :: "u32 \<Rightarrow> PendingPool \<Rightarrow> string \<Rightarrow> MqttCommand option \<times> PendingPool" where
  "pool_pop now p nodeId =
     (case pool_findSlot p nodeId of
        None \<Rightarrow> (None, p)
      | Some i \<Rightarrow>
          (let s = pp_slots p ! i
           in case pool_pop_loop now (sl_queue s) of
                (Some cmd, q) \<Rightarrow> (Some cmd, pool_setSlot p i (s\<lparr>sl_queue := q\<rparr>))
              | (None, q) \<Rightarrow> (None, pool_setSlot p i (s\<lparr>sl_queue := q, sl_used := False\<rparr>))))"

definition pool_activeSlots :: "PendingPool \<Rightarrow> nat" where
  "pool_activeSlots p = length (filter sl_used (pp_slots p))"

definition pool_totalPending :: "PendingPool \<Rightarrow> int" where
  "pool_totalPending p =
     (\<Sum>s \<leftarrow> pp_slots p. if sl_used s then tsq_countUnsafe (sl_queue s) else 0)"

text \<open>
  \<open>nextNode(&from, nodeId, len)\<close>: the new value of \<open>*from\<close> and the id that is copied out, of
  the first slot from \<open>*from\<close> on with work; \<open>None\<close> for \<open>false\<close>.
\<close>

definition pool_nextNode :: "PendingPool \<Rightarrow> nat \<Rightarrow> nat \<Rightarrow> (nat \<times> string) option" where
  "pool_nextNode p from len =
     (case first_index (\<lambda>s. sl_used s \<and> \<not> tsq_emptyUnsafe (sl_queue s)) (drop from (pp_slots p)) of
        None \<Rightarrow> None
      | Some k \<Rightarrow> Some (from + k + 1, strlcpy len (sl_node_id (pp_slots p ! (from + k)))))"

section \<open>The contract: a map of bounded command lists\<close>

definition mb_insert ::
  "nat \<Rightarrow> nat \<Rightarrow> (MqttCommand list \<Rightarrow> MqttCommand \<Rightarrow> MqttCommand list)
   \<Rightarrow> (string \<rightharpoonup> MqttCommand list) \<Rightarrow> string \<Rightarrow> MqttCommand
   \<Rightarrow> bool \<times> (string \<rightharpoonup> MqttCommand list)" where
  "mb_insert boxes cap ins m node c =
     (case m node of
        Some cs \<Rightarrow> if length cs < cap then (True, m(node \<mapsto> ins cs c)) else (False, m)
      | None \<Rightarrow> if card (dom m) < boxes then (True, m(node \<mapsto> [c])) else (False, m))"

definition mb_pop ::
  "(MqttCommand \<Rightarrow> bool) \<Rightarrow> (string \<rightharpoonup> MqttCommand list) \<Rightarrow> string
   \<Rightarrow> MqttCommand option \<times> (string \<rightharpoonup> MqttCommand list)" where
  "mb_pop fresh m node =
     (case m node of
        None \<Rightarrow> (None, m)
      | Some cs \<Rightarrow>
          (case dropWhile (\<lambda>c. \<not> fresh c) cs of
             [] \<Rightarrow> (None, m(node := None))
           | c # cs' \<Rightarrow> (Some c, m(node \<mapsto> cs'))))"

text \<open>The commands of a node, in the order in which they will be handed out.\<close>

definition mb_pending :: "(string \<rightharpoonup> MqttCommand list) \<Rightarrow> string \<Rightarrow> MqttCommand list" where
  "mb_pending m node = (case m node of None \<Rightarrow> [] | Some cs \<Rightarrow> cs)"

locale mailbox =
  fixes push :: "u32 \<Rightarrow> 'p \<Rightarrow> string \<Rightarrow> MqttCommand \<Rightarrow> bool \<times> 'p"
    and pushFront :: "u32 \<Rightarrow> 'p \<Rightarrow> string \<Rightarrow> MqttCommand \<Rightarrow> bool \<times> 'p"
    and pop :: "u32 \<Rightarrow> 'p \<Rightarrow> string \<Rightarrow> MqttCommand option \<times> 'p"
    and boxes :: nat
    and cap :: nat
    and abs :: "'p \<Rightarrow> (string \<rightharpoonup> MqttCommand list)"
    and inv :: "'p \<Rightarrow> bool"
  assumes abs_push: "inv p \<Longrightarrow> fits 18 node \<Longrightarrow>
      map_prod id abs (push now p node c)
      = mb_insert boxes cap (\<lambda>cs c. cs @ [c]) (abs p) node (c\<lparr>mc_queued_at := now\<rparr>)"
    and abs_pushFront: "inv p \<Longrightarrow> fits 18 node \<Longrightarrow>
      map_prod id abs (pushFront now p node c)
      = mb_insert boxes cap (\<lambda>cs c. c # cs) (abs p) node (c\<lparr>mc_queued_at := now\<rparr>)"
    and abs_pop: "inv p \<Longrightarrow> fits 18 node \<Longrightarrow>
      map_prod id abs (pop now p node) = mb_pop (cmd_fresh now) (abs p) node"
    and inv_push: "inv p \<Longrightarrow> fits 18 node \<Longrightarrow> inv (snd (push now p node c))"
    and inv_pushFront: "inv p \<Longrightarrow> fits 18 node \<Longrightarrow> inv (snd (pushFront now p node c))"
    and inv_pop: "inv p \<Longrightarrow> fits 18 node \<Longrightarrow> inv (snd (pop now p node))"
    and finite_abs: "inv p \<Longrightarrow> finite (dom (abs p))"
    and cap_abs: "inv p \<Longrightarrow> abs p node = Some cs \<Longrightarrow> length cs \<le> cap"
    and cap_pos: "0 < cap"
begin

lemma pop_SomeD:
  assumes "inv p" and "fits 18 node" and "pop now p node = (Some c, p')"
  shows "inv p'" and "cmd_fresh now c"
    and "\<exists>old cs. abs p node = Some (old @ c # cs) \<and> (\<forall>d \<in> set old. \<not> cmd_fresh now d)
           \<and> abs p' = (abs p)(node \<mapsto> cs)"
proof -
  show "inv p'"
    using inv_pop [OF assms(1,2), of now] assms(3) by simp
  have eq: "mb_pop (cmd_fresh now) (abs p) node = (Some c, abs p')"
    using abs_pop [OF assms(1,2), of now] assms(3) by simp
  then obtain cs0 cs where cs0: "abs p node = Some cs0"
    and dw: "dropWhile (\<lambda>c. \<not> cmd_fresh now c) cs0 = c # cs"
    and p': "abs p' = (abs p)(node \<mapsto> cs)"
    by (auto simp: mb_pop_def split: option.splits list.splits)
  show "cmd_fresh now c"
    using dw hd_dropWhile [of "\<lambda>c. \<not> cmd_fresh now c" cs0] by auto
  have "cs0 = takeWhile (\<lambda>c. \<not> cmd_fresh now c) cs0 @ c # cs"
    using dw takeWhile_dropWhile_id [of "\<lambda>c. \<not> cmd_fresh now c" cs0] by simp
  with cs0 p' show "\<exists>old cs. abs p node = Some (old @ c # cs)
      \<and> (\<forall>d \<in> set old. \<not> cmd_fresh now d) \<and> abs p' = (abs p)(node \<mapsto> cs)"
    by (metis set_takeWhileD)
qed

lemma pop_NoneD:
  assumes "inv p" and "fits 18 node" and "pop now p node = (None, p')"
  shows "inv p'" and "abs p' = (abs p)(node := None)"
    and "\<forall>d \<in> set (mb_pending (abs p) node). \<not> cmd_fresh now d"
proof -
  show "inv p'"
    using inv_pop [OF assms(1,2), of now] assms(3) by simp
  have eq: "mb_pop (cmd_fresh now) (abs p) node = (None, abs p')"
    using abs_pop [OF assms(1,2), of now] assms(3) by simp
  then show "abs p' = (abs p)(node := None)"
    by (auto simp: mb_pop_def fun_upd_idem split: option.splits list.splits)
  show "\<forall>d \<in> set (mb_pending (abs p) node). \<not> cmd_fresh now d"
    using eq by (auto simp: mb_pop_def mb_pending_def dropWhile_eq_Nil_conv split: option.splits
        list.splits)
qed

text \<open>
  Putting a command back right after taking it out cannot fail, and restores the order; what
  changes is its time stamp.
\<close>

lemma pop_pushFront:
  assumes "inv p" and "fits 18 node" and "pop now p node = (Some c, p')"
  shows "fst (pushFront now' p' node c)"
    and "abs (snd (pushFront now' p' node c))
         = (abs p)(node \<mapsto> c\<lparr>mc_queued_at := now'\<rparr> # mb_pending (abs p') node)"
    and "mb_pending (abs p') node = tl (dropWhile (\<lambda>c. \<not> cmd_fresh now c) (mb_pending (abs p) node))"
proof -
  obtain old cs where p: "abs p node = Some (old @ c # cs)"
      and old: "\<forall>d \<in> set old. \<not> cmd_fresh now d" and p': "abs p' = (abs p)(node \<mapsto> cs)"
    using pop_SomeD(3) [OF assms] by blast
  have "length cs < cap"
    using cap_abs [OF assms(1) p] by simp
  then have "mb_insert boxes cap (\<lambda>cs c. c # cs) (abs p') node (c\<lparr>mc_queued_at := now'\<rparr>)
      = (True, (abs p)(node \<mapsto> c\<lparr>mc_queued_at := now'\<rparr> # cs))"
    using p' by (simp add: mb_insert_def)
  moreover have "mb_pending (abs p') node = cs"
    using p' by (simp add: mb_pending_def)
  moreover have "tl (dropWhile (\<lambda>c. \<not> cmd_fresh now c) (old @ c # cs)) = cs"
    using old pop_SomeD(2) [OF assms] by (simp add: dropWhile_append)
  ultimately show "fst (pushFront now' p' node c)"
    and "abs (snd (pushFront now' p' node c))
         = (abs p)(node \<mapsto> c\<lparr>mc_queued_at := now'\<rparr> # mb_pending (abs p') node)"
    and "mb_pending (abs p') node = tl (dropWhile (\<lambda>c. \<not> cmd_fresh now c) (mb_pending (abs p) node))"
    using abs_pushFront [OF pop_SomeD(1) [OF assms] assms(2), of now' c] p
    by (cases "pushFront now' p' node c"; simp add: mb_pending_def)+
qed

text \<open>The operations on one node leave the other nodes' commands alone.\<close>

lemma frame:
  assumes "inv p" and "fits 18 node" and "other \<noteq> node"
  shows "abs (snd (push now p node c)) other = abs p other"
    and "abs (snd (pushFront now p node c)) other = abs p other"
    and "abs (snd (pop now p node)) other = abs p other"
  using abs_push [OF assms(1,2), of now c] abs_pushFront [OF assms(1,2), of now c]
    abs_pop [OF assms(1,2), of now] assms(3)
  by (cases "push now p node c"; cases "pushFront now p node c"; cases "pop now p node";
      auto simp: mb_insert_def mb_pop_def split: option.splits if_splits list.splits)+

text \<open>A rejected \<open>push\<close> changes nothing; an accepted one appends the stamped command.\<close>

lemma push_cases:
  assumes "inv p" and "fits 18 node"
  shows "if fst (push now p node c)
         then abs (snd (push now p node c))
              = (abs p)(node \<mapsto> mb_pending (abs p) node @ [c\<lparr>mc_queued_at := now\<rparr>])
         else abs (snd (push now p node c)) = abs p"
  using abs_push [OF assms, of now c] cap_pos
  by (cases "push now p node c")
     (auto simp: mb_insert_def mb_pending_def split: option.splits if_splits)

end

section \<open>The slots keep the contract\<close>

abbreviation slot_items :: "Slot \<Rightarrow> MqttCommand list" where
  "slot_items s \<equiv> tsq_items CMD_PENDING_PER_NODE (sl_queue s)"

definition slot_ok :: "Slot \<Rightarrow> bool" where
  "slot_ok s \<longleftrightarrow> tsq_inv CMD_PENDING_PER_NODE (sl_queue s)
     \<and> (sl_used s \<longrightarrow> fits 18 (sl_node_id s)) \<and> (\<not> sl_used s \<longrightarrow> slot_items s = [])"

abbreviation pool_keys :: "PendingPool \<Rightarrow> string list" where
  "pool_keys p \<equiv> table_keys sl_used sl_node_id (pp_slots p)"

definition pool_inv :: "PendingPool \<Rightarrow> bool" where
  "pool_inv p \<longleftrightarrow> length (pp_slots p) = MAX_NODES \<and> (\<forall>s \<in> set (pp_slots p). slot_ok s)
     \<and> distinct (pool_keys p)"

definition pool_abs :: "PendingPool \<Rightarrow> (string \<rightharpoonup> MqttCommand list)" where
  "pool_abs p = table_map sl_used sl_node_id slot_items (pp_slots p)"

text \<open>The constructor: no slot in use, all queues empty, over whatever the memory held.\<close>

definition pool_new :: "Slot list \<Rightarrow> PendingPool" where
  "pool_new mem =
     \<lparr>pp_slots = map (\<lambda>s. s\<lparr>sl_queue := tsq_new (tsq_buf (sl_queue s)), sl_used := False\<rparr>) mem\<rparr>"

definition pool_mem :: "Slot list \<Rightarrow> bool" where
  "pool_mem mem \<longleftrightarrow> length mem = MAX_NODES
     \<and> list_all (\<lambda>s. length (tsq_buf (sl_queue s)) = nat CMD_PENDING_PER_NODE) mem"

lemma pool_cap_pos [simp]: "0 < CMD_PENDING_PER_NODE"
  by (simp add: config_defs)

lemma pool_inv_new: "pool_mem mem \<Longrightarrow> pool_inv (pool_new mem)"
  and pool_abs_new: "pool_abs (pool_new mem) = Map.empty"
  by (auto simp: pool_inv_def pool_new_def slot_ok_def pool_mem_def table_keys_def filter_map
      comp_def list_all_iff pool_abs_def table_map_def intro!: tsq_inv_new)

lemma pool_invD:
  assumes "pool_inv p" and "i < length (pp_slots p)"
  shows "slot_ok (pp_slots p ! i)" and "length (pp_slots p) = MAX_NODES"
  using assms by (auto simp: pool_inv_def)

text \<open>The search finds the slot of an id, and fails exactly when the id has none.\<close>

lemma pool_findSlot_Some:
  assumes "pool_inv p" and "fits 18 node"
  shows "pool_findSlot p node = Some i \<longleftrightarrow>
    i < length (pp_slots p) \<and> sl_used (pp_slots p ! i) \<and> sl_node_id (pp_slots p ! i) = node"
proof -
  have same: "sl_used s \<and> strcmp_eq (sl_node_id s) node \<longleftrightarrow> sl_used s \<and> sl_node_id s = node"
    if "s \<in> set (pp_slots p)" for s
    using that assms by (auto simp: pool_inv_def slot_ok_def)
  have "pool_findSlot p node = first_index (\<lambda>s. sl_used s \<and> sl_node_id s = node) (pp_slots p)"
    unfolding pool_findSlot_def by (rule first_index_cong) (rule same)
  moreover have "j = i" if "i < length (pp_slots p)" "sl_used (pp_slots p ! i)"
      "j < length (pp_slots p)" "sl_used (pp_slots p ! j)"
      "sl_node_id (pp_slots p ! i) = sl_node_id (pp_slots p ! j)" for i j
    using assms(1) that table_unique [of sl_used sl_node_id "pp_slots p" i j]
    by (simp add: pool_inv_def)
  ultimately show ?thesis
    by (auto dest: first_index_SomeD intro!: first_index_unique)
qed

lemma pool_abs_slot:
  assumes "pool_inv p" and "i < length (pp_slots p)" and "sl_used (pp_slots p ! i)"
  shows "pool_abs p (sl_node_id (pp_slots p ! i)) = Some (slot_items (pp_slots p ! i))"
  using assms table_map_at [of sl_used sl_node_id "pp_slots p" i slot_items]
  by (simp add: pool_inv_def pool_abs_def)

lemma pool_findSlot_None:
  assumes "pool_inv p" and "fits 18 node"
  shows "pool_findSlot p node = None \<longleftrightarrow> pool_abs p node = None"
    and "pool_findSlot p node = None \<longleftrightarrow> node \<notin> set (pool_keys p)"
proof -
  have "pool_findSlot p node = None \<longleftrightarrow>
      (\<forall>i < length (pp_slots p). sl_used (pp_slots p ! i) \<longrightarrow> sl_node_id (pp_slots p ! i) \<noteq> node)"
    using pool_findSlot_Some [OF assms] by (metis not_None_eq)
  also have "\<dots> \<longleftrightarrow> node \<notin> set (pool_keys p)"
    by (auto simp: table_keys_def in_set_conv_nth)
  finally show "pool_findSlot p node = None \<longleftrightarrow> node \<notin> set (pool_keys p)" .
  then show "pool_findSlot p node = None \<longleftrightarrow> pool_abs p node = None"
    by (simp add: pool_abs_def table_map_None)
qed

text \<open>Writing a slot back: in use before and after, taken, or released.\<close>

lemma pool_set_rewrite:
  assumes "pool_inv p" and "i < length (pp_slots p)" and "sl_used (pp_slots p ! i)"
    and "slot_ok s" and "sl_used s" and "sl_node_id s = sl_node_id (pp_slots p ! i)"
  shows "pool_inv (pool_setSlot p i s)"
    and "pool_abs (pool_setSlot p i s) = (pool_abs p)(sl_node_id s \<mapsto> slot_items s)"
  using assms table_rewrite(1) [where P = sl_used and key = sl_node_id and xs = "pp_slots p"
      and i = i and v = s]
    table_rewrite(2) [where P = sl_used and key = sl_node_id and xs = "pp_slots p"
      and i = i and v = s and val = slot_items]
  by (auto simp: pool_inv_def pool_abs_def pool_setSlot_def dest!: set_list_update_subset)

lemma pool_set_insert:
  assumes "pool_inv p" and "i < length (pp_slots p)" and "\<not> sl_used (pp_slots p ! i)"
    and "slot_ok s" and "sl_used s" and "sl_node_id s \<notin> set (pool_keys p)"
  shows "pool_inv (pool_setSlot p i s)"
    and "pool_abs (pool_setSlot p i s) = (pool_abs p)(sl_node_id s \<mapsto> slot_items s)"
  using assms table_insert(1) [where P = sl_used and key = sl_node_id and xs = "pp_slots p"
      and i = i and v = s]
    table_insert(2) [where P = sl_used and key = sl_node_id and xs = "pp_slots p"
      and i = i and v = s and val = slot_items]
  by (auto simp: pool_inv_def pool_abs_def pool_setSlot_def dest!: set_list_update_subset)

lemma pool_set_release:
  assumes "pool_inv p" and "i < length (pp_slots p)" and "sl_used (pp_slots p ! i)"
    and "slot_ok s" and "\<not> sl_used s"
  shows "pool_inv (pool_setSlot p i s)"
    and "pool_abs (pool_setSlot p i s) = (pool_abs p)(sl_node_id (pp_slots p ! i) := None)"
  using assms table_release(1) [where P = sl_used and key = sl_node_id and xs = "pp_slots p"
      and i = i and v = s]
    table_release(2) [where P = sl_used and key = sl_node_id and xs = "pp_slots p"
      and i = i and v = s and val = slot_items]
  by (auto simp: pool_inv_def pool_abs_def pool_setSlot_def dest!: set_list_update_subset)

text \<open>Both insertions have the same shape; only the queue operation differs.\<close>

definition pool_insert_with ::
  "(MqttCommand tsq \<Rightarrow> MqttCommand \<Rightarrow> bool \<times> MqttCommand tsq)
   \<Rightarrow> PendingPool \<Rightarrow> string \<Rightarrow> MqttCommand \<Rightarrow> bool \<times> PendingPool" where
  "pool_insert_with op p node c =
     (case pool_findOrCreate p node of
        (None, p1) \<Rightarrow> (False, p1)
      | (Some i, p1) \<Rightarrow>
          (let s = pp_slots p1 ! i; (ok, q) = op (sl_queue s) c
           in (ok, pool_setSlot p1 i (s\<lparr>sl_queue := q\<rparr>))))"

lemma pool_push_insert:
  "pool_push now p node c
   = pool_insert_with (tsq_pushUnsafe CMD_PENDING_PER_NODE) p node (c\<lparr>mc_queued_at := now\<rparr>)"
  "pool_pushFront now p node c
   = pool_insert_with (tsq_pushFrontUnsafe CMD_PENDING_PER_NODE) p node (c\<lparr>mc_queued_at := now\<rparr>)"
  by (simp_all add: pool_push_def pool_pushFront_def pool_insert_with_def Let_def)

lemma pool_free_slot:
  assumes "pool_inv p"
  shows "(\<exists>i. first_index (\<lambda>s. \<not> sl_used s) (pp_slots p) = Some i)
         \<longleftrightarrow> card (dom (pool_abs p)) < MAX_NODES"
proof -
  have "card (dom (pool_abs p)) = length (filter sl_used (pp_slots p))"
    using assms by (simp add: pool_abs_def pool_inv_def table_map_card)
  moreover have "length (filter sl_used (pp_slots p)) < length (pp_slots p)
      \<longleftrightarrow> (\<exists>s \<in> set (pp_slots p). \<not> sl_used s)"
    by (metis filter_True length_filter_less less_irrefl)
  moreover have "length (pp_slots p) = MAX_NODES"
    using assms by (simp add: pool_inv_def)
  ultimately show ?thesis
    using first_index_None [of "\<lambda>s. \<not> sl_used s" "pp_slots p"] by auto
qed

lemma pool_findOrCreate_cases:
  assumes "pool_inv p" and "fits 18 node"
  obtains
    (found) i where "pool_findOrCreate p node = (Some i, p)" "i < length (pp_slots p)"
      "sl_used (pp_slots p ! i)" "sl_node_id (pp_slots p ! i) = node"
      "pool_abs p node = Some (slot_items (pp_slots p ! i))"
  | (created) i where "i < length (pp_slots p)" "\<not> sl_used (pp_slots p ! i)"
      "pool_findOrCreate p node = (Some i, pool_setSlot p i
         ((pp_slots p ! i)\<lparr>sl_used := True, sl_node_id := node\<rparr>))"
      "pool_abs p node = None" "node \<notin> set (pool_keys p)" "card (dom (pool_abs p)) < MAX_NODES"
  | (full) "pool_findOrCreate p node = (None, p)" "pool_abs p node = None"
      "\<not> card (dom (pool_abs p)) < MAX_NODES"
proof (cases "pool_findSlot p node")
  case (Some i)
  with assms show ?thesis
    using pool_findSlot_Some [OF assms, of i] pool_abs_slot [OF assms(1), of i] found [of i]
    by (auto simp: pool_findOrCreate_def pool_findSlot_def)
next
  case None
  with assms pool_findSlot_None [OF assms] show ?thesis
    using created full pool_free_slot [OF assms(1)]
    by (cases "first_index (\<lambda>s. \<not> sl_used s) (pp_slots p)")
      (auto simp: pool_findOrCreate_def pool_findSlot_def dest: first_index_SomeD)
qed

lemma pool_setSlot_nth [simp]:
  "i < length (pp_slots p) \<Longrightarrow> pp_slots (pool_setSlot p i s) ! i = s"
  "pool_setSlot (pool_setSlot p i s) i t = pool_setSlot p i t"
  "length (pp_slots (pool_setSlot p i s)) = length (pp_slots p)"
  by (simp_all add: pool_setSlot_def)

lemma pool_insert_refines:
  assumes "pool_inv p" and "fits 18 node"
    and op: "\<And>q. tsq_inv CMD_PENDING_PER_NODE q \<Longrightarrow> tsq_inv CMD_PENDING_PER_NODE (snd (op q c))
      \<and> map_prod id (tsq_items CMD_PENDING_PER_NODE) (op q c)
        = (if length (tsq_items CMD_PENDING_PER_NODE q) < nat CMD_PENDING_PER_NODE
           then (True, ins (tsq_items CMD_PENDING_PER_NODE q) c)
           else (False, tsq_items CMD_PENDING_PER_NODE q))"
    and ins: "ins [] c = [c]"
  shows "map_prod id pool_abs (pool_insert_with op p node c)
         = mb_insert MAX_NODES (nat CMD_PENDING_PER_NODE) ins (pool_abs p) node c
         \<and> pool_inv (snd (pool_insert_with op p node c))"
  using assms(1,2)
proof (cases rule: pool_findOrCreate_cases)
  case (found i)
  let ?s = "pp_slots p ! i"
  obtain ok q where oq: "op (sl_queue ?s) c = (ok, q)" by fastforce
  have s: "slot_ok ?s" using pool_invD [OF assms(1) found(2)] by simp
  with op [of "sl_queue ?s"] oq found
  have "slot_ok (?s\<lparr>sl_queue := q\<rparr>)" by (simp add: slot_ok_def)
  from pool_set_rewrite [OF assms(1) found(2,3) this] found oq
  have "pool_inv (pool_setSlot p i (?s\<lparr>sl_queue := q\<rparr>))"
    and "pool_abs (pool_setSlot p i (?s\<lparr>sl_queue := q\<rparr>))
         = (pool_abs p)(node \<mapsto> tsq_items CMD_PENDING_PER_NODE q)"
    by simp_all
  with op [of "sl_queue ?s"] oq s found show ?thesis
    by (auto simp: pool_insert_with_def mb_insert_def slot_ok_def fun_upd_idem split: if_splits)
next
  case (created i)
  let ?s = "pp_slots p ! i"
  obtain ok q where oq: "op (sl_queue ?s) c = (ok, q)" by fastforce
  have s: "slot_ok ?s" using pool_invD [OF assms(1) created(1)] by simp
  with op [of "sl_queue ?s"] oq created ins
  have q: "ok" "tsq_items CMD_PENDING_PER_NODE q = [c]" "tsq_inv CMD_PENDING_PER_NODE q"
    by (auto simp: slot_ok_def config_defs)
  with assms(2)
  have "slot_ok (?s\<lparr>sl_used := True, sl_node_id := node, sl_queue := q\<rparr>)" by (simp add: slot_ok_def)
  from pool_set_insert [OF assms(1) created(1,2) this] created q
  have "pool_inv (pool_setSlot p i (?s\<lparr>sl_used := True, sl_node_id := node, sl_queue := q\<rparr>))"
    and "pool_abs (pool_setSlot p i (?s\<lparr>sl_used := True, sl_node_id := node, sl_queue := q\<rparr>))
         = (pool_abs p)(node \<mapsto> [c])"
    by simp_all
  with oq q created show ?thesis
    by (simp add: pool_insert_with_def mb_insert_def)
next
  case full
  with assms(1) show ?thesis
    by (simp add: pool_insert_with_def mb_insert_def)
qed

text \<open>The expiry loop drops the expired prefix of the queue and nothing else.\<close>

lemma pool_pop_loop_spec:
  assumes "tsq_inv CMD_PENDING_PER_NODE q"
  shows "tsq_inv CMD_PENDING_PER_NODE (snd (pool_pop_loop now q))
    \<and> map_prod id (tsq_items CMD_PENDING_PER_NODE) (pool_pop_loop now q)
      = bl_pop (dropWhile (\<lambda>c. \<not> cmd_fresh now c) (tsq_items CMD_PENDING_PER_NODE q))"
  using assms
proof (induction now q rule: pool_pop_loop.induct)
  case (1 now q)
  obtain r q' where pop: "tsq_popUnsafe CMD_PENDING_PER_NODE q = (r, q')" by fastforce
  show ?case
  proof (cases r)
    case None
    with tsq.pop_NoneE [OF "1.prems"] pop show ?thesis
      by (subst (1 2) pool_pop_loop.simps) (simp add: bl_pop_def)
  next
    case (Some c)
    with tsq.popE [OF "1.prems"] pop
    have q': "tsq_items CMD_PENDING_PER_NODE q = c # tsq_items CMD_PENDING_PER_NODE q'"
        "tsq_inv CMD_PENDING_PER_NODE q'" by auto
    then show ?thesis
      using "1.IH" [OF pop [symmetric] Some] pop Some
      by (subst (1 2) pool_pop_loop.simps) (simp add: bl_pop_def id_def)
  qed
qed

lemma pool_pop_refines:
  assumes "pool_inv p" and "fits 18 node"
  shows "map_prod id pool_abs (pool_pop now p node) = mb_pop (cmd_fresh now) (pool_abs p) node
         \<and> pool_inv (snd (pool_pop now p node))"
proof (cases "pool_findSlot p node")
  case None
  with assms pool_findSlot_None [OF assms] show ?thesis
    by (simp add: pool_pop_def mb_pop_def)
next
  case (Some i)
  let ?s = "pp_slots p ! i"
  obtain r q where loop: "pool_pop_loop now (sl_queue ?s) = (r, q)" by fastforce
  from Some pool_findSlot_Some [OF assms]
  have i: "i < length (pp_slots p)" "sl_used ?s" "sl_node_id ?s = node" by simp_all
  have abs: "pool_abs p node = Some (slot_items ?s)"
    using pool_abs_slot [OF assms(1) i(1,2)] i(3) by simp
  have s: "slot_ok ?s" using pool_invD [OF assms(1) i(1)] by simp
  with loop pool_pop_loop_spec [of "sl_queue ?s" now]
  have q: "tsq_inv CMD_PENDING_PER_NODE q"
    and rq: "(r, tsq_items CMD_PENDING_PER_NODE q)
        = bl_pop (dropWhile (\<lambda>c. \<not> cmd_fresh now c) (slot_items ?s))"
    by (simp_all add: slot_ok_def)
  show ?thesis
  proof (cases r)
    case None
    with rq have dw: "dropWhile (\<lambda>c. \<not> cmd_fresh now c) (slot_items ?s) = []"
      and "tsq_items CMD_PENDING_PER_NODE q = []"
      by (cases "dropWhile (\<lambda>c. \<not> cmd_fresh now c) (slot_items ?s)"; simp add: bl_pop_def)+
    with q have "slot_ok (?s\<lparr>sl_queue := q, sl_used := False\<rparr>)" by (simp add: slot_ok_def)
    from pool_set_release [OF assms(1) i(1,2) this] show ?thesis
      using Some None loop dw abs i(3)
      by (simp add: pool_pop_def mb_pop_def del: dropWhile_eq_Nil_conv)
  next
    case c: (Some c)
    from q s i have "slot_ok (?s\<lparr>sl_queue := q\<rparr>)" by (simp add: slot_ok_def)
    from pool_set_rewrite [OF assms(1) i(1,2) this] show ?thesis
      using Some c loop rq abs i
      by (auto simp: pool_pop_def mb_pop_def bl_pop_def simp del: dropWhile_eq_Nil_conv
          split: list.splits)
  qed
qed

lemma pool_abs_cap:
  assumes "pool_inv p" and "pool_abs p node = Some cs"
  shows "length cs \<le> nat CMD_PENDING_PER_NODE" and "fits 18 node"
proof -
  from assms(2) have "(node, cs) \<in> set (map (\<lambda>s. (sl_node_id s, slot_items s))
      (filter sl_used (pp_slots p)))"
    unfolding pool_abs_def table_map_def by (rule map_of_SomeD)
  then obtain s where "s \<in> set (pp_slots p)" "sl_used s" "sl_node_id s = node" "cs = slot_items s"
    by auto
  with assms(1) show "length cs \<le> nat CMD_PENDING_PER_NODE" and "fits 18 node"
    by (auto simp: pool_inv_def slot_ok_def intro: tsq.items_cap)
qed

interpretation pool: mailbox pool_push pool_pushFront pool_pop MAX_NODES
    "nat CMD_PENDING_PER_NODE" pool_abs pool_inv
proof
  fix p node now c
  assume inv: "pool_inv p" and node: "fits 18 node"
  note push = pool_insert_refines [OF inv node, of "tsq_pushUnsafe CMD_PENDING_PER_NODE"
      "c\<lparr>mc_queued_at := now\<rparr>" "\<lambda>cs c. cs @ [c]"]
  note front = pool_insert_refines [OF inv node, of "tsq_pushFrontUnsafe CMD_PENDING_PER_NODE"
      "c\<lparr>mc_queued_at := now\<rparr>" "\<lambda>cs c. c # cs"]
  show "map_prod id pool_abs (pool_push now p node c)
      = mb_insert MAX_NODES (nat CMD_PENDING_PER_NODE) (\<lambda>cs c. cs @ [c]) (pool_abs p) node
          (c\<lparr>mc_queued_at := now\<rparr>)"
    and "pool_inv (snd (pool_push now p node c))"
    using push by (simp_all add: pool_push_insert tsq.items_push tsq.inv_push bl_push_def)
  show "map_prod id pool_abs (pool_pushFront now p node c)
      = mb_insert MAX_NODES (nat CMD_PENDING_PER_NODE) (\<lambda>cs c. c # cs) (pool_abs p) node
          (c\<lparr>mc_queued_at := now\<rparr>)"
    and "pool_inv (snd (pool_pushFront now p node c))"
    using front
    by (simp_all add: pool_push_insert tsq.items_pushFront tsq.inv_pushFront bl_pushFront_def)
  show "map_prod id pool_abs (pool_pop now p node) = mb_pop (cmd_fresh now) (pool_abs p) node"
    and "pool_inv (snd (pool_pop now p node))"
    using pool_pop_refines [OF inv node] by simp_all
next
  fix p node cs
  assume "pool_inv p" and "pool_abs p node = Some cs"
  then show "length cs \<le> nat CMD_PENDING_PER_NODE"
    by (rule pool_abs_cap)
qed (simp_all add: pool_abs_def config_defs)

lemmas pool_inv_intros [tempio_inv] = pool.inv_push pool.inv_pushFront pool.inv_pop

section \<open>Counting and enumerating\<close>

lemma pool_activeSlots_abs: "pool_inv p \<Longrightarrow> pool_activeSlots p = card (dom (pool_abs p))"
  by (simp add: pool_activeSlots_def pool_abs_def pool_inv_def table_map_card)

lemma sum_list_filter_map:
  fixes f :: "'a \<Rightarrow> int"
  shows "(\<Sum>x \<leftarrow> xs. if P x then f x else 0) = (\<Sum>x \<leftarrow> filter P xs. f x)"
  by (induction xs) simp_all

lemma pool_totalPending_abs:
  assumes "pool_inv p"
  shows "pool_totalPending p = (\<Sum>node \<in> dom (pool_abs p). int (length (mb_pending (pool_abs p) node)))"
proof -
  let ?used = "filter sl_used (pp_slots p)"
  have d: "distinct (map sl_node_id ?used)"
    using assms by (simp add: pool_inv_def table_keys_def)
  have "pool_totalPending p = (\<Sum>s \<leftarrow> ?used. tsq_countUnsafe (sl_queue s))"
    by (simp add: pool_totalPending_def sum_list_filter_map)
  also have "\<dots> = (\<Sum>s \<leftarrow> ?used. int (length (slot_items s)))"
    using assms by (intro arg_cong [where f = sum_list] map_cong refl)
      (auto simp: pool_inv_def slot_ok_def tsq_queries)
  also have "\<dots> = (\<Sum>s \<leftarrow> ?used. int (length (mb_pending (pool_abs p) (sl_node_id s))))"
    using assms pool_abs_slot [OF assms]
    by (intro arg_cong [where f = sum_list] map_cong refl)
      (auto simp: mb_pending_def in_set_conv_nth)
  also have "\<dots> = (\<Sum>node \<leftarrow> map sl_node_id ?used. int (length (mb_pending (pool_abs p) node)))"
    by (simp add: comp_def)
  also have "\<dots> = (\<Sum>node \<in> dom (pool_abs p). int (length (mb_pending (pool_abs p) node)))"
    using d by (subst sum_list_distinct_conv_sum_set)
      (simp_all add: pool_abs_def table_map_dom table_keys_def)
  finally show ?thesis .
qed

text \<open>\<open>nextNode\<close> finds the first slot with work from the given position on, if there is one.\<close>

lemma pool_nextNode_None:
  assumes "pool_inv p"
  shows "pool_nextNode p from len = None
    \<longleftrightarrow> (\<forall>i. from \<le> i \<longrightarrow> i < MAX_NODES \<longrightarrow> sl_used (pp_slots p ! i) \<longrightarrow> slot_items (pp_slots p ! i) = [])"
proof -
  have len: "length (pp_slots p) = MAX_NODES"
    using assms by (simp add: pool_inv_def)
  have empty: "tsq_emptyUnsafe (sl_queue (pp_slots p ! i)) \<longleftrightarrow> slot_items (pp_slots p ! i) = []"
    if "i < MAX_NODES" for i
    using that pool_invD [OF assms, of i] len by (simp add: slot_ok_def tsq_queries)
  have "pool_nextNode p from len = None \<longleftrightarrow>
      (\<forall>s \<in> set (drop from (pp_slots p)). sl_used s \<longrightarrow> tsq_emptyUnsafe (sl_queue s))"
    using first_index_None [of "\<lambda>s. sl_used s \<and> \<not> tsq_emptyUnsafe (sl_queue s)" "drop from (pp_slots p)"]
    by (auto simp: pool_nextNode_def split: option.splits)
  also have "\<dots> \<longleftrightarrow> (\<forall>k. from + k < MAX_NODES \<longrightarrow> sl_used (pp_slots p ! (from + k))
      \<longrightarrow> tsq_emptyUnsafe (sl_queue (pp_slots p ! (from + k))))"
    by (auto simp: set_conv_nth len less_diff_conv add.commute)
  also have "\<dots> \<longleftrightarrow> (\<forall>i. from \<le> i \<longrightarrow> i < MAX_NODES \<longrightarrow> sl_used (pp_slots p ! i)
      \<longrightarrow> tsq_emptyUnsafe (sl_queue (pp_slots p ! i)))"
    by (metis le_iff_add le_add1)
  finally show ?thesis using empty by blast
qed

lemma pool_nextNode_Some:
  assumes "pool_inv p" and "pool_nextNode p from len = Some (next, node)" and "18 \<le> len"
  shows "from < next" and "next \<le> MAX_NODES" and "fits 18 node" and "mb_pending (pool_abs p) node \<noteq> []"
proof -
  obtain k where k: "first_index (\<lambda>s. sl_used s \<and> \<not> tsq_emptyUnsafe (sl_queue s))
        (drop from (pp_slots p)) = Some k"
    and next_eq: "next = from + k + 1"
    and node: "node = strlcpy len (sl_node_id (pp_slots p ! (from + k)))"
    using assms(2) by (auto simp: pool_nextNode_def split: option.splits)
  let ?s = "pp_slots p ! (from + k)"
  have in_range: "from + k < length (pp_slots p)" and work: "sl_used ?s" "\<not> tsq_emptyUnsafe (sl_queue ?s)"
    using first_index_SomeD [OF k] by (auto simp: less_diff_conv add.commute)
  with pool_invD [OF assms(1) in_range] have s: "slot_ok ?s" "length (pp_slots p) = MAX_NODES" by auto
  then have "fits 18 (sl_node_id ?s)"
    using work by (simp add: slot_ok_def)
  then have id: "node = sl_node_id ?s" "fits 18 node"
    using node fits_mono [OF _ assms(3)] by simp_all
  show "from < next" "next \<le> MAX_NODES" "fits 18 node"
    using next_eq in_range s id by auto
  show "mb_pending (pool_abs p) node \<noteq> []"
    using pool_abs_slot [OF assms(1) in_range work(1)] id s work(2)
      tsq_queries(4) [of CMD_PENDING_PER_NODE "sl_queue ?s"]
    by (simp add: mb_pending_def slot_ok_def)
qed

section \<open>Runs of pool operations\<close>

datatype mail_op = MailPush u32 string MqttCommand | MailPushFront u32 string MqttCommand
  | MailPop u32 string

datatype mail_out = Stored bool | Taken "MqttCommand option"

fun mail_node :: "mail_op \<Rightarrow> string" where
  "mail_node (MailPush now node c) = node"
| "mail_node (MailPushFront now node c) = node"
| "mail_node (MailPop now node) = node"

fun pool_step :: "PendingPool \<Rightarrow> mail_op \<Rightarrow> mail_out \<times> PendingPool" where
  "pool_step p (MailPush now node c) = map_prod Stored id (pool_push now p node c)"
| "pool_step p (MailPushFront now node c) = map_prod Stored id (pool_pushFront now p node c)"
| "pool_step p (MailPop now node) = map_prod Taken id (pool_pop now p node)"

fun mb_step ::
  "(string \<rightharpoonup> MqttCommand list) \<Rightarrow> mail_op \<Rightarrow> mail_out \<times> (string \<rightharpoonup> MqttCommand list)" where
  "mb_step m (MailPush now node c) = map_prod Stored id
     (mb_insert 5 4 (\<lambda>cs c. cs @ [c]) m node (c\<lparr>mc_queued_at := now\<rparr>))"
| "mb_step m (MailPushFront now node c) = map_prod Stored id
     (mb_insert 5 4 (\<lambda>cs c. c # cs) m node (c\<lparr>mc_queued_at := now\<rparr>))"
| "mb_step m (MailPop now node) = map_prod Taken id (mb_pop (cmd_fresh now) m node)"

fun run_steps :: "('s \<Rightarrow> 'a \<Rightarrow> 'r \<times> 's) \<Rightarrow> 's \<Rightarrow> 'a list \<Rightarrow> 'r list \<times> 's" where
  "run_steps step s [] = ([], s)"
| "run_steps step s (a # as) =
     (let (r, s1) = step s a; (rs, s2) = run_steps step s1 as in (r # rs, s2))"

lemma pool_step_refines:
  assumes "pool_inv p" and "fits 18 (mail_node op)"
  shows "map_prod id pool_abs (pool_step p op) = mb_step (pool_abs p) op"
    and "pool_inv (snd (pool_step p op))"
proof -
  show "map_prod id pool_abs (pool_step p op) = mb_step (pool_abs p) op"
  proof (cases op)
    case (MailPush now node c)
    with assms pool.abs_push [of p node now c] show ?thesis
      by (cases "pool_push now p node c") (simp add: config_defs map_prod_def split_beta prod_eq_iff)
  next
    case (MailPushFront now node c)
    with assms pool.abs_pushFront [of p node now c] show ?thesis
      by (cases "pool_pushFront now p node c")
        (simp add: config_defs map_prod_def split_beta prod_eq_iff)
  next
    case (MailPop now node)
    with assms pool.abs_pop [of p node now] show ?thesis
      by (cases "pool_pop now p node") (simp add: map_prod_def split_beta prod_eq_iff)
  qed
  show "pool_inv (snd (pool_step p op))"
    using assms by (cases op) (auto intro: pool_inv_intros)
qed

lemma pool_run_refines:
  assumes "pool_inv p" and "list_all (\<lambda>op. fits 18 (mail_node op)) ops"
  shows "map_prod id pool_abs (run_steps pool_step p ops) = run_steps mb_step (pool_abs p) ops
         \<and> pool_inv (snd (run_steps pool_step p ops))"
  using assms
proof (induction ops arbitrary: p)
  case Nil
  then show ?case by simp
next
  case (Cons op ops)
  then have op: "fits 18 (mail_node op)" by simp
  show ?case
    using pool_step_refines [OF Cons.prems(1) op] Cons.IH [of "snd (pool_step p op)"] Cons.prems(2)
    by (auto simp: split_beta prod_eq_iff)
qed

section \<open>Properties\<close>

text \<open>C8: the pending pool, from its constructor on, is a map from node ids to command lists: every
  sequence of push, pushFront and pop gives the same results as on a map that holds at most five
  nodes with at most four commands each, and the slots abstract to that map at the end.\<close>

theorem pool_refines_map:
  assumes "pool_mem mem" and "list_all (\<lambda>op. fits 18 (mail_node op)) ops"
  shows "map_prod id pool_abs (run_steps pool_step (pool_new mem) ops)
         = run_steps mb_step Map.empty ops"
  using pool_run_refines [OF pool_inv_new [OF assms(1)] assms(2)] by (simp add: pool_abs_new)

definition example_cmd :: MqttCommand where
  "example_cmd = \<lparr>mc_target = ''aa'', mc_type = ''TEST'', mc_payload = ''{}'', mc_cmd_id = 7,
     mc_queued_at = 0\<rparr>"

definition example_mem :: "Slot list" where
  "example_mem = replicate 5 \<lparr>sl_queue = \<lparr>tsq_buf = replicate 4 example_cmd, tsq_head = 9,
     tsq_tail = 9, tsq_count = 9\<rparr>, sl_node_id = ''junk'', sl_used = True\<rparr>"

lemma example_mem_ok: "pool_mem example_mem"
  by (simp add: pool_mem_def example_mem_def config_defs list_all_iff)

theorem pool_refines_map_witness:
  "fst (run_steps pool_step (pool_new example_mem)
     [MailPush 10 ''aa'' example_cmd, MailPop 300009 ''aa'', MailPop 20 ''bb''])
   = [Stored True, Taken (Some (example_cmd\<lparr>mc_queued_at := 10\<rparr>)), Taken None]"
proof -
  let ?ops = "[MailPush 10 ''aa'' example_cmd, MailPop 300009 ''aa'', MailPop 20 ''bb'']"
  have "map_prod id pool_abs (run_steps pool_step (pool_new example_mem) ?ops)
      = run_steps mb_step Map.empty ?ops"
    by (rule pool_refines_map [OF example_mem_ok]) (simp add: fits_def)
  then have "fst (run_steps pool_step (pool_new example_mem) ?ops)
      = fst (run_steps mb_step Map.empty ?ops)"
    by (metis fst_map_prod id_apply)
  then show ?thesis
    by (simp add: mb_insert_def mb_pop_def cmd_fresh_def config_defs)
qed

text \<open>A command leaves the pool as the oldest one of its node that is younger than five minutes;
  the ones dropped before it have all expired, the younger ones stay in order, and other nodes'
  commands are not touched.  If \<open>pop\<close> returns nothing, every command of the node had expired and
  the slot is released.\<close>

theorem pool_pop_oldest_fresh:
  assumes "pool_inv p" and "fits 18 node" and "pool_pop now p node = (r, p')"
  shows "(case r of
            Some c \<Rightarrow> cmd_fresh now c \<and>
              (\<exists>old rest. pool_abs p node = Some (old @ c # rest)
                 \<and> list_all (\<lambda>d. \<not> cmd_fresh now d) old \<and> pool_abs p' = (pool_abs p)(node \<mapsto> rest))
          | None \<Rightarrow> list_all (\<lambda>d. \<not> cmd_fresh now d) (mb_pending (pool_abs p) node)
              \<and> pool_abs p' = (pool_abs p)(node := None))
         \<and> pool_inv p'"
proof (cases r)
  case None
  with assms pool.pop_NoneD [OF assms(1,2)] show ?thesis by (simp add: list_all_iff)
next
  case (Some c)
  with assms pool.pop_SomeD [OF assms(1,2)] show ?thesis by (auto simp: list_all_iff)
qed

definition example_pool :: PendingPool where
  "example_pool = snd (run_steps pool_step (pool_new example_mem)
     [MailPush 10 ''aa'' example_cmd, MailPush 200000 ''aa'' (example_cmd\<lparr>mc_cmd_id := 8\<rparr>)])"

lemma example_pool_inv: "pool_inv example_pool"
  using pool_run_refines [OF pool_inv_new [OF example_mem_ok],
      of "[MailPush 10 ''aa'' example_cmd, MailPush 200000 ''aa'' (example_cmd\<lparr>mc_cmd_id := 8\<rparr>)]"]
  by (simp add: example_pool_def fits_def del: run_steps.simps)

lemma example_pool_abs: "pool_abs example_pool =
  [''aa'' \<mapsto> [example_cmd\<lparr>mc_queued_at := 10\<rparr>, example_cmd\<lparr>mc_cmd_id := 8, mc_queued_at := 200000\<rparr>]]"
  using pool_run_refines [OF pool_inv_new [OF example_mem_ok],
      of "[MailPush 10 ''aa'' example_cmd, MailPush 200000 ''aa'' (example_cmd\<lparr>mc_cmd_id := 8\<rparr>)]"]
  unfolding example_pool_def pool_abs_new
  by (cases "run_steps pool_step (pool_new example_mem)
      [MailPush 10 ''aa'' example_cmd, MailPush 200000 ''aa'' (example_cmd\<lparr>mc_cmd_id := 8\<rparr>)]")
    (simp add: fits_def mb_insert_def del: pool_step.simps)

theorem pool_pop_oldest_fresh_witness:
  "fst (pool_pop 400000 example_pool ''aa'')
     = Some (example_cmd\<lparr>mc_cmd_id := 8, mc_queued_at := 200000\<rparr>)"
proof -
  have node: "fits 18 ''aa''" by (simp add: fits_def)
  obtain r p' where pop: "pool_pop 400000 example_pool ''aa'' = (r, p')" by fastforce
  show ?thesis
    using pool_pop_oldest_fresh [OF example_pool_inv node pop] pop
    by (cases r)
      (auto simp: example_pool_abs mb_pending_def cmd_fresh_def config_defs Cons_eq_append_conv)
qed

text \<open>With stamps taken from a millisecond clock that wraps at \<open>2 ^ 32\<close>, a command counts as
  fresh exactly while its true age is below 300000 ms, also across the wrap, as long as the true
  age is below \<open>2 ^ 32\<close> ms (49 days).\<close>

theorem ttl_window:
  assumes "t0 \<le> t1" and "t1 - t0 < 2 ^ 32"
  shows "cmd_fresh (word_of_nat t1) (c\<lparr>mc_queued_at := word_of_nat t0\<rparr>) \<longleftrightarrow> t1 - t0 < 300000"
proof -
  have "(word_of_nat t1 :: u32) - word_of_nat t0 = word_of_nat (t1 - t0)"
    using assms(1) by (simp add: of_nat_diff)
  moreover have "unat (word_of_nat (t1 - t0) :: u32) = t1 - t0"
    using assms(2) by (simp add: unsigned_of_nat take_bit_nat_eq_self)
  ultimately show ?thesis
    by (simp add: cmd_fresh_def config_defs word_less_nat_alt)
qed

theorem ttl_window_witness:
  "cmd_fresh (word_of_nat 4295000000) (example_cmd\<lparr>mc_queued_at := word_of_nat 4294960000\<rparr>)
   \<and> \<not> cmd_fresh (word_of_nat 4295260000) (example_cmd\<lparr>mc_queued_at := word_of_nat 4294960000\<rparr>)"
  using ttl_window [of 4294960000 4295000000 example_cmd]
    ttl_window [of 4294960000 4295260000 example_cmd] by simp

text \<open>The status counters tell the truth: \<open>activeSlots\<close> is the number of nodes that own a slot,
  \<open>totalPending\<close> the number of commands held for them; they never exceed 5 and 20.\<close>

theorem pool_counters:
  assumes "pool_inv p"
  shows "pool_activeSlots p = card (dom (pool_abs p))
    \<and> pool_totalPending p = (\<Sum>node \<in> dom (pool_abs p). int (length (mb_pending (pool_abs p) node)))
    \<and> pool_activeSlots p \<le> 5 \<and> pool_totalPending p \<le> 20"
proof -
  have slots: "pool_activeSlots p \<le> 5"
    using assms length_filter_le [of sl_used "pp_slots p"]
    by (simp add: pool_activeSlots_def pool_inv_def config_defs)
  have "(\<Sum>node \<in> dom (pool_abs p). int (length (mb_pending (pool_abs p) node)))
      \<le> int (card (dom (pool_abs p))) * 4"
    using pool_abs_cap(1) [OF assms]
    by (intro sum_bounded_above) (auto simp: mb_pending_def config_defs)
  with slots show ?thesis
    using pool_activeSlots_abs [OF assms] pool_totalPending_abs [OF assms] by simp
qed

theorem pool_counters_witness: "pool_activeSlots example_pool = 1 \<and> pool_totalPending example_pool = 2"
  using pool_counters [OF example_pool_inv] by (simp add: example_pool_abs mb_pending_def)

end
