(* ===== verification/Mqtt_Client.thy ===== *)
theory Mqtt_Client
  imports Hub_Types
begin

text \<open>
  The hub's MQTT client as the other files see it: \<^verbatim>\<open>util/hub_id.cpp\<close> and the state and API of
  \<^verbatim>\<open>net/mqtt_handler.cpp\<close> (the handling of received data is in \<open>Mqtt_Handler\<close>).  The calls to
  ESP-IDF's client are logged in \<open>mq_log\<close>; the result of a publish is the answer of the parameter
  \<open>msg_id\<close> at that point of the log.
\<close>

section \<open>The hub's identity\<close>

fun hubIdInit_loop :: "string \<Rightarrow> string \<Rightarrow> string" where
  "hubIdInit_loop [] hubId = hubId"
| "hubIdInit_loop (c # mac) hubId =
     (if length hubId < 12
      then hubIdInit_loop mac (if c \<noteq> CHR '':'' then hubId @ [tolower c] else hubId)
      else hubId)"

definition hubIdInit :: "string \<Rightarrow> string" where
  "hubIdInit mac = hubIdInit_loop mac []"

definition getHubId :: "string \<Rightarrow> string" where
  "getHubId hubId = cstr hubId"

section \<open>State and operations\<close>

record mqtt_config =
  cfg_uri :: string
  cfg_client_id :: string
  cfg_buffer_size :: nat
  cfg_cert_pem :: string

datatype mqtt_call = ClientInit mqtt_config | RegisterEvents | ClientStart | ClientStop
  | Subscribe string | Publish string string

record mqtt =
  mq_hubId :: string
  mq_topicReport :: string
  mq_topicCommands :: string
  mq_connected :: bool
  mq_wasConnected :: bool
  mq_log :: "mqtt_call list"

definition mqtt_boot :: mqtt where
  "mqtt_boot = \<lparr>mq_hubId = [], mq_topicReport = [], mq_topicCommands = [], mq_connected = False,
     mq_wasConnected = False, mq_log = []\<rparr>"

definition mq_do :: "mqtt_call \<Rightarrow> mqtt \<Rightarrow> mqtt" where
  "mq_do c m = m\<lparr>mq_log := mq_log m @ [c]\<rparr>"

definition mqttInit :: "string \<Rightarrow> string \<Rightarrow> bool \<Rightarrow> string \<Rightarrow> mqtt \<Rightarrow> mqtt" where
  "mqttInit root_ca mac wifi broker_uri m =
     (let hubId = hubIdInit mac;
          id = getHubId hubId;
          m1 = m\<lparr>mq_hubId := hubId,
                 mq_topicReport := snprintf 48 (''tempio/'' @ id @ ''/report''),
                 mq_topicCommands := snprintf 48 (''tempio/'' @ id @ ''/commands'')\<rparr>;
          cfg = \<lparr>cfg_uri = broker_uri, cfg_client_id = snprintf 32 (''tempio-hub-'' @ id),
                 cfg_buffer_size = 1024, cfg_cert_pem = root_ca\<rparr>;
          m2 = mq_do RegisterEvents (mq_do (ClientInit cfg) m1)
      in if wifi then mq_do ClientStart m2 else m2)"

definition mqttLoop :: "bool \<Rightarrow> mqtt \<Rightarrow> mqtt" where
  "mqttLoop wifiNow m =
     (let m1 = (if wifiNow \<and> \<not> mq_wasConnected m then mq_do ClientStart m
                else if \<not> wifiNow \<and> mq_wasConnected m
                then (mq_do ClientStop m)\<lparr>mq_connected := False\<rparr> else m)
      in m1\<lparr>mq_wasConnected := wifiNow\<rparr>)"

definition mqttIsConnected :: "mqtt \<Rightarrow> bool" where
  "mqttIsConnected m = mq_connected m"

definition mqttPublishReport :: "(nat \<Rightarrow> int) \<Rightarrow> string \<Rightarrow> mqtt \<Rightarrow> bool \<times> mqtt" where
  "mqttPublishReport msg_id json m =
     (if \<not> mq_connected m then (False, m)
      else (msg_id (length (mq_log m)) \<ge> 0, mq_do (Publish (mq_topicReport m) json) m))"

definition onConnected :: "mqtt \<Rightarrow> mqtt" where
  "onConnected m = (let m1 = m\<lparr>mq_connected := True\<rparr> in mq_do (Subscribe (mq_topicCommands m1)) m1)"

definition onDisconnected :: "mqtt \<Rightarrow> mqtt" where
  "onDisconnected m = m\<lparr>mq_connected := False\<rparr>"

section \<open>Topics\<close>

lemma hubIdInit_loop_eq:
  "hubIdInit_loop mac hubId =
   hubId @ take (12 - length hubId) (map tolower (filter (\<lambda>c. c \<noteq> CHR '':'') mac))"
  by (induction mac arbitrary: hubId) (auto simp: take_Cons' Suc_diff_Suc)

lemma hubIdInit_eq:
  "hubIdInit mac = take 12 (map tolower (filter (\<lambda>c. c \<noteq> CHR '':'') mac))"
  by (simp add: hubIdInit_def hubIdInit_loop_eq)

lemma length_takeWhile_cstr: "length (cstr s) \<le> length s"
  by (simp add: cstr_def length_takeWhile_le)

lemma getHubId_length: "length (getHubId (hubIdInit mac)) \<le> 12"
  using length_takeWhile_cstr [of "hubIdInit mac"] by (simp add: getHubId_def hubIdInit_eq)

text \<open>\<open>String(WiFi.macAddress())\<close>: six two-digit groups in upper-case hexadecimal.\<close>

definition mac_digits :: string where
  "mac_digits = ''0123456789ABCDEF''"

definition mac_digit :: "char \<Rightarrow> bool" where
  "mac_digit c \<longleftrightarrow> c \<in> set mac_digits"

fun mac_string :: "string \<Rightarrow> string" where
  "mac_string (a # b # c # rest) = a # b # CHR '':'' # mac_string (c # rest)"
| "mac_string s = s"

lemma tolower_mac_digits: "map tolower mac_digits = ''0123456789abcdef''"
  by code_simp

lemma tolower_mac_digit:
  assumes "mac_digit c"
  shows "tolower c \<noteq> CHR 0x00" and "c \<noteq> CHR '':''"
proof -
  have "tolower c \<in> set ''0123456789abcdef''"
    using assms unfolding mac_digit_def tolower_mac_digits [symmetric] set_map by (rule imageI)
  then show "tolower c \<noteq> CHR 0x00" by auto
  show "c \<noteq> CHR '':''"
    using assms by (auto simp: mac_digit_def mac_digits_def)
qed

lemma tolower_mac_inj: "inj_on tolower {c. mac_digit c}"
proof -
  have "distinct (map tolower mac_digits)"
    unfolding tolower_mac_digits by simp
  then show ?thesis
    by (simp add: distinct_map mac_digit_def)
qed

lemma mac_string_filter:
  "list_all mac_digit s \<Longrightarrow> filter (\<lambda>c. c \<noteq> CHR '':'') (mac_string s) = s"
  by (induction s rule: mac_string.induct) (auto dest: tolower_mac_digit(2))

lemma hubId_mac:
  assumes "list_all mac_digit s" and "length s = 12"
  shows "getHubId (hubIdInit (mac_string s)) = map tolower s"
proof -
  have "CHR 0x00 \<notin> set (map tolower s)"
    using assms(1) tolower_mac_digit(1) by (fastforce simp: list_all_iff)
  then show ?thesis
    using assms by (simp add: getHubId_def hubIdInit_eq mac_string_filter del: set_map)
qed

section \<open>Starting, stopping, publishing\<close>

definition is_control :: "mqtt_call \<Rightarrow> bool" where
  "is_control c \<longleftrightarrow> c = ClientStart \<or> c = ClientStop"

text \<open>The Start and Stop calls that a sequence of WiFi states asks for: one per change.\<close>

fun wifi_edges :: "bool \<Rightarrow> bool list \<Rightarrow> mqtt_call list" where
  "wifi_edges was [] = []"
| "wifi_edges was (now # ws) =
     (if now = was then [] else [if now then ClientStart else ClientStop]) @ wifi_edges now ws"

datatype mqtt_action = MqTick bool | MqConnected | MqDisconnected | MqPublish string

fun mqtt_do_step :: "(nat \<Rightarrow> int) \<Rightarrow> mqtt_action \<Rightarrow> mqtt \<Rightarrow> mqtt" where
  "mqtt_do_step msg_id (MqTick wifi) m = mqttLoop wifi m"
| "mqtt_do_step msg_id MqConnected m = onConnected m"
| "mqtt_do_step msg_id MqDisconnected m = onDisconnected m"
| "mqtt_do_step msg_id (MqPublish json) m = snd (mqttPublishReport msg_id json m)"

definition mqtt_run :: "(nat \<Rightarrow> int) \<Rightarrow> mqtt \<Rightarrow> mqtt_action list \<Rightarrow> mqtt" where
  "mqtt_run msg_id m ss = foldl (\<lambda>m s. mqtt_do_step msg_id s m) m ss"

definition ticks :: "mqtt_action list \<Rightarrow> bool list" where
  "ticks ss = concat (map (\<lambda>s. case s of MqTick w \<Rightarrow> [w] | _ \<Rightarrow> []) ss)"

lemmas mqtt_op_defs = mqttLoop_def onConnected_def onDisconnected_def mqttPublishReport_def mq_do_def
  Let_def

lemma mqtt_run_control:
  "filter is_control (mq_log (mqtt_run msg_id m ss)) =
   filter is_control (mq_log m) @ wifi_edges (mq_wasConnected m) (ticks ss)"
proof (induction ss arbitrary: m)
  case Nil
  then show ?case by (simp add: mqtt_run_def ticks_def)
next
  case (Cons s ss)
  then show ?case
    by (cases s) (auto simp: mqtt_run_def ticks_def mqtt_op_defs is_control_def)
qed

lemma mqtt_run_log: "\<exists>w. mq_log (mqtt_run msg_id m ss) = mq_log m @ w"
proof (induction ss arbitrary: m)
  case (Cons s ss)
  have "\<exists>w. mq_log (mqtt_do_step msg_id s m) = mq_log m @ w" by (cases s) (simp_all add: mqtt_op_defs)
  with Cons.IH [of "mqtt_do_step msg_id s m"] show ?case by (auto simp: mqtt_run_def)
qed (simp add: mqtt_run_def)

text \<open>Publishes go to the report topic and subscriptions to the command topic.\<close>

fun topic_call :: "string \<Rightarrow> string \<Rightarrow> mqtt_call \<Rightarrow> bool" where
  "topic_call r c (Publish t json) = (t = r)"
| "topic_call r c (Subscribe t) = (t = c)"
| "topic_call r c _ = True"

definition topic_ok :: "mqtt \<Rightarrow> bool" where
  "topic_ok m \<longleftrightarrow> list_all (topic_call (mq_topicReport m) (mq_topicCommands m)) (mq_log m)"

lemma mqtt_do_step_topic:
  "topic_ok m \<Longrightarrow> topic_ok (mqtt_do_step msg_id s m)"
  by (cases s) (auto simp: topic_ok_def mqtt_op_defs)

lemma mqtt_do_step_topics [simp]:
  "mq_topicReport (mqtt_do_step msg_id s m) = mq_topicReport m"
  "mq_topicCommands (mqtt_do_step msg_id s m) = mq_topicCommands m"
  by (cases s; simp add: mqtt_op_defs)+

lemma mqtt_run_topic:
  "topic_ok m \<Longrightarrow> topic_ok (mqtt_run msg_id m ss)
     \<and> mq_topicReport (mqtt_run msg_id m ss) = mq_topicReport m
     \<and> mq_topicCommands (mqtt_run msg_id m ss) = mq_topicCommands m"
  by (induction ss arbitrary: m) (simp_all add: mqtt_run_def mqtt_do_step_topic)

section \<open>Properties\<close>

text \<open>
  No topic or client id is ever cut off by its buffer, whatever \<open>WiFi.macAddress()\<close> returns:
  the hub publishes under \<open>tempio/<id>/report\<close> and listens on \<open>tempio/<id>/commands\<close>, where \<open><id>\<close> has
  at most 12 characters.
\<close>

theorem topics_not_truncated:
  "let m = mqttInit root_ca mac wifi uri mqtt_boot; id = getHubId (mq_hubId m)
   in mq_topicReport m = ''tempio/'' @ id @ ''/report''
    \<and> mq_topicCommands m = ''tempio/'' @ id @ ''/commands''
    \<and> ClientInit \<lparr>cfg_uri = uri, cfg_client_id = ''tempio-hub-'' @ id, cfg_buffer_size = 1024,
        cfg_cert_pem = root_ca\<rparr> \<in> set (mq_log m)
    \<and> length id \<le> 12"
  using getHubId_length [of mac] by (simp add: mqttInit_def mq_do_def Let_def)

text \<open>
  C40: two hubs whose MAC addresses differ never share a topic for commands, and two that agree do: the id is the MAC
  without colons in lower case, and it determines the MAC.
\<close>

theorem topics_separate_hubs:
  assumes "list_all mac_digit s" "length s = 12" and "list_all mac_digit t" "length t = 12"
  shows "mq_topicCommands (mqttInit ca (mac_string s) w uri m)
         = mq_topicCommands (mqttInit ca' (mac_string t) w' uri' m') \<longleftrightarrow> s = t"
proof
  assume "mq_topicCommands (mqttInit ca (mac_string s) w uri m)
      = mq_topicCommands (mqttInit ca' (mac_string t) w' uri' m')"
  then have "map tolower s = map tolower t"
    using assms by (simp add: mqttInit_def mq_do_def Let_def hubId_mac split: if_splits)
  moreover have "inj_on tolower (set s \<union> set t)"
    using assms by (intro inj_on_subset [OF tolower_mac_inj]) (auto simp: list_all_iff)
  ultimately show "s = t" by (simp add: inj_on_map_eq_map)
next
  assume "s = t"
  then show "mq_topicCommands (mqttInit ca (mac_string s) w uri m)
      = mq_topicCommands (mqttInit ca' (mac_string t) w' uri' m')"
    by (simp add: mqttInit_def mq_do_def Let_def)
qed

theorem topics_separate_hubs_witness:
  "mq_topicCommands (mqttInit [] ''AA:BB:CC:00:11:22'' True [] mqtt_boot)
   \<noteq> mq_topicCommands (mqttInit [] ''AA:BB:CC:00:11:23'' True [] mqtt_boot)"
proof -
  have macs: "list_all mac_digit ''AABBCC001122''" "list_all mac_digit ''AABBCC001123''"
    by code_simp+
  have strings: "mac_string ''AABBCC001122'' = ''AA:BB:CC:00:11:22''"
      "mac_string ''AABBCC001123'' = ''AA:BB:CC:00:11:23''"
    by simp_all
  from topics_separate_hubs [OF macs(1) _ macs(2), of "[]" True "[]" mqtt_boot "[]" True "[]" mqtt_boot]
  show ?thesis unfolding strings by simp
qed

text \<open>
  C36: the main loop starts the client when it sees WiFi come up and stops it when it sees WiFi go down, once for
  each change between two passes, in this order, whatever MQTT events and publishes come in between; it begins with
  the assumption that WiFi is down.  So, when WiFi was up in \<open>mqttInit\<close> already, which starts the client itself,
  the first pass, if WiFi is still up then, starts it once more.  Every publish and subscribe uses the topics set by \<open>mqttInit\<close>.
\<close>

theorem client_follows_wifi:
  "let m0 = mqttInit root_ca mac wifi uri mqtt_boot; m = mqtt_run msg_id m0 ss in
    filter is_control (mq_log m0) = (if wifi then [ClientStart] else [])
    \<and> (\<exists>w. mq_log m = mq_log m0 @ w \<and> filter is_control w = wifi_edges False (ticks ss))
    \<and> topic_ok m \<and> mq_topicReport m = mq_topicReport m0 \<and> mq_topicCommands m = mq_topicCommands m0"
proof -
  let ?m0 = "mqttInit root_ca mac wifi uri mqtt_boot"
  have "topic_ok ?m0" and "mq_wasConnected ?m0 = False"
    and "filter is_control (mq_log ?m0) = (if wifi then [ClientStart] else [])"
    by (auto simp: mqttInit_def mqtt_boot_def mq_do_def topic_ok_def is_control_def Let_def)
  moreover obtain w where "mq_log (mqtt_run msg_id ?m0 ss) = mq_log ?m0 @ w" using mqtt_run_log by blast
  ultimately show ?thesis
    using mqtt_run_control [of msg_id ?m0 ss] mqtt_run_topic [of ?m0 msg_id ss] by (simp add: Let_def)
qed

end
