(* ===== verification/Cmd_Dispatcher.thy ===== *)
theory Cmd_Dispatcher
  imports Cmd_Send Pending_Pool Mqtt_Client
begin

text \<open>
  The command layer of the hub, \<^verbatim>\<open>cmd/cmd_dispatcher.cpp\<close> and \<^verbatim>\<open>cmd/hub_command.cpp\<close>: a command from
  the server is sent at once or put into the pool of pending commands, and the pool is flushed to
  the nodes that are connected.  The state is the one of the whole hub.  One task runs at a time
  here, except for the BLE callbacks that \<open>ble_env\<close> schedules into every call to NimBLE; the
  interleaving of the MQTT task with the main task is the subject of \<open>Pool_Race\<close> and \<open>Hub_Tasks\<close>.
\<close>

section \<open>State\<close>

record 'adr hub =
  hb_ble :: "'adr ble"
  hb_pool :: PendingPool
  hb_mqtt :: mqtt
  hb_reads :: nat

text \<open>
  The environment: NimBLE, ArduinoJson, and the values of \<open>millis()\<close>, \<open>ESP.getFreeHeap()\<close> and
  \<open>WiFi.RSSI()\<close> at each reading (\<open>hb_reads\<close> counts the readings), the results of publishes, and
  the text of a float.
\<close>

record ('adr, 'j) hub_env =
  he_ble :: "'adr ble_env"
  he_json :: "'j json_api"
  he_millis :: "nat \<Rightarrow> u32"
  he_heap :: "nat \<Rightarrow> u32"
  he_rssi :: "nat \<Rightarrow> u16"
  he_msg_id :: "nat \<Rightarrow> int"

definition read_clock :: "'adr hub \<Rightarrow> 'adr hub" where
  "read_clock h = h\<lparr>hb_reads := Suc (hb_reads h)\<rparr>"

definition clock :: "('adr, 'j) hub_env \<Rightarrow> 'adr hub \<Rightarrow> u32" where
  "clock env h = he_millis env (hb_reads h)"

section \<open>Commands to the hub itself\<close>

definition pendingActiveSlots :: "'adr hub \<Rightarrow> nat" where
  "pendingActiveSlots h = pool_activeSlots (hb_pool h)"

definition pendingTotalCommands :: "'adr hub \<Rightarrow> int" where
  "pendingTotalCommands h = pool_totalPending (hb_pool h)"

definition hubStatus_doc :: "('adr, 'j) hub_env \<Rightarrow> 'adr hub \<Rightarrow> (string \<times> jval) list" where
  "hubStatus_doc env h =
     [(''type'', JStr ''hub_status''),
      (''ble_connected'', JNat (bleConnectedCount (hb_ble h))),
      (''pending_slots'', JNat (pendingActiveSlots h)),
      (''pending_commands'', JInt (pendingTotalCommands h)),
      (''free_heap'', JNat (unat (he_heap env (hb_reads h)))),
      (''uptime_ms'', JNat (unat (clock env h))),
      (''mqtt_connected'', JBool (mqttIsConnected (hb_mqtt h)))]"

definition publish :: "('adr, 'j) hub_env \<Rightarrow> string \<Rightarrow> 'adr hub \<Rightarrow> 'adr hub" where
  "publish env json h = h\<lparr>hb_mqtt := snd (mqttPublishReport (he_msg_id env) json (hb_mqtt h))\<rparr>"

definition handleHubStatus :: "('adr, 'j) hub_env \<Rightarrow> 'adr hub \<Rightarrow> 'adr hub" where
  "handleHubStatus env h =
     publish env (js_text (he_json env) (hubStatus_doc env h) STATUS_JSON_BUF_SIZE) (read_clock h)"

definition handleHubCommand :: "('adr, 'j) hub_env \<Rightarrow> MqttCommand \<Rightarrow> 'adr hub \<Rightarrow> 'adr hub" where
  "handleHubCommand env cmd h =
     (if strcmp_eq (mc_type cmd) ''HUB_STATUS'' then handleHubStatus env h else h)"

section \<open>Dispatch\<close>

definition send_now ::
  "('adr, 'j) hub_env \<Rightarrow> MqttCommand \<Rightarrow> 'adr hub \<Rightarrow> bool \<times> 'adr hub" where
  "send_now env cmd h =
     (let (ok, b) = trySend (he_ble env) (he_json env) cmd (hb_ble h) in (ok, h\<lparr>hb_ble := b\<rparr>))"

text \<open>The result of \<open>pool.push\<close> is not looked at: a command that does not fit is dropped.\<close>

definition dispatchCommand :: "('adr, 'j) hub_env \<Rightarrow> MqttCommand \<Rightarrow> 'adr hub \<Rightarrow> 'adr hub" where
  "dispatchCommand env cmd h =
     (if cstr (mc_target cmd) = [] then handleHubCommand env cmd h
      else (case send_now env cmd h of
              (True, h1) \<Rightarrow> h1
            | (False, h1) \<Rightarrow>
                (read_clock h1)\<lparr>hb_pool :=
                   snd (pool_push (clock env h1) (hb_pool h1) (mc_target cmd) cmd)\<rparr>))"

text \<open>
  One element of \<open>commands\<close>.  \<open>queued_at\<close> is not set here: every way into the pool stamps it, and
  nothing reads it before; the model takes 0.
\<close>

definition parseCommand :: "'j json_api \<Rightarrow> 'j \<Rightarrow> MqttCommand" where
  "parseCommand js obj =
     \<lparr>mc_target = strlcpy 18 (js_str js obj ''target'' []),
      mc_type = strlcpy 16 (js_str js obj ''type'' []),
      mc_payload = (if js_isObject js obj ''payload'' then js_child js obj ''payload'' 256
                    else strlcpy 256 (js_str js obj ''payload'' [])),
      mc_cmd_id = word_of_int (js_int js obj ''cmd_id'' 0),
      mc_queued_at = 0\<rparr>"

definition parseAndDispatchCommands ::
  "('adr, 'j) hub_env \<Rightarrow> string \<Rightarrow> nat \<Rightarrow> 'adr hub \<Rightarrow> 'adr hub" where
  "parseAndDispatchCommands env data len h =
     (let (err, doc) = js_parse (he_json env) (take len data)
      in if err then h
         else (case js_array (he_json env) doc ''commands'' of
                 None \<Rightarrow> h
               | Some commands \<Rightarrow>
                   foldl (\<lambda>h obj. dispatchCommand env (parseCommand (he_json env) obj) h) h commands))"

section \<open>Flushing\<close>

text \<open>The work in the pool, which every command taken out makes smaller.\<close>

definition pool_work :: "PendingPool \<Rightarrow> nat" where
  "pool_work p = (\<Sum>s \<leftarrow> pp_slots p. nat (tsq_count (sl_queue s)))"

lemma pool_pop_loop_less:
  "pool_pop_loop now q = (Some c, q') \<Longrightarrow> nat (tsq_count q') < nat (tsq_count q)"
proof (induction now q rule: pool_pop_loop.induct)
  case (1 now q)
  have less: "nat (tsq_count q1) < nat (tsq_count q)"
    if "tsq_popUnsafe CMD_PENDING_PER_NODE q = (Some d, q1)" for d q1
    using that by (auto simp: tsq_popUnsafe_def split: if_splits)
  show ?case
    using "1.prems" "1.IH" less
    by (subst (asm) pool_pop_loop.simps)
      (fastforce split: prod.splits option.splits if_splits)
qed

lemma pool_work_set:
  assumes "i < length (pp_slots p)"
    and "nat (tsq_count (sl_queue s)) < nat (tsq_count (sl_queue (pp_slots p ! i)))"
  shows "pool_work (pool_setSlot p i s) < pool_work p"
proof -
  have "(\<Sum>s \<leftarrow> (pp_slots p)[i := s]. nat (tsq_count (sl_queue s))) < (\<Sum>s \<leftarrow> pp_slots p. nat (tsq_count (sl_queue s)))"
    using assms
    by (subst (2) id_take_nth_drop [OF assms(1)]) (simp add: upd_conv_take_nth_drop)
  then show ?thesis by (simp add: pool_work_def pool_setSlot_def)
qed

lemma pool_pop_work:
  assumes "pool_pop now p node = (Some c, p')"
  shows "pool_work p' < pool_work p"
  using assms pool_pop_loop_less
  by (auto simp: pool_pop_def pool_findSlot_def Let_def dest: first_index_SomeD(1)
      intro!: pool_work_set split: option.splits prod.splits)

text \<open>The \<open>while (pool.pop(nodeAddr, &cmd))\<close> loop of \<open>flushNodePending\<close>.\<close>

function flushNode_loop :: "('adr, 'j) hub_env \<Rightarrow> string \<Rightarrow> 'adr hub \<Rightarrow> 'adr hub" where
  "flushNode_loop env node h =
     (let (r, p) = pool_pop (clock env h) (hb_pool h) node;
          h1 = (read_clock h)\<lparr>hb_pool := p\<rparr>
      in case r of
           None \<Rightarrow> h1
         | Some cmd \<Rightarrow>
             (case send_now env cmd h1 of
                (True, h2) \<Rightarrow> flushNode_loop env node h2
              | (False, h2) \<Rightarrow>
                  (read_clock h2)\<lparr>hb_pool := snd (pool_pushFront (clock env h2) (hb_pool h2) node cmd)\<rparr>))"
  by pat_completeness auto
termination
  by (relation "measure (\<lambda>(env, node, h). pool_work (hb_pool h))")
    (auto simp: send_now_def read_clock_def dest!: pool_pop_work [OF sym] split: prod.splits)

declare flushNode_loop.simps [simp del]

definition flushNodePending :: "('adr, 'j) hub_env \<Rightarrow> string \<Rightarrow> 'adr hub \<Rightarrow> 'adr hub" where
  "flushNodePending env nodeAddr h =
     (if \<not> bleIsNodeConnected (he_ble env) (hb_ble h) nodeAddr then h
      else flushNode_loop env nodeAddr h)"

lemma flushNode_loop_slots:
  "length (pp_slots (hb_pool (flushNode_loop env node h))) = length (pp_slots (hb_pool h))"
proof (induction env node h rule: flushNode_loop.induct)
  case (1 env node h)
  have pop: "length (pp_slots (snd (pool_pop t p n))) = length (pp_slots p)" for t p n
    by (simp add: pool_pop_def pool_setSlot_def Let_def split: prod.splits option.splits)
  have front: "length (pp_slots (snd (pool_pushFront t p n c))) = length (pp_slots p)" for t p n c
    by (simp add: pool_pushFront_def pool_findOrCreate_def pool_setSlot_def Let_def
        split: prod.splits option.splits)
  have sn: "hb_pool (snd (send_now env c h)) = hb_pool h" for c h
    by (simp add: send_now_def split: prod.splits)
  obtain r p where pop_eq: "pool_pop (clock env h) (hb_pool h) node = (r, p)" by fastforce
  then have len: "length (pp_slots p) = length (pp_slots (hb_pool h))"
    using pop [of "clock env h" "hb_pool h" node] by simp
  show ?case
  proof (cases r)
    case None
    with pop_eq len show ?thesis by (simp add: flushNode_loop.simps [of env node h])
  next
    case (Some cmd)
    obtain ok h2 where send: "send_now env cmd ((read_clock h)\<lparr>hb_pool := p\<rparr>) = (ok, h2)"
      by fastforce
    then have h2: "hb_pool h2 = p"
      using sn [of cmd "(read_clock h)\<lparr>hb_pool := p\<rparr>"] by simp
    show ?thesis
    proof (cases ok)
      case True
      with "1.IH" [OF refl pop_eq [symmetric] refl Some send [symmetric]] pop_eq Some send h2 len
      show ?thesis
        by (subst flushNode_loop.simps) simp
    next
      case False
      with pop_eq Some send h2 len show ?thesis
        by (subst flushNode_loop.simps) (simp add: front)
    qed
  qed
qed

text \<open>\<open>flushAllPending\<close>: \<open>idx\<close> walks over the slots while each node's commands are sent.\<close>

lemma pool_nextNode_from:
  "pool_nextNode p from len = Some (next, node) \<Longrightarrow> from < next \<and> from < length (pp_slots p)"
  using first_index_SomeD(1) [of _ "drop from (pp_slots p)"]
  by (fastforce simp: pool_nextNode_def less_diff_conv split: option.splits)

lemma flushNodePending_slots:
  "length (pp_slots (hb_pool (flushNodePending env node h))) = length (pp_slots (hb_pool h))"
  by (simp add: flushNodePending_def flushNode_loop_slots)

function flushAll_loop :: "('adr, 'j) hub_env \<Rightarrow> nat \<Rightarrow> 'adr hub \<Rightarrow> 'adr hub" where
  "flushAll_loop env idx h =
     (case pool_nextNode (hb_pool h) idx 18 of
        None \<Rightarrow> h
      | Some (idx', nodeId) \<Rightarrow> flushAll_loop env idx' (flushNodePending env nodeId h))"
  by pat_completeness auto
termination
  by (relation "measure (\<lambda>(env, idx, h). length (pp_slots (hb_pool h)) - idx)")
    (auto simp: flushNodePending_slots dest: pool_nextNode_from)

declare flushAll_loop.simps [simp del]

definition flushAllPending :: "('adr, 'j) hub_env \<Rightarrow> 'adr hub \<Rightarrow> 'adr hub" where
  "flushAllPending env h = flushAll_loop env 0 h"

section \<open>A flush on the list of a node's commands\<close>

text \<open>
  The specification: take the oldest fresh command, try to send it, go on while that works; a
  command that fails goes back to the front with a new stamp.  \<open>n\<close> counts the clock readings.
\<close>

function flush_list ::
  "('adr, 'j) hub_env \<Rightarrow> nat \<Rightarrow> 'adr ble \<Rightarrow> MqttCommand list
   \<Rightarrow> 'adr ble \<times> nat \<times> MqttCommand list option" where
  "flush_list env n b cs =
     (case dropWhile (\<lambda>c. \<not> cmd_fresh (he_millis env n) c) cs of
        [] \<Rightarrow> (b, Suc n, None)
      | c # rest \<Rightarrow>
          (case trySend (he_ble env) (he_json env) c b of
             (True, b') \<Rightarrow> flush_list env (Suc n) b' rest
           | (False, b') \<Rightarrow>
               (b', Suc (Suc n), Some (c\<lparr>mc_queued_at := he_millis env (Suc n)\<rparr> # rest))))"
  by pat_completeness auto
termination
proof (relation "measure (\<lambda>(env, n, b, cs). length cs)")
  fix env :: "('adr, 'j) hub_env" and n b and cs rest :: "MqttCommand list" and c ok b'
  assume "dropWhile (\<lambda>c. \<not> cmd_fresh (he_millis env n) c) cs = c # rest"
  then show "((env, Suc n, b', rest), (env, n, b, cs)) \<in> measure (\<lambda>(env, n, b, cs). length cs)"
    using length_dropWhile_le [of "\<lambda>c. \<not> cmd_fresh (he_millis env n) c" cs] by simp
qed simp

declare flush_list.simps [simp del]

lemma flushNode_loop_refines:
  assumes "pool_inv (hb_pool h)" and "fits 18 node"
    and "flush_list env (hb_reads h) (hb_ble h) (mb_pending (pool_abs (hb_pool h)) node) = (b, n, r)"
  shows "hb_ble (flushNode_loop env node h) = b" and "hb_reads (flushNode_loop env node h) = n"
    and "hb_mqtt (flushNode_loop env node h) = hb_mqtt h"
    and "pool_inv (hb_pool (flushNode_loop env node h))"
    and "pool_abs (hb_pool (flushNode_loop env node h)) = (pool_abs (hb_pool h))(node := r)"
proof -
  have "hb_ble (flushNode_loop env node h) = b \<and> hb_reads (flushNode_loop env node h) = n
    \<and> hb_mqtt (flushNode_loop env node h) = hb_mqtt h \<and> pool_inv (hb_pool (flushNode_loop env node h))
    \<and> pool_abs (hb_pool (flushNode_loop env node h)) = (pool_abs (hb_pool h))(node := r)"
    using assms
  proof (induction env node h arbitrary: b n r rule: flushNode_loop.induct)
    case (1 env node h)
    note inv = "1.prems"(1) and node = "1.prems"(2)
    let ?now = "clock env h" and ?cs = "mb_pending (pool_abs (hb_pool h)) node"
    obtain r0 p where pop: "pool_pop ?now (hb_pool h) node = (r0, p)" by fastforce
    let ?h1 = "(read_clock h)\<lparr>hb_pool := p\<rparr>"
    show ?case
    proof (cases r0)
      case None
      note pop' = pool.pop_NoneD [OF inv node pop [unfolded None]]
      have "dropWhile (\<lambda>c. \<not> cmd_fresh ?now c) ?cs = []"
        using pop'(3) by simp
      then have "flush_list env (hb_reads h) (hb_ble h) ?cs = (hb_ble h, Suc (hb_reads h), None)"
        by (subst flush_list.simps) (simp only: clock_def list.case)
      then have "(b, n, r) = (hb_ble h, Suc (hb_reads h), None)"
        using "1.prems"(3) by simp
      with pop None pop' show ?thesis
        by (simp add: flushNode_loop.simps [of env node h] read_clock_def)
    next
      case (Some c)
      note pop' = pool.pop_SomeD [OF inv node pop [unfolded Some]]
      obtain old rest where cs: "?cs = old @ c # rest" and old: "\<forall>d \<in> set old. \<not> cmd_fresh ?now d"
        and p: "pool_abs p = (pool_abs (hb_pool h))(node \<mapsto> rest)"
        using pop'(3) by (auto simp: mb_pending_def)
      have dw: "dropWhile (\<lambda>c. \<not> cmd_fresh ?now c) ?cs = c # rest"
        using old pop'(2) by (simp add: cs dropWhile_append)
      obtain ok b1 where send: "trySend (he_ble env) (he_json env) c (hb_ble h) = (ok, b1)"
        by fastforce
      let ?h2 = "?h1\<lparr>hb_ble := b1\<rparr>"
      have now: "send_now env c ?h1 = (ok, ?h2)"
        using send by (simp add: send_now_def read_clock_def)
      have rest: "mb_pending (pool_abs p) node = rest"
        using p by (simp add: mb_pending_def)
      show ?thesis
      proof (cases ok)
        case True
        have fl: "flush_list env (hb_reads ?h2) (hb_ble ?h2) (mb_pending (pool_abs (hb_pool ?h2)) node)
            = (b, n, r)"
          using "1.prems"(3) dw send True rest
          by (simp add: flush_list.simps [of env _ _ ?cs] clock_def read_clock_def)
        have "pool_inv (hb_pool ?h2)" using pop'(1) by simp
        note ih = "1.IH" [OF refl pop [symmetric] refl Some now [symmetric]
            eq_True [THEN iffD2, OF True] this node fl]
        have "flushNode_loop env node h = flushNode_loop env node ?h2"
          using pop Some now True by (subst flushNode_loop.simps) simp
        with ih p show ?thesis by (simp add: read_clock_def fun_upd_def [symmetric])
      next
        case False
        have "(b, n, r) = (b1, Suc (Suc (hb_reads h)),
            Some (c\<lparr>mc_queued_at := he_millis env (Suc (hb_reads h))\<rparr> # rest))"
          using "1.prems"(3) dw send False
          by (simp add: flush_list.simps [of env _ _ ?cs] clock_def)
        moreover have "flushNode_loop env node h = (read_clock ?h2)\<lparr>hb_pool :=
            snd (pool_pushFront (clock env ?h2) p node c)\<rparr>"
          using pop Some now False by (subst flushNode_loop.simps) simp
        ultimately show ?thesis
          using pool.pop_pushFront(2) [OF inv node pop [unfolded Some], of "clock env ?h2"] rest
            pool.inv_pushFront [OF pop'(1) node, of "clock env ?h2" c]
          by (simp add: read_clock_def clock_def)
      qed
    qed
  qed
  then show "hb_ble (flushNode_loop env node h) = b" and "hb_reads (flushNode_loop env node h) = n"
    and "hb_mqtt (flushNode_loop env node h) = hb_mqtt h"
    and "pool_inv (hb_pool (flushNode_loop env node h))"
    and "pool_abs (hb_pool (flushNode_loop env node h)) = (pool_abs (hb_pool h))(node := r)"
    by blast+
qed

end
