(* ===== verification/Cmd_Flush.thy ===== *)
theory Cmd_Flush
  imports Cmd_Dispatcher
begin

text \<open>
  What the command layer guarantees: invariants of the hub state, the order in which pending
  commands are sent, what becomes of a command that cannot be sent, and which nodes one call of
  \<open>flushAllPending\<close> serves.
\<close>

section \<open>Invariants\<close>

definition hub_inv :: "nat list \<Rightarrow> 'adr hub \<Rightarrow> bool" where
  "hub_inv held h \<longleftrightarrow> ble_inv held (hb_ble h) \<and> pool_inv (hb_pool h)"

text \<open>What all sends and all pool operations keep, a flush keeps.\<close>

lemma flushNode_loop_keeps:
  assumes "\<And>b c. P b \<Longrightarrow> P (snd (trySend (he_ble env) (he_json env) c b))"
    and "\<And>p t c. Q p \<Longrightarrow> Q (snd (pool_pop t p node))"
    and "\<And>p t c. Q p \<Longrightarrow> Q (snd (pool_pushFront t p node c))"
    and "P (hb_ble h)" and "Q (hb_pool h)"
  shows "P (hb_ble (flushNode_loop env node h)) \<and> Q (hb_pool (flushNode_loop env node h))
    \<and> hb_mqtt (flushNode_loop env node h) = hb_mqtt h"
  using assms
proof (induction env node h rule: flushNode_loop.induct)
  case (1 env node h)
  obtain r p where pop: "pool_pop (clock env h) (hb_pool h) node = (r, p)" by fastforce
  then have p: "Q p"
    using "1.prems"(2) [OF "1.prems"(5), of "clock env h"] by simp
  let ?h1 = "(read_clock h)\<lparr>hb_pool := p\<rparr>"
  show ?case
  proof (cases r)
    case None
    with pop p "1.prems" show ?thesis
      by (simp add: flushNode_loop.simps [of env node h] read_clock_def)
  next
    case (Some c)
    obtain ok b where send: "trySend (he_ble env) (he_json env) c (hb_ble h) = (ok, b)"
      by fastforce
    then have b: "P b"
      using "1.prems"(1) [OF "1.prems"(4), of c] by simp
    have now: "send_now env c ?h1 = (ok, ?h1\<lparr>hb_ble := b\<rparr>)"
      using send by (simp add: send_now_def read_clock_def)
    show ?thesis
    proof (cases ok)
      case True
      note ih = "1.IH" [OF refl pop [symmetric] refl Some now [symmetric]
          eq_True [THEN iffD2, OF True] "1.prems"(1-3)]
      have "flushNode_loop env node h = flushNode_loop env node (?h1\<lparr>hb_ble := b\<rparr>)"
        using pop Some now True by (subst flushNode_loop.simps) simp
      with ih b p show ?thesis by (simp add: read_clock_def)
    next
      case False
      have "flushNode_loop env node h = (read_clock (?h1\<lparr>hb_ble := b\<rparr>))\<lparr>hb_pool :=
          snd (pool_pushFront (clock env (?h1\<lparr>hb_ble := b\<rparr>)) p node c)\<rparr>"
        using pop Some now False by (subst flushNode_loop.simps) simp
      with b p "1.prems"(3) show ?thesis by (simp add: read_clock_def)
    qed
  qed
qed

lemma flushNodePending_keeps:
  assumes "\<And>b c. P b \<Longrightarrow> P (snd (trySend (he_ble env) (he_json env) c b))" and "P (hb_ble h)"
  shows "P (hb_ble (flushNodePending env node h))" and "hb_mqtt (flushNodePending env node h) = hb_mqtt h"
  using flushNode_loop_keeps [of P env "\<lambda>_. True" node h] assms
  by (simp_all add: flushNodePending_def)

text \<open>An id that fits no slot finds none, so a flush for it leaves the pool alone.\<close>

lemma pool_pop_unfit:
  assumes "pool_inv p" and "\<not> fits 18 (cstr node)"
  shows "pool_pop t p node = (None, p)"
proof -
  have "\<not> (sl_used s \<and> strcmp_eq (sl_node_id s) node)" if "s \<in> set (pp_slots p)" for s
    using that assms by (auto simp: pool_inv_def slot_ok_def strcmp_eq_def)
  then have "pool_findSlot p node = None"
    by (auto simp: pool_findSlot_def first_index_None)
  then show ?thesis by (simp add: pool_pop_def)
qed

lemma flushNode_loop_pool_inv:
  assumes "pool_inv (hb_pool h)" and "CHR 0x00 \<notin> set node"
  shows "pool_inv (hb_pool (flushNode_loop env node h))"
proof (cases "fits 18 node")
  case True
  then show ?thesis
    using assms(1) by (cases "flush_list env (hb_reads h) (hb_ble h) (mb_pending (pool_abs (hb_pool h)) node)")
      (auto dest: flushNode_loop_refines(4))
next
  case False
  then show ?thesis
    using assms pool_pop_unfit [of "hb_pool h" node]
    by (subst flushNode_loop.simps) (simp add: read_clock_def)
qed

lemma flushNodePending_inv [tempio_inv]:
  assumes "hub_inv held h" and "CHR 0x00 \<notin> set node"
  shows "hub_inv held (flushNodePending env node h)"
proof -
  have "ble_inv held (hb_ble (flushNodePending env node h))"
    using assms(1)
    by (intro flushNodePending_keeps(1) [of "ble_inv held"] trySend_inv) (simp_all add: hub_inv_def)
  moreover have "pool_inv (hb_pool (flushNodePending env node h))"
    using assms by (simp add: flushNodePending_def hub_inv_def flushNode_loop_pool_inv)
  ultimately show ?thesis by (simp add: hub_inv_def)
qed

lemma flushNodePending_ble [simp]:
  "bl_created (hb_ble (flushNodePending env node h)) = bl_created (hb_ble h)"
  "bl_scanning (hb_ble (flushNodePending env node h)) = bl_scanning (hb_ble h)"
  "bl_lastPrint (hb_ble (flushNodePending env node h)) = bl_lastPrint (hb_ble h)"
  "hb_mqtt (flushNodePending env node h) = hb_mqtt h"
proof -
  note keep = flushNodePending_keeps [of "\<lambda>b. bl_created b = bl_created (hb_ble h)
      \<and> bl_scanning b = bl_scanning (hb_ble h) \<and> bl_lastPrint b = bl_lastPrint (hb_ble h)" env h node]
  show "bl_created (hb_ble (flushNodePending env node h)) = bl_created (hb_ble h)"
    "bl_scanning (hb_ble (flushNodePending env node h)) = bl_scanning (hb_ble h)"
    "bl_lastPrint (hb_ble (flushNodePending env node h)) = bl_lastPrint (hb_ble h)"
    "hb_mqtt (flushNodePending env node h) = hb_mqtt h"
    using keep by simp_all
qed

lemma flushNodePending_shrink: "slots_shrink (hb_ble h) (hb_ble (flushNodePending env node h))"
  by (rule flushNodePending_keeps(1) [of "slots_shrink (hb_ble h)"])
    (rule slots_shrink_trans [OF _ trySend_shrink], assumption, rule slots_shrink_refl)

lemma flushNodePending_addr_inv:
  assumes "ble_inv held (hb_ble h)" and "addr_inv hand (hb_ble h)" and "hand \<noteq> [] \<Longrightarrow> \<not> be_late (he_ble env)"
  shows "addr_inv hand (hb_ble (flushNodePending env node h))"
proof -
  have "ble_inv held (hb_ble (flushNodePending env node h))
      \<and> addr_inv hand (hb_ble (flushNodePending env node h))"
    using assms trySend_inv trySend_addr_inv
    by (intro flushNodePending_keeps(1) [of "\<lambda>b. ble_inv held b \<and> addr_inv hand b"]) blast+
  then show ?thesis ..
qed

lemma flushAll_loop_inv: "hub_inv held h \<Longrightarrow> hub_inv held (flushAll_loop env idx h)"
proof (induction env idx h rule: flushAll_loop.induct)
  case (1 env idx h)
  show ?case
  proof (cases "pool_nextNode (hb_pool h) idx 18")
    case None
    with "1.prems" show ?thesis by (subst flushAll_loop.simps) simp
  next
    case (Some x)
    obtain idx' node where x: "x = (idx', node)" by fastforce
    have "CHR 0x00 \<notin> set node"
      using Some x by (auto simp: pool_nextNode_def split: option.splits)
    then show ?thesis
      using "1.IH" [OF Some x [symmetric]] "1.prems" Some x
      by (subst flushAll_loop.simps) (simp add: flushNodePending_inv)
  qed
qed

lemma flushAllPending_inv [tempio_inv]: "hub_inv held h \<Longrightarrow> hub_inv held (flushAllPending env h)"
  by (simp add: flushAllPending_def flushAll_loop_inv)

lemma publish_inv [tempio_inv, simp]: "hub_inv held (publish env json h) = hub_inv held h"
  by (simp add: publish_def hub_inv_def)

lemma handleHubCommand_inv [tempio_inv]: "hub_inv held h \<Longrightarrow> hub_inv held (handleHubCommand env cmd h)"
  by (simp add: handleHubCommand_def handleHubStatus_def hub_inv_def publish_def read_clock_def)

lemma send_now_inv: "hub_inv held h \<Longrightarrow> send_now env cmd h = (ok, h') \<Longrightarrow> hub_inv held h'"
  using trySend_inv [of held "hb_ble h" "he_ble env" "he_json env" cmd]
  by (auto simp: send_now_def hub_inv_def split: prod.splits)

lemma dispatchCommand_inv [tempio_inv]:
  assumes "hub_inv held h" and "fits 18 (mc_target cmd)"
  shows "hub_inv held (dispatchCommand env cmd h)"
proof -
  obtain ok h1 where send: "send_now env cmd h = (ok, h1)" by fastforce
  with assms have "hub_inv held h1" by (auto intro: send_now_inv)
  with send assms show ?thesis
    using handleHubCommand_inv [OF assms(1), of env cmd]
      pool.inv_push [of "hb_pool h1" "mc_target cmd" "clock env h1" cmd]
    by (cases ok) (simp_all add: dispatchCommand_def hub_inv_def read_clock_def)
qed

lemma parseAndDispatchCommands_inv [tempio_inv]:
  assumes "hub_inv held h"
  shows "hub_inv held (parseAndDispatchCommands env data len h)"
proof -
  have step: "hub_inv held (foldl (\<lambda>h obj. dispatchCommand env (parseCommand (he_json env) obj) h) h cmds)"
    if "hub_inv held h" for h and cmds :: "'b list"
    using that by (induction cmds arbitrary: h) (simp_all add: dispatchCommand_inv parseCommand_def)
  with assms show ?thesis
    by (simp add: parseAndDispatchCommands_def Let_def split: prod.splits option.splits)
qed

section \<open>The order of sending\<close>

definition ok_packets :: "(nat \<times> byte list \<times> bool) list \<Rightarrow> byte list list" where
  "ok_packets w = map (\<lambda>(h, pkt, ok). pkt) (filter (\<lambda>(h, pkt, ok). ok) w)"

lemma ok_packets_append [simp]: "ok_packets (v @ w) = ok_packets v @ ok_packets w"
  by (simp add: ok_packets_def)

lemma trySend_log:
  assumes "trySend env js c b = (ok, b')"
  shows "\<exists>w. bl_writes b' = bl_writes b @ w
    \<and> ok_packets w = (if ok then [the (packet_of js c)] else []) \<and> (ok \<longrightarrow> packet_of js c \<noteq> None)"
proof (cases "packet_of js c")
  case None
  with assms show ?thesis by (auto simp: trySend_packet ok_packets_def)
next
  case (Some pkt)
  with assms ble.send_log [of env b "mc_target c" pkt ok b']
    ble.send_ok(2) [of env b "mc_target c" pkt b']
  show ?thesis by (cases ok) (auto simp: trySend_packet ok_packets_def)
qed

text \<open>
  A flush walks down the list: \<open>ds\<close> are the commands it is done with, each with a flag: sent, or
  else expired at one of the clock readings of the flush; \<open>w\<close> are the writes that are added to the log.  When
  it stops early, then at a command that had not expired and that it has tried to send, in the state \<open>b1\<close> after
  the commands before; the attempt has failed.
\<close>

definition flush_trace ::
  "('adr, 'j) hub_env \<Rightarrow> nat \<Rightarrow> 'adr ble \<Rightarrow> MqttCommand list \<Rightarrow> (nat \<times> byte list \<times> bool) list \<Rightarrow> nat
   \<Rightarrow> 'adr ble \<Rightarrow> MqttCommand list option \<Rightarrow> (MqttCommand \<times> bool) list \<Rightarrow> bool" where
  "flush_trace env n b cs w n' b' r ds \<longleftrightarrow>
     bl_writes b' = bl_writes b @ w
     \<and> ok_packets w = map (\<lambda>(c, s). the (packet_of (he_json env) c)) (filter snd ds)
     \<and> (\<forall>(c, s) \<in> set ds. if s then packet_of (he_json env) c \<noteq> None
          else (\<exists>t \<in> {n..<n'}. \<not> cmd_fresh (he_millis env t) c))
     \<and> (case r of
          None \<Rightarrow> cs = map fst ds
        | Some left \<Rightarrow> (\<exists>c rest b1 w1. \<exists>t \<in> {n..<n'}. \<exists>t' \<in> {n..<n'}. cs = map fst ds @ c # rest
            \<and> cmd_fresh (he_millis env t) c \<and> left = c\<lparr>mc_queued_at := he_millis env t'\<rparr> # rest
            \<and> bl_writes b1 = bl_writes b @ w1 \<and> ok_packets w1 = ok_packets w
            \<and> trySend (he_ble env) (he_json env) c b1 = (False, b')))"

text \<open>The two ways in which the walk goes on: over expired commands, and past one that has been sent.\<close>

lemma flush_trace_expired:
  assumes "flush_trace env n b cs w n' b' r ds" and "\<forall>c \<in> set old. \<not> cmd_fresh (he_millis env n) c" and "n < n'"
  shows "flush_trace env n b (old @ cs) w n' b' r (map (\<lambda>c. (c, False)) old @ ds)"
proof -
  have "filter snd (map (\<lambda>c. (c, False)) old) = []" by (simp add: filter_map comp_def)
  with assms show ?thesis
    unfolding flush_trace_def by (cases r) (fastforce simp: comp_def)+
qed

lemma flush_trace_sent:
  assumes "flush_trace env (Suc n) b1 cs w n' b' r ds" and "trySend (he_ble env) (he_json env) c b = (True, b1)"
    and "Suc n < n'"
  shows "\<exists>w1. flush_trace env n b (c # cs) w1 n' b' r ((c, True) # ds)"
proof -
  obtain v where v: "bl_writes b1 = bl_writes b @ v" "ok_packets v = [the (packet_of (he_json env) c)]"
      "packet_of (he_json env) c \<noteq> None"
    using trySend_log [OF assms(2)] by auto
  have sub: "t \<in> {Suc n..<n'} \<Longrightarrow> t \<in> {n..<n'}" for t by simp
  have parts: "bl_writes b' = bl_writes b1 @ w"
      "ok_packets w = map (\<lambda>(c, s). the (packet_of (he_json env) c)) (filter snd ds)"
      "\<forall>(c, s) \<in> set ds. if s then packet_of (he_json env) c \<noteq> None
        else (\<exists>t \<in> {Suc n..<n'}. \<not> cmd_fresh (he_millis env t) c)"
    using assms(1) by (simp_all add: flush_trace_def)
  have "flush_trace env n b (c # cs) (v @ w) n' b' r ((c, True) # ds)"
    unfolding flush_trace_def
  proof (intro conjI)
    show "bl_writes b' = bl_writes b @ v @ w" using parts(1) v(1) by simp
    show "ok_packets (v @ w)
        = map (\<lambda>(c, s). the (packet_of (he_json env) c)) (filter snd ((c, True) # ds))"
      using parts(2) v(2) by simp
    show "\<forall>(c, s) \<in> set ((c, True) # ds). if s then packet_of (he_json env) c \<noteq> None
        else (\<exists>t \<in> {n..<n'}. \<not> cmd_fresh (he_millis env t) c)"
    proof
      fix x assume "x \<in> set ((c, True) # ds)"
      then show "case x of (c, s) \<Rightarrow> if s then packet_of (he_json env) c \<noteq> None
          else (\<exists>t \<in> {n..<n'}. \<not> cmd_fresh (he_millis env t) c)"
        using bspec [OF parts(3), of x] v(3) sub by (cases x) (auto split: if_splits)
    qed
    show "case r of None \<Rightarrow> c # cs = map fst ((c, True) # ds)
      | Some left \<Rightarrow> (\<exists>d rest b2 w2. \<exists>t \<in> {n..<n'}. \<exists>t' \<in> {n..<n'}. c # cs = map fst ((c, True) # ds) @ d # rest
          \<and> cmd_fresh (he_millis env t) d \<and> left = d\<lparr>mc_queued_at := he_millis env t'\<rparr> # rest
          \<and> bl_writes b2 = bl_writes b @ w2 \<and> ok_packets w2 = ok_packets (v @ w)
          \<and> trySend (he_ble env) (he_json env) d b2 = (False, b'))"
    proof (cases r)
      case None
      with assms(1) show ?thesis by (simp add: flush_trace_def)
    next
      case (Some left)
      obtain d rest b2 w2 t t' where ts: "t \<in> {Suc n..<n'}" "t' \<in> {Suc n..<n'}"
        and d: "cs = map fst ds @ d # rest" "cmd_fresh (he_millis env t) d"
          "left = d\<lparr>mc_queued_at := he_millis env t'\<rparr> # rest" "bl_writes b2 = bl_writes b1 @ w2"
          "ok_packets w2 = ok_packets w" "trySend (he_ble env) (he_json env) d b2 = (False, b')"
        using assms(1) unfolding flush_trace_def Some option.case by blast
      have "bl_writes b2 = bl_writes b @ (v @ w2)" "ok_packets (v @ w2) = ok_packets (v @ w)"
          "c # cs = map fst ((c, True) # ds) @ d # rest"
        using d(1,4,5) v(1) by simp_all
      with ts [THEN sub] d(2,3,6) show ?thesis unfolding Some option.case by blast
    qed
  qed
  then show ?thesis by blast
qed

lemma flush_list_trace:
  assumes "flush_list env n b cs = (b', n', r)"
  shows "n < n' \<and> (\<exists>ds w. flush_trace env n b cs w n' b' r ds)"
  using assms
proof (induction env n b cs rule: flush_list.induct)
  case (1 env n b cs)
  let ?fresh = "cmd_fresh (he_millis env n)"
  let ?old = "takeWhile (\<lambda>c. \<not> ?fresh c) cs"
  have old: "\<forall>c \<in> set ?old. \<not> ?fresh c" by (auto dest: set_takeWhileD)
  have split: "cs = ?old @ dropWhile (\<lambda>c. \<not> ?fresh c) cs" by simp
  have rest: "n < n' \<and> (\<exists>ds w. flush_trace env n b (dropWhile (\<lambda>c. \<not> ?fresh c) cs) w n' b' r ds)"
  proof (cases "dropWhile (\<lambda>c. \<not> ?fresh c) cs")
    case Nil
    then have "flush_list env n b cs = (b, Suc n, None)"
      by (subst flush_list.simps) (simp only: list.case)
    then have "flush_trace env n b [] [] n' b' r []" "n < n'"
      using "1.prems" by (simp_all add: flush_trace_def ok_packets_def)
    then show ?thesis unfolding Nil by blast
  next
    case (Cons c rest)
    obtain ok b1 where send: "trySend (he_ble env) (he_json env) c b = (ok, b1)" by fastforce
    show ?thesis
    proof (cases ok)
      case True
      have "flush_list env (Suc n) b1 rest = (b', n', r)"
        using "1.prems" Cons send True by (simp add: flush_list.simps [of env n b cs])
      from "1.IH" [OF Cons send [symmetric] _ this] True obtain ds w
        where less: "Suc n < n'" and tr: "flush_trace env (Suc n) b1 rest w n' b' r ds" by auto
      have sent: "trySend (he_ble env) (he_json env) c b = (True, b1)" using send True by simp
      have "n < n'" using less by simp
      with flush_trace_sent [OF tr sent less] show ?thesis unfolding Cons by blast
    next
      case False
      have res: "b' = b1" "n' = Suc (Suc n)"
          "r = Some (c\<lparr>mc_queued_at := he_millis env (Suc n)\<rparr> # rest)"
        using "1.prems" Cons send False by (simp_all add: flush_list.simps [of env n b cs])
      obtain v where v: "bl_writes b1 = bl_writes b @ v" "ok_packets v = []"
        using trySend_log [OF send] False by auto
      have "?fresh c" using Cons hd_dropWhile [of "\<lambda>c. \<not> ?fresh c" cs] by simp
      moreover have "n \<in> {n..<n'}" "Suc n \<in> {n..<n'}" using res(2) by simp_all
      moreover have "bl_writes b = bl_writes b @ []" "ok_packets [] = ok_packets v"
        using v(2) by (simp_all add: ok_packets_def)
      ultimately have "\<exists>d rest' b1 w1. \<exists>t \<in> {n..<n'}. \<exists>t' \<in> {n..<n'}. c # rest = map fst [] @ d # rest'
            \<and> cmd_fresh (he_millis env t) d
            \<and> c\<lparr>mc_queued_at := he_millis env (Suc n)\<rparr> # rest = d\<lparr>mc_queued_at := he_millis env t'\<rparr> # rest'
            \<and> bl_writes b1 = bl_writes b @ w1 \<and> ok_packets w1 = ok_packets v
            \<and> trySend (he_ble env) (he_json env) d b1 = (False, b')"
        using send False unfolding res(1) by (metis append_Nil list.simps(8))
      then have "flush_trace env n b (c # rest) v n' b' r []"
        using v unfolding flush_trace_def res(1,3) by (simp add: res(2))
      moreover have "n < n'" using res(2) by simp
      ultimately show ?thesis unfolding Cons by blast
    qed
  qed
  then obtain ds w where "flush_trace env n b (dropWhile (\<lambda>c. \<not> ?fresh c) cs) w n' b' r ds" and less: "n < n'"
    by blast
  from flush_trace_expired [OF this(1) old less] split less show ?case by (metis (no_types))
qed

section \<open>One pass over all nodes\<close>

text \<open>A flush of the node in slot \<open>k\<close> changes no other slot.\<close>

definition same_slots :: "nat \<Rightarrow> PendingPool \<Rightarrow> PendingPool \<Rightarrow> bool" where
  "same_slots k p q \<longleftrightarrow> length (pp_slots q) = length (pp_slots p)
     \<and> (\<forall>j. j \<noteq> k \<longrightarrow> pp_slots q ! j = pp_slots p ! j)"

lemma same_slots_trans: "same_slots k p q \<Longrightarrow> same_slots k q r \<Longrightarrow> same_slots k p r"
  by (simp add: same_slots_def)

lemma same_slots_set: "same_slots k p (pool_setSlot p k s)"
  by (simp add: same_slots_def pool_setSlot_def)

lemma pool_findSlot_set:
  assumes "pool_findSlot p node = Some k" and "sl_used s" and "sl_node_id s = sl_node_id (pp_slots p ! k)"
  shows "pool_findSlot (pool_setSlot p k s) node = Some k"
proof -
  let ?P = "\<lambda>s. sl_used s \<and> strcmp_eq (sl_node_id s) node"
  have k: "k < length (pp_slots p)" "?P (pp_slots p ! k)" "\<forall>j < k. \<not> ?P (pp_slots p ! j)"
    using assms(1) unfolding pool_findSlot_def first_index_Some by blast+
  then show ?thesis
    using assms(2,3) unfolding pool_findSlot_def pool_setSlot_def first_index_Some
    by (auto simp: nth_list_update)
qed

lemma pool_pop_slot:
  assumes "pool_findSlot p node = Some k" and "pool_pop t p node = (r, p')"
  shows "same_slots k p p'" and "r \<noteq> None \<Longrightarrow> pool_findSlot p' node = Some k"
proof -
  have used: "sl_used (pp_slots p ! k)"
    using assms(1) by (auto simp: pool_findSlot_def dest: first_index_SomeD)
  show "same_slots k p p'"
    using assms by (auto simp: pool_pop_def Let_def same_slots_set split: prod.splits option.splits)
  show "pool_findSlot p' node = Some k" if "r \<noteq> None"
    using assms that used
    by (auto simp: pool_pop_def Let_def intro!: pool_findSlot_set split: prod.splits option.splits)
qed

lemma pool_pushFront_slot:
  assumes "pool_findSlot p node = Some k"
  shows "same_slots k p (snd (pool_pushFront t p node c))"
  using assms
  by (simp add: pool_pushFront_def pool_findOrCreate_def pool_findSlot_def Let_def same_slots_set
      split: prod.splits)

lemma flushNode_loop_slot:
  "pool_findSlot (hb_pool h) node = Some k
   \<Longrightarrow> same_slots k (hb_pool h) (hb_pool (flushNode_loop env node h))"
proof (induction env node h rule: flushNode_loop.induct)
  case (1 env node h)
  obtain r p where pop: "pool_pop (clock env h) (hb_pool h) node = (r, p)" by fastforce
  note slot = pool_pop_slot [OF "1.prems" pop]
  show ?case
  proof (cases r)
    case None
    with pop slot show ?thesis by (simp add: flushNode_loop.simps [of env node h])
  next
    case (Some c)
    let ?h1 = "(read_clock h)\<lparr>hb_pool := p\<rparr>"
    obtain ok h2 where now: "send_now env c ?h1 = (ok, h2)" by fastforce
    then have h2: "hb_pool h2 = p"
      by (auto simp: send_now_def split: prod.splits)
    have found: "pool_findSlot (hb_pool h2) node = Some k"
      using slot(2) Some h2 by simp
    show ?thesis
    proof (cases ok)
      case True
      note ih = "1.IH" [OF refl pop [symmetric] refl Some now [symmetric]
          eq_True [THEN iffD2, OF True] found]
      have "flushNode_loop env node h = flushNode_loop env node h2"
        using pop Some now True by (subst flushNode_loop.simps) simp
      with ih slot(1) h2 show ?thesis by (auto intro: same_slots_trans)
    next
      case False
      have "flushNode_loop env node h
          = (read_clock h2)\<lparr>hb_pool := snd (pool_pushFront (clock env h2) (hb_pool h2) node c)\<rparr>"
        using pop Some now False by (subst flushNode_loop.simps) simp
      with pool_pushFront_slot [OF found, of "clock env h2" c] slot(1) h2 show ?thesis
        by (auto intro: same_slots_trans)
    qed
  qed
qed

text \<open>The nodes that \<open>nextNode\<close> will deliver from position \<open>idx\<close> on.\<close>

definition waiting :: "PendingPool \<Rightarrow> nat \<Rightarrow> string list" where
  "waiting p idx = map sl_node_id
     (filter (\<lambda>s. sl_used s \<and> \<not> tsq_emptyUnsafe (sl_queue s)) (drop idx (pp_slots p)))"

lemma pool_nextNode_waiting:
  assumes "pool_inv p"
  shows "pool_nextNode p idx 18 = None \<Longrightarrow> waiting p idx = []"
    and "pool_nextNode p idx 18 = Some (next, node) \<Longrightarrow>
      waiting p idx = node # waiting p next \<and> pool_findSlot p node = Some (next - 1)
      \<and> idx < next \<and> fits 18 node"
proof -
  let ?P = "\<lambda>s. sl_used s \<and> \<not> tsq_emptyUnsafe (sl_queue s)"
  show "waiting p idx = []" if "pool_nextNode p idx 18 = None"
    using that first_index_None [of ?P "drop idx (pp_slots p)"]
    by (auto simp: pool_nextNode_def waiting_def filter_empty_conv split: option.splits)
  assume some: "pool_nextNode p idx 18 = Some (next, node)"
  then obtain k where k: "first_index ?P (drop idx (pp_slots p)) = Some k"
    and next_eq: "next = Suc (idx + k)" and node: "node = strlcpy 18 (sl_node_id (pp_slots p ! (idx + k)))"
    by (auto simp: pool_nextNode_def split: option.splits)
  note kD = first_index_SomeD [OF k]
  have len: "idx + k < length (pp_slots p)" and P: "?P (pp_slots p ! (idx + k))"
    using kD by (auto simp: less_diff_conv add.commute)
  have fit: "fits 18 (sl_node_id (pp_slots p ! (idx + k)))"
    using pool_invD(1) [OF assms len] P by (simp add: slot_ok_def)
  then have node': "node = sl_node_id (pp_slots p ! (idx + k))" "fits 18 node"
    using node by simp_all
  have "filter ?P (drop idx (pp_slots p)) = drop idx (pp_slots p) ! k
      # filter ?P (drop (Suc k) (drop idx (pp_slots p)))"
    using k by (rule filter_first_index)
  then have "waiting p idx = node # waiting p next"
    using len node' by (simp add: waiting_def next_eq add.commute)
  moreover have "pool_findSlot p node = Some (idx + k)"
    using pool_findSlot_Some [OF assms node'(2)] len P node'(1) by simp
  ultimately show "waiting p idx = node # waiting p next \<and> pool_findSlot p node = Some (next - 1)
      \<and> idx < next \<and> fits 18 node"
    using node' next_eq by simp
qed

lemma waiting_same_slots:
  assumes "same_slots k p q"
  shows "waiting q (Suc k) = waiting p (Suc k)"
proof -
  have "drop (Suc k) (pp_slots q) = drop (Suc k) (pp_slots p)"
    using assms by (intro nth_equalityI) (auto simp: same_slots_def)
  then show ?thesis by (simp add: waiting_def)
qed

lemma flushAll_loop_waiting:
  "pool_inv (hb_pool h) \<Longrightarrow>
   flushAll_loop env idx h = foldl (\<lambda>h n. flushNodePending env n h) h (waiting (hb_pool h) idx)"
proof (induction env idx h rule: flushAll_loop.induct)
  case (1 env idx h)
  show ?case
  proof (cases "pool_nextNode (hb_pool h) idx 18")
    case None
    with pool_nextNode_waiting(1) [OF "1.prems"] show ?thesis
      by (subst flushAll_loop.simps) simp
  next
    case (Some x)
    obtain idx' node where x: "x = (idx', node)" by fastforce
    note w = pool_nextNode_waiting(2) [OF "1.prems" Some [unfolded x]]
    let ?h1 = "flushNodePending env node h"
    have same: "same_slots (idx' - 1) (hb_pool h) (hb_pool ?h1)"
      using w flushNode_loop_slot [of h node "idx' - 1" env]
      by (simp add: flushNodePending_def same_slots_def)
    then have "waiting (hb_pool ?h1) idx' = waiting (hb_pool h) idx'"
      using waiting_same_slots [OF same] w by simp
    moreover have "pool_inv (hb_pool ?h1)"
      using "1.prems" w by (simp add: flushNodePending_def flushNode_loop_pool_inv fits_def)
    ultimately show ?thesis
      using "1.IH" [OF Some x [symmetric]] Some x w by (subst flushAll_loop.simps) simp
  qed
qed

lemma waiting_keys:
  assumes "pool_inv p"
  shows "waiting p 0 = filter (\<lambda>n. mb_pending (pool_abs p) n \<noteq> []) (pool_keys p)"
proof -
  have "tsq_emptyUnsafe (sl_queue s) \<longleftrightarrow> mb_pending (pool_abs p) (sl_node_id s) = []"
    if s: "s \<in> set (pp_slots p)" "sl_used s" for s
  proof -
    obtain i where i: "i < length (pp_slots p)" "pp_slots p ! i = s"
      using s(1) by (auto simp: in_set_conv_nth)
    show ?thesis
      using pool_abs_slot [OF assms i(1)] i(2) s pool_invD(1) [OF assms i(1)]
      by (simp add: mb_pending_def slot_ok_def tsq_queries)
  qed
  then show ?thesis
    by (auto simp: waiting_def table_keys_def filter_map comp_def intro!: map_cong filter_cong)
qed

section \<open>A command that cannot be sent\<close>

lemma packet_of_stamp [simp]: "packet_of js (c\<lparr>mc_queued_at := t\<rparr>) = packet_of js c"
  by (cases "js_parse js (cstr (mc_payload c))") (simp add: packet_of_def timings_of_def Let_def)

text \<open>Such a command is taken out, stamped anew and put back; the node's list does not move.\<close>

lemma flush_unsendable:
  assumes "pool_inv (hb_pool h)" and "fits 18 node"
    and "bleIsNodeConnected (he_ble env) (hb_ble h) node"
    and "mb_pending (pool_abs (hb_pool h)) node = c # cs"
    and "packet_of (he_json env) c = None" and "cmd_fresh (clock env h) c"
  defines "h' \<equiv> flushNodePending env node h"
  shows "pool_inv (hb_pool h')" and "hb_ble h' = hb_ble h" and "hb_reads h' = Suc (Suc (hb_reads h))"
    and "mb_pending (pool_abs (hb_pool h')) node
         = c\<lparr>mc_queued_at := he_millis env (Suc (hb_reads h))\<rparr> # cs"
proof -
  have "flush_list env (hb_reads h) (hb_ble h) (c # cs)
      = (hb_ble h, Suc (Suc (hb_reads h)),
         Some (c\<lparr>mc_queued_at := he_millis env (Suc (hb_reads h))\<rparr> # cs))"
    using assms(5,6) by (subst flush_list.simps) (simp add: clock_def trySend_packet)
  note refines = flushNode_loop_refines [OF assms(1,2), of env, unfolded assms(4), OF this]
  have h': "h' = flushNode_loop env node h"
    using assms(3) by (simp add: h'_def flushNodePending_def)
  show "pool_inv (hb_pool h')" "hb_ble h' = hb_ble h" "hb_reads h' = Suc (Suc (hb_reads h))"
    "mb_pending (pool_abs (hb_pool h')) node
       = c\<lparr>mc_queued_at := he_millis env (Suc (hb_reads h))\<rparr> # cs"
    using refines by (simp_all add: h' mb_pending_def)
qed

lemma dispatchCommand_abs:
  assumes "pool_inv (hb_pool h)" and "fits 18 (mc_target cmd)" and "mc_target cmd \<noteq> []"
    and "send_now env cmd h = (ok, h1)"
  shows "let h' = dispatchCommand env cmd h; m = pool_abs (hb_pool h); node = mc_target cmd;
             room = (case m node of Some cs \<Rightarrow> length cs < 4 | None \<Rightarrow> card (dom m) < 5)
    in hb_ble h' = hb_ble h1
     \<and> pool_abs (hb_pool h') =
         (if ok \<or> \<not> room then m
          else m(node \<mapsto> mb_pending m node @ [cmd\<lparr>mc_queued_at := clock env h1\<rparr>]))"
proof -
  have h1: "hb_pool h1 = hb_pool h"
    using assms(4) by (auto simp: send_now_def split: prod.splits)
  have "map_prod id pool_abs (pool_push (clock env h1) (hb_pool h) (mc_target cmd) cmd)
      = mb_insert 5 4 (\<lambda>cs c. cs @ [c]) (pool_abs (hb_pool h)) (mc_target cmd)
          (cmd\<lparr>mc_queued_at := clock env h1\<rparr>)"
    using pool.abs_push [OF assms(1,2), of "clock env h1" cmd] by (simp add: config_defs)
  then have "pool_abs (snd (pool_push (clock env h1) (hb_pool h) (mc_target cmd) cmd))
      = snd (mb_insert 5 4 (\<lambda>cs c. cs @ [c]) (pool_abs (hb_pool h)) (mc_target cmd)
          (cmd\<lparr>mc_queued_at := clock env h1\<rparr>))"
    by (metis snd_map_prod)
  with assms h1 show ?thesis
    by (cases ok) (auto simp: dispatchCommand_def mb_insert_def mb_pending_def read_clock_def
        split: option.splits)
qed

section \<open>Commands lie under their target\<close>

definition targets_ok :: "PendingPool \<Rightarrow> bool" where
  "targets_ok p \<longleftrightarrow> (\<forall>n cs. pool_abs p n = Some cs \<longrightarrow> list_all (\<lambda>c. mc_target c = n) cs)"

lemma targets_ok_pending: "targets_ok p \<Longrightarrow> c \<in> set (mb_pending (pool_abs p) n) \<Longrightarrow> mc_target c = n"
  by (cases "pool_abs p n") (auto simp: targets_ok_def mb_pending_def list_all_iff)

lemma targets_ok_flush [tempio_inv]:
  assumes "pool_inv (hb_pool h)" and "CHR 0x00 \<notin> set node" and "targets_ok (hb_pool h)"
  shows "targets_ok (hb_pool (flushNode_loop env node h))"
proof (cases "fits 18 node")
  case False
  with assms pool_pop_unfit [of "hb_pool h" node] show ?thesis
    by (subst flushNode_loop.simps) (simp add: read_clock_def)
next
  case True
  obtain b n r where fl: "flush_list env (hb_reads h) (hb_ble h)
      (mb_pending (pool_abs (hb_pool h)) node) = (b, n, r)"
    by (metis prod_cases3)
  obtain ds w where tr: "flush_trace env (hb_reads h) (hb_ble h) (mb_pending (pool_abs (hb_pool h)) node) w n b r ds"
    using flush_list_trace [OF fl] by blast
  have "list_all (\<lambda>c. mc_target c = node) cs" if r: "r = Some cs" for cs
  proof -
    obtain c rest t where split: "mb_pending (pool_abs (hb_pool h)) node = map fst ds @ c # rest"
      and cs: "cs = c\<lparr>mc_queued_at := t\<rparr> # rest"
      using tr r by (auto simp: flush_trace_def)
    have "mc_target d = node" if "d \<in> set (c # rest)" for d
      using that by (intro targets_ok_pending [OF assms(3)]) (auto simp: split)
    then show ?thesis by (simp add: cs list_all_iff)
  qed
  then show ?thesis
    using flushNode_loop_refines(5) [OF assms(1) True fl] assms(3) by (auto simp: targets_ok_def)
qed

lemma targets_ok_flushPending [tempio_inv]:
  "pool_inv (hb_pool h) \<Longrightarrow> CHR 0x00 \<notin> set node \<Longrightarrow> targets_ok (hb_pool h)
   \<Longrightarrow> targets_ok (hb_pool (flushNodePending env node h))"
  by (simp add: flushNodePending_def targets_ok_flush)

lemma handleHubCommand_pool [simp]: "hb_pool (handleHubCommand env cmd h) = hb_pool h"
  "hb_ble (handleHubCommand env cmd h) = hb_ble h"
  by (simp_all add: handleHubCommand_def handleHubStatus_def publish_def read_clock_def)

lemma targets_ok_dispatch [tempio_inv]:
  assumes "pool_inv (hb_pool h)" and "fits 18 (mc_target cmd)" and "targets_ok (hb_pool h)"
  shows "targets_ok (hb_pool (dispatchCommand env cmd h))"
proof (cases "mc_target cmd = []")
  case True
  with assms show ?thesis by (simp add: dispatchCommand_def cstr_def)
next
  case False
  obtain ok h1 where "send_now env cmd h = (ok, h1)" by fastforce
  from dispatchCommand_abs [OF assms(1,2) False this] targets_ok_pending [OF assms(3)]
  show ?thesis
    using assms(3) by (auto simp: targets_ok_def list_all_iff Let_def split: if_splits)
qed

lemma targets_ok_parse [tempio_inv]:
  assumes "hub_inv held h" and "targets_ok (hb_pool h)"
  shows "targets_ok (hb_pool (parseAndDispatchCommands env data len h))"
proof -
  have "hub_inv held (foldl (\<lambda>h obj. dispatchCommand env (parseCommand (he_json env) obj) h) h cmds)
      \<and> targets_ok (hb_pool (foldl (\<lambda>h obj. dispatchCommand env (parseCommand (he_json env) obj) h) h cmds))"
    if "hub_inv held h" "targets_ok (hb_pool h)" for cmds :: "'b list" and h
    using that
  proof (induction cmds arbitrary: h)
    case Nil
    then show ?case by simp
  next
    case (Cons c cmds)
    let ?h = "dispatchCommand env (parseCommand (he_json env) c) h"
    have fit: "fits 18 (mc_target (parseCommand (he_json env) c))"
      by (simp add: parseCommand_def)
    have "pool_inv (hb_pool h)" using Cons.prems(1) by (simp add: hub_inv_def)
    with Cons.IH [of ?h] dispatchCommand_inv [OF Cons.prems(1) fit, of env]
      targets_ok_dispatch [OF _ fit Cons.prems(2), of env]
    show ?case by simp
  qed
  with assms show ?thesis
    by (simp add: parseAndDispatchCommands_def Let_def split: prod.splits option.splits)
qed

lemma targets_ok_flushAll [tempio_inv]:
  assumes "hub_inv held h" and "targets_ok (hb_pool h)"
  shows "targets_ok (hb_pool (flushAllPending env h))"
proof -
  have "targets_ok (hb_pool (flushAll_loop env idx h))"
    if "hub_inv held h" "targets_ok (hb_pool h)" for idx h
    using that
  proof (induction env idx h rule: flushAll_loop.induct)
    case (1 env idx h)
    show ?case
    proof (cases "pool_nextNode (hb_pool h) idx 18")
      case None
      with "1.prems" show ?thesis by (subst flushAll_loop.simps) simp
    next
      case (Some x)
      obtain idx' node where x: "x = (idx', node)" by fastforce
      have node: "CHR 0x00 \<notin> set node"
        using Some x by (auto simp: pool_nextNode_def split: option.splits)
      have "pool_inv (hb_pool h)" using "1.prems"(1) by (simp add: hub_inv_def)
      then show ?thesis
        using "1.IH" [OF Some x [symmetric] flushNodePending_inv [OF "1.prems"(1) node]
            targets_ok_flushPending [OF _ node "1.prems"(2)]] Some x
        by (subst flushAll_loop.simps) simp
    qed
  qed
  with assms show ?thesis by (simp add: flushAllPending_def)
qed

text \<open>A flush of a node that cannot be reached writes nothing.\<close>

lemma flushNode_loop_unreachable:
  assumes "pool_inv (hb_pool h)" and "CHR 0x00 \<notin> set node"
    and "\<And>c. c \<in> set (mb_pending (pool_abs (hb_pool h)) node)
      \<Longrightarrow> trySend (he_ble env) (he_json env) c (hb_ble h) = (False, hb_ble h)"
  shows "hb_ble (flushNode_loop env node h) = hb_ble h"
proof (cases "fits 18 node")
  case False
  with assms pool_pop_unfit [of "hb_pool h" node] show ?thesis
    by (subst flushNode_loop.simps) (simp add: read_clock_def)
next
  case True
  let ?cs = "mb_pending (pool_abs (hb_pool h)) node"
  have "fst (flush_list env (hb_reads h) (hb_ble h) ?cs) = hb_ble h"
  proof (cases "dropWhile (\<lambda>c. \<not> cmd_fresh (he_millis env (hb_reads h)) c) ?cs")
    case Nil
    then show ?thesis by (subst flush_list.simps) (simp only: list.case fst_conv)
  next
    case (Cons c rest)
    then have "c \<in> set ?cs" by (metis list.set_intros(1) set_dropWhileD)
    with assms(3) Cons show ?thesis by (subst flush_list.simps) simp
  qed
  with flushNode_loop_refines(1) [OF assms(1) True] show ?thesis
    by (metis prod_cases3 fst_conv)
qed

text \<open>A hub with node \<open>aa\<close> connected, and pools with commands for it, for the witnesses below.\<close>

definition example_hub_env :: "(string, unit) hub_env" where
  "example_hub_env = \<lparr>he_ble = example_env, he_json = example_json,
     he_millis = (\<lambda>n. 200000 + 1000 * word_of_nat n), he_heap = (\<lambda>_. 0), he_rssi = (\<lambda>_. 0),
     he_msg_id = (\<lambda>_. 0)\<rparr>"

definition example_hub :: "PendingPool \<Rightarrow> string hub" where
  "example_hub p = \<lparr>hb_ble = example_ble, hb_pool = p, hb_mqtt = mqtt_boot, hb_reads = 0\<rparr>"

lemma example_hub_sel [simp]:
  "hb_ble (example_hub p) = example_ble" "hb_pool (example_hub p) = p"
  "hb_reads (example_hub p) = 0" "hb_mqtt (example_hub p) = mqtt_boot"
  by (simp_all add: example_hub_def)

lemma example_hub_connected: "bleIsNodeConnected (he_ble example_hub_env) example_ble ''aa''"
  using example_ble_connected
  by (simp add: bleIsNodeConnected_def example_hub_env_def example_env_def cstr_def
      isAlreadyConnected_def findSlotByAddr_def)

definition unknown_cmd :: MqttCommand where
  "unknown_cmd = example_cmd\<lparr>mc_type := ''FOO'', mc_queued_at := 199999\<rparr>"

definition blocked_pool :: PendingPool where
  "blocked_pool = snd (run_steps pool_step (pool_new example_mem)
     [MailPush 199999 ''aa'' unknown_cmd, MailPush 200000 ''aa'' example_cmd])"

lemma blocked_pool:
  "pool_inv blocked_pool"
  "pool_abs blocked_pool = [''aa'' \<mapsto> [unknown_cmd, example_cmd\<lparr>mc_queued_at := 200000\<rparr>]]"
proof -
  let ?ops = "[MailPush 199999 ''aa'' unknown_cmd, MailPush 200000 ''aa'' example_cmd]"
  note run = pool_run_refines [OF pool_inv_new [OF example_mem_ok], of ?ops, unfolded pool_abs_new]
  show "pool_inv blocked_pool"
    using run by (simp add: blocked_pool_def fits_def del: run_steps.simps)
  show "pool_abs blocked_pool = [''aa'' \<mapsto> [unknown_cmd, example_cmd\<lparr>mc_queued_at := 200000\<rparr>]]"
    using run unfolding blocked_pool_def
    by (cases "run_steps pool_step (pool_new example_mem) ?ops")
      (simp add: fits_def mb_insert_def unknown_cmd_def del: pool_step.simps)
qed

section \<open>Properties\<close>

text \<open>
  C5: a flush of a connected node sends its pending commands in the order in which they were
  given: it walks down the list, sends each command or drops it because it has expired, and stops early
  only at one that it has tried to send without success, which stays at the head (with a new stamp)
  before all the others.  Other nodes' commands are not touched; if the node is not connected nothing happens.
\<close>

theorem flush_sends_in_order:
  assumes "pool_inv (hb_pool h)" and "fits 18 node"
  shows "let h' = flushNodePending env node h in
    (if bleIsNodeConnected (he_ble env) (hb_ble h) node
     then \<exists>ds w. flush_trace env (hb_reads h) (hb_ble h) (mb_pending (pool_abs (hb_pool h)) node) w
            (hb_reads h') (hb_ble h') (pool_abs (hb_pool h') node) ds
     else h' = h)
    \<and> (\<forall>other. other \<noteq> node \<longrightarrow> pool_abs (hb_pool h') other = pool_abs (hb_pool h) other)"
proof -
  obtain b n r where fl: "flush_list env (hb_reads h) (hb_ble h)
      (mb_pending (pool_abs (hb_pool h)) node) = (b, n, r)"
    by (metis prod_cases3)
  show ?thesis
    using flushNode_loop_refines [OF assms(1,2) fl] flush_list_trace [OF fl]
    by (auto simp: flushNodePending_def Let_def)
qed

theorem flush_sends_in_order_witness:
  "let h = example_hub example_pool; h' = flushNodePending example_hub_env ''aa'' h in
    \<exists>ds w. flush_trace example_hub_env 0 (hb_ble h) (mb_pending (pool_abs example_pool) ''aa'') w (hb_reads h')
           (hb_ble h') (pool_abs (hb_pool h') ''aa'') ds"
  using flush_sends_in_order [of "example_hub example_pool" "''aa''" example_hub_env] example_pool_inv
    example_hub_connected
  by (simp add: fits_def Let_def)

text \<open>
  C19: a command for a node is either written to it at once, and then nothing is queued, or it is
  appended, stamped, to the node's pending commands. It is lost only when the node has four
  pending commands already, or has none and five other nodes have some.
\<close>

theorem dispatch_outcome:
  assumes "pool_inv (hb_pool h)" and "fits 18 (mc_target cmd)" and "mc_target cmd \<noteq> []"
    and "send_now env cmd h = (ok, h1)"
  shows "let h' = dispatchCommand env cmd h; m = pool_abs (hb_pool h); node = mc_target cmd;
             room = (case m node of Some cs \<Rightarrow> length cs < 4 | None \<Rightarrow> card (dom m) < 5)
    in hb_ble h' = hb_ble h1
     \<and> pool_abs (hb_pool h') =
         (if ok \<or> \<not> room then m
          else m(node \<mapsto> mb_pending m node @ [cmd\<lparr>mc_queued_at := clock env h1\<rparr>]))"
  using assms by (rule dispatchCommand_abs)

theorem dispatch_outcome_witness:
  "pool_abs (hb_pool (dispatchCommand example_hub_env (example_cmd\<lparr>mc_target := ''bb''\<rparr>)
     (example_hub example_pool)))
   = (pool_abs example_pool)(''bb'' \<mapsto> [example_cmd\<lparr>mc_target := ''bb'', mc_queued_at := 200000\<rparr>])"
proof -
  let ?cmd = "example_cmd\<lparr>mc_target := ''bb''\<rparr>" and ?h = "example_hub example_pool"
  have "findSlotByAddr example_ble ''bb'' = None"
    by (simp add: findSlotByAddr_def findSlotIndex_def example_ble_def setNode_def ble_boot_def
        config_defs numeral_eq_Suc)
  then have "send_now example_hub_env ?cmd ?h = (False, ?h)"
    by (simp add: send_now_def trySend_packet bleSendToNode_def example_hub_env_def example_env_def
        cstr_def split: option.splits)
  from dispatch_outcome [OF _ _ _ this] show ?thesis
    using example_pool_inv
    by (simp add: fits_def example_pool_abs clock_def example_hub_env_def mb_pending_def Let_def)
qed

text \<open>
  C26: a command for which no packet can be built (an unknown type, a payload that does not parse)
  blocks its node: as long as the clock readings are less than five minutes apart, no number of
  flushes sends or drops it or anything behind it, however old it gets, because every attempt
  stamps it anew.
\<close>

theorem unsendable_never_expires:
  assumes "pool_inv (hb_pool h)" and "fits 18 node"
    and "bleIsNodeConnected (he_ble env) (hb_ble h) node"
    and "mb_pending (pool_abs (hb_pool h)) node = c # cs"
    and "packet_of (he_json env) c = None" and "cmd_fresh (clock env h) c"
    and "\<And>n. he_millis env (Suc n) - he_millis env n < CMD_TTL_MS"
  shows "\<exists>t. mb_pending (pool_abs (hb_pool ((flushNodePending env node ^^ k) h))) node
           = c\<lparr>mc_queued_at := t\<rparr> # cs
         \<and> bl_writes (hb_ble ((flushNodePending env node ^^ k) h)) = bl_writes (hb_ble h)"
proof -
  have "\<exists>t. mb_pending (pool_abs (hb_pool h')) node = c\<lparr>mc_queued_at := t\<rparr> # cs
      \<and> cmd_fresh (clock env h') (c\<lparr>mc_queued_at := t\<rparr>) \<and> hb_ble h' = hb_ble h \<and> pool_inv (hb_pool h')"
    if "h' = (flushNodePending env node ^^ k) h" for h' k
    using that
  proof (induction k arbitrary: h')
    case 0
    with assms show ?case by (intro exI [of _ "mc_queued_at c"]) simp
  next
    case (Suc k)
    let ?h = "(flushNodePending env node ^^ k) h"
    obtain t where ih: "mb_pending (pool_abs (hb_pool ?h)) node = c\<lparr>mc_queued_at := t\<rparr> # cs"
        "cmd_fresh (clock env ?h) (c\<lparr>mc_queued_at := t\<rparr>)"
        "hb_ble ?h = hb_ble h" "pool_inv (hb_pool ?h)"
      using Suc.IH [OF refl] by blast
    note step = flush_unsendable [OF ih(4) assms(2) _ ih(1) _ ih(2)]
    show ?case
      using step assms(3,5,7) ih(3) Suc.prems
      by (intro exI [of _ "he_millis env (Suc (hb_reads ?h))"])
        (simp add: cmd_fresh_def clock_def)
  qed
  then show ?thesis by metis
qed

theorem unsendable_never_expires_witness:
  "\<exists>t. mb_pending (pool_abs (hb_pool ((flushNodePending example_hub_env ''aa'' ^^ 1000000)
          (example_hub blocked_pool)))) ''aa''
       = unknown_cmd\<lparr>mc_queued_at := t\<rparr> # [example_cmd\<lparr>mc_queued_at := 200000\<rparr>]"
proof -
  have pending: "mb_pending (pool_abs (hb_pool (example_hub blocked_pool))) ''aa''
      = unknown_cmd # [example_cmd\<lparr>mc_queued_at := 200000\<rparr>]"
    by (simp add: blocked_pool mb_pending_def)
  have packet: "packet_of (he_json example_hub_env) unknown_cmd = None"
    by (simp add: packet_of_def unknown_cmd_def example_cmd_def cstr_def Let_def split: prod.splits)
  have fresh: "cmd_fresh (clock example_hub_env (example_hub blocked_pool)) unknown_cmd"
    by (simp add: cmd_fresh_def clock_def example_hub_env_def unknown_cmd_def config_defs)
  have step: "he_millis example_hub_env (Suc n) - he_millis example_hub_env n < CMD_TTL_MS" for n
    by (simp add: example_hub_env_def config_defs distrib_left)
  show ?thesis
    using unsendable_never_expires [OF _ _ _ pending packet fresh step, of 1000000] blocked_pool(1)
      example_hub_connected
    by (auto simp: fits_def simp del: funpow.simps)
qed

text \<open>
  C24: one pass of \<open>flushAllPending\<close> flushes every node that has pending commands exactly once, in
  slot order, and no other node.
\<close>

theorem flushAll_serves_each_node_once:
  assumes "pool_inv (hb_pool h)"
  shows "let nodes = filter (\<lambda>n. mb_pending (pool_abs (hb_pool h)) n \<noteq> []) (pool_keys (hb_pool h))
    in flushAllPending env h = foldl (\<lambda>h n. flushNodePending env n h) h nodes
       \<and> distinct nodes \<and> set nodes = {n. mb_pending (pool_abs (hb_pool h)) n \<noteq> []}"
proof -
  have "n \<in> set (pool_keys (hb_pool h))" if "mb_pending (pool_abs (hb_pool h)) n \<noteq> []" for n
    using that table_map_dom [of sl_used sl_node_id slot_items "pp_slots (hb_pool h)"]
    by (auto simp: mb_pending_def pool_abs_def table_keys_def split: option.splits)
  then show ?thesis
    using flushAll_loop_waiting [OF assms, of env 0] waiting_keys [OF assms] assms
    by (auto simp: flushAllPending_def pool_inv_def Let_def)
qed

theorem flushAll_serves_each_node_once_witness:
  "flushAllPending example_hub_env (example_hub blocked_pool)
   = foldl (\<lambda>h n. flushNodePending example_hub_env n h) (example_hub blocked_pool)
       (filter (\<lambda>n. mb_pending (pool_abs blocked_pool) n \<noteq> []) (pool_keys blocked_pool))"
  using flushAll_serves_each_node_once [of "example_hub blocked_pool" example_hub_env] blocked_pool(1)
  by (simp add: Let_def)

end
