(* ===== verification/Ble_Connection.thy ===== *)
theory Ble_Connection
  imports Cmd_Flush
begin

text \<open>
  Connecting to the nodes that have been found, \<^verbatim>\<open>ble/ble_connection.cpp\<close> and the loop of
  \<^verbatim>\<open>ble/ble_central.cpp\<close>.  A step that blocks in NimBLE (connecting, discovery, subscribing, writing,
  starting and stopping the scanner, the pause after connecting) is a \<open>ble_call\<close>: any callbacks may
  run in it.
\<close>

section \<open>Clients\<close>

definition stashClient :: "nat \<Rightarrow> 'adr ble \<Rightarrow> 'adr ble" where
  "stashClient c b =
     (case findSlotIndex (\<lambda>n. \<not> cn_used n \<and> cn_client n = None) b of
        None \<Rightarrow> b
      | Some i \<Rightarrow> setNode i (\<lambda>n. n\<lparr>cn_client := Some c\<rparr>) b)"

definition disconnectAndStash :: "'adr ble_env \<Rightarrow> nat \<Rightarrow> 'adr ble \<Rightarrow> 'adr ble" where
  "disconnectAndStash env c b = stashClient c (ble_call env b)"

definition acquireClient :: "'adr ble_env \<Rightarrow> 'adr ble \<Rightarrow> nat option \<times> 'adr ble" where
  "acquireClient env b =
     (case findReusableClient b of
        (Some c, b1) \<Rightarrow> (Some c, b1)
      | (None, b1) \<Rightarrow>
          if be_create env (bl_calls b1)
          then (Some (bl_created b1), ble_call env (b1\<lparr>bl_created := Suc (bl_created b1)\<rparr>))
          else (None, ble_call env b1))"

section \<open>Connecting\<close>

text \<open>The result says whether the service and a DATA characteristic that notifies were found.\<close>

definition discoverAndSubscribe :: "'adr ble_env \<Rightarrow> 'adr ble \<Rightarrow> bool \<times> 'adr ble" where
  "discoverAndSubscribe env b =
     (let svc = be_service env TEMPIO_SERVICE_UUID (bl_calls b); b1 = ble_call env b
      in if \<not> svc then (False, b1)
         else (let dataChar = be_characteristic env TEMPIO_SERVICE_UUID TEMPIO_CHAR_DATA_UUID (bl_calls b1);
                   b2 = ble_call env b1
               in if dataChar = None \<or> \<not> be_canNotify env TEMPIO_SERVICE_UUID TEMPIO_CHAR_DATA_UUID (bl_calls b2)
                  then (False, b2)
                  else (True, ble_call env b2)))"

definition registerNode ::
  "('adr, 'j) hub_env \<Rightarrow> nat \<Rightarrow> nat \<Rightarrow> 'adr \<Rightarrow> 'adr hub \<Rightarrow> 'adr hub" where
  "registerNode env slot c addr h =
     (let b1 = setNode slot (\<lambda>n. n\<lparr>cn_client := Some c\<rparr>) (hb_ble h);
          cfg = be_characteristic (he_ble env) TEMPIO_SERVICE_UUID TEMPIO_CHAR_CONFIG_UUID (bl_calls b1);
          b2 = ble_call (he_ble env) b1;
          b3 = setNode slot (\<lambda>n. n\<lparr>cn_configChar := cfg, cn_addr := addr, cn_used := True\<rparr>) b2;
          b4 = ble_call (he_ble env) b3;
          b5 = (case cn_configChar (bl_nodes b4 ! slot) of
                  None \<Rightarrow> b4
                | Some ch \<Rightarrow> snd (writeValue (he_ble env) b4 ch
                               (bytes_HubReady \<lparr>hr_type = msg_code HUB_READY\<rparr>)));
          b6 = b5\<lparr>bl_led := True\<rparr>
      in flushNodePending env (cstr (be_toString (he_ble env) addr)) (h\<lparr>hb_ble := b6\<rparr>))"

definition connectToNode ::
  "('adr, 'j) hub_env \<Rightarrow> 'adr \<Rightarrow> 'adr hub \<Rightarrow> bool \<times> 'adr hub" where
  "connectToNode env addr h =
     (let e = he_ble env
      in case findEmptySlot (hb_ble h) of
           None \<Rightarrow> (False, h)
         | Some slot \<Rightarrow>
             (case acquireClient e (hb_ble h) of
                (None, b1) \<Rightarrow> (False, h\<lparr>hb_ble := b1\<rparr>)
              | (Some c, b1) \<Rightarrow>
                  (let connected = be_connect e (bl_calls b1); b2 = ble_call e b1
                   in if \<not> connected then (False, h\<lparr>hb_ble := disconnectAndStash e c b2\<rparr>)
                      else (case discoverAndSubscribe e b2 of
                              (False, b3) \<Rightarrow> (False, h\<lparr>hb_ble := disconnectAndStash e c b3\<rparr>)
                            | (True, b3) \<Rightarrow>
                                (True, registerNode env slot c addr (h\<lparr>hb_ble := b3\<rparr>))))))"

definition scan_set :: "'adr ble_env \<Rightarrow> bool \<Rightarrow> 'adr ble \<Rightarrow> 'adr ble" where
  "scan_set env on b = ble_call env (b\<lparr>bl_scanning := on\<rparr>)"

definition processNextPending :: "('adr, 'j) hub_env \<Rightarrow> 'adr hub \<Rightarrow> 'adr hub" where
  "processNextPending env h =
     (case tsq_pop PENDING_MAX (bl_pendingQueue (hb_ble h)) of
        (None, q) \<Rightarrow> h\<lparr>hb_ble := (hb_ble h)\<lparr>bl_pendingQueue := q\<rparr>\<rparr>
      | (Some addr, q) \<Rightarrow>
          (let h1 = h\<lparr>hb_ble := scan_set (he_ble env) False ((hb_ble h)\<lparr>bl_pendingQueue := q\<rparr>)\<rparr>;
               h2 = snd (connectToNode env addr h1)
           in h2\<lparr>hb_ble := scan_set (he_ble env) True (hb_ble h2)\<rparr>))"

section \<open>The loop of the BLE layer\<close>

definition bleCentralInit :: "'adr ble_env \<Rightarrow> 'adr ble \<Rightarrow> 'adr ble" where
  "bleCentralInit env b = scan_set env True (b\<lparr>bl_led := False\<rparr>)"

definition printStatus :: "('adr, 'j) hub_env \<Rightarrow> 'adr hub \<Rightarrow> 'adr hub" where
  "printStatus env h =
     (if clock env h - bl_lastPrint (hb_ble h) \<le> 5000 then read_clock h
      else (let h1 = read_clock h
            in (read_clock h1)\<lparr>hb_ble := (hb_ble h1)\<lparr>bl_lastPrint := clock env h1\<rparr>\<rparr>))"

definition bleCentralLoop :: "('adr, 'j) hub_env \<Rightarrow> 'adr hub \<Rightarrow> 'adr hub" where
  "bleCentralLoop env h =
     (let b1 = cleanupDisconnected (hb_ble h);
          b2 = (if bl_doScan b1 then scan_set (he_ble env) True (b1\<lparr>bl_doScan := False\<rparr>) else b1)
      in printStatus env (processNextPending env (h\<lparr>hb_ble := b2\<rparr>)))"

section \<open>No client is lost\<close>

text \<open>A slot that is free, and stays the connection code's own while it works on it.\<close>

definition free_slot :: "nat \<Rightarrow> 'adr ble \<Rightarrow> bool" where
  "free_slot i b \<longleftrightarrow> i < length (bl_nodes b) \<and> \<not> cn_used (bl_nodes b ! i)
     \<and> cn_client (bl_nodes b ! i) = None"

lemma free_slot_shrink: "free_slot i b \<Longrightarrow> slots_shrink b b' \<Longrightarrow> free_slot i b'"
  by (auto simp: free_slot_def slots_shrink_def)

lemma free_slot_call: "free_slot i b \<Longrightarrow> free_slot i (ble_call env b)"
  by (erule free_slot_shrink) (rule slots_shrink_call)

lemma findEmptySlot_Some:
  assumes "findEmptySlot b = Some i"
  shows "i < length (bl_nodes b)" "\<not> cn_used (bl_nodes b ! i)" "\<forall>j < i. cn_used (bl_nodes b ! j)"
  using assms by (auto simp: findEmptySlot_def findSlotIndex_def first_index_Some)

text \<open>
  The client comes from the empty slot itself or from a later one, or it is new; in each case
  the empty slot holds no client afterwards.
\<close>

lemma findReusableClient_None:
  assumes "findEmptySlot b = Some i" and "findReusableClient b = (None, b1)"
  shows "b1 = b" and "free_slot i b"
proof -
  have "findSlotIndex (\<lambda>n. \<not> cn_used n \<and> cn_client n \<noteq> None) b = None"
  proof (cases "findSlotIndex (\<lambda>n. \<not> cn_used n \<and> cn_client n \<noteq> None) b")
    case (Some j)
    with assms(2) findSlotIndex_SomeD(2) [OF Some] show ?thesis
      by (auto simp: findReusableClient_def)
  qed
  note none = this
  show "b1 = b"
    using assms(2) unfolding findReusableClient_def none by simp
  show "free_slot i b"
    using none findEmptySlot_Some [OF assms(1)]
    by (auto simp: free_slot_def findSlotIndex_def first_index_None)
qed

lemma findReusableClient_Some:
  assumes "ble_inv held b" and "findEmptySlot b = Some i" and "findReusableClient b = (Some c, b1)"
  shows "ble_inv (c # held) b1" and "free_slot i b1" and "bl_calls b1 = bl_calls b"
proof -
  obtain j where j: "findSlotIndex (\<lambda>n. \<not> cn_used n \<and> cn_client n \<noteq> None) b = Some j"
    and c: "cn_client (bl_nodes b ! j) = Some c" and b1: "b1 = setNode j (cn_client_update (\<lambda>_. None)) b"
    using assms(3) by (auto simp: findReusableClient_def split: option.splits)
  note jD = findSlotIndex_SomeD [OF j]
  show "ble_inv (c # held) b1"
    unfolding b1 using jD c ble_inv_node [OF assms(1) jD(1)]
    by (intro setNode_take_client [OF assms(1) jD(1) c]) (auto simp: node_ok_def)
  have "cn_client (bl_nodes b ! i) = None \<or> j = i"
    using j findEmptySlot_Some [OF assms(2)]
    by (auto simp: findSlotIndex_def first_index_Some) (metis linorder_neqE_nat option.exhaust)
  then show "free_slot i b1"
    using findEmptySlot_Some [OF assms(2)] jD
    by (auto simp: b1 setNode_def free_slot_def nth_list_update)
  show "bl_calls b1 = bl_calls b"
    by (simp add: b1 setNode_def)
qed

lemma ble_inv_new_client:
  assumes "ble_inv held b"
  shows "ble_inv (bl_created b # held) (b\<lparr>bl_created := Suc (bl_created b)\<rparr>)"
  using assms by (auto simp: ble_inv_def queues_ok_def)

lemma acquireClient_inv:
  assumes "ble_inv held b" and "findEmptySlot b = Some i" and "acquireClient env b = (r, b1)"
  shows "case r of Some c \<Rightarrow> ble_inv (c # held) b1 \<and> free_slot i b1 | None \<Rightarrow> ble_inv held b1"
proof -
  obtain r0 b0 where reuse: "findReusableClient b = (r0, b0)" by fastforce
  show ?thesis
  proof (cases r0)
    case (Some c)
    with reuse assms findReusableClient_Some [OF assms(1,2)] show ?thesis
      by (auto simp: acquireClient_def)
  next
    case None
    note none = findReusableClient_None [OF assms(2) reuse [unfolded None]]
    have "free_slot i (ble_call env (b\<lparr>bl_created := Suc (bl_created b)\<rparr>))"
      using none(2) by (intro free_slot_call) (simp add: free_slot_def)
    with none reuse None assms ble_inv_new_client [OF assms(1)] show ?thesis
      by (auto simp: acquireClient_def ble_call_inv split: if_splits)
  qed
qed

text \<open>There is always room to stash the client: the slot that was found empty.\<close>

lemma stashClient_inv:
  assumes "ble_inv (c # held) b" and "free_slot i b"
  shows "ble_inv held (stashClient c b)"
proof -
  let ?P = "\<lambda>n. \<not> cn_used n \<and> cn_client n = None"
  obtain j where j: "findSlotIndex ?P b = Some j"
    using assms(2) by (cases "findSlotIndex ?P b")
      (auto simp: findSlotIndex_def first_index_None free_slot_def)
  note jD = findSlotIndex_SomeD [OF j]
  have "ble_inv held (setNode j (\<lambda>n. n\<lparr>cn_client := Some c\<rparr>) b)"
    using jD ble_inv_node [OF assms(1) jD(1)]
    by (intro setNode_put_client [OF assms(1) jD(1)]) (auto simp: node_ok_def)
  with j show ?thesis by (simp add: stashClient_def)
qed

lemma disconnectAndStash_inv:
  assumes "ble_inv (c # held) b" and "free_slot i b"
  shows "ble_inv held (disconnectAndStash env c b)"
  using assms unfolding disconnectAndStash_def
  by (intro stashClient_inv ble_call_inv free_slot_call)

lemma discoverAndSubscribe_keeps:
  assumes "\<And>b. P b \<Longrightarrow> P (ble_call env b)" and "P b"
  shows "P (snd (discoverAndSubscribe env b))"
  using assms by (simp add: discoverAndSubscribe_def Let_def)

text \<open>The states that \<open>registerNode\<close> goes through before it flushes.\<close>

definition register_slot ::
  "'adr ble_env \<Rightarrow> nat \<Rightarrow> nat \<Rightarrow> 'adr \<Rightarrow> 'adr ble \<Rightarrow> 'adr ble" where
  "register_slot env slot c addr b =
     (let b1 = setNode slot (\<lambda>n. n\<lparr>cn_client := Some c\<rparr>) b;
          cfg = be_characteristic env TEMPIO_SERVICE_UUID TEMPIO_CHAR_CONFIG_UUID (bl_calls b1)
      in setNode slot (\<lambda>n. n\<lparr>cn_configChar := cfg, cn_addr := addr, cn_used := True\<rparr>) (ble_call env b1))"

definition hub_ready :: "'adr ble_env \<Rightarrow> nat \<Rightarrow> 'adr ble \<Rightarrow> 'adr ble" where
  "hub_ready env slot b =
     (case cn_configChar (bl_nodes b ! slot) of
        None \<Rightarrow> b | Some ch \<Rightarrow> snd (writeValue env b ch (bytes_HubReady \<lparr>hr_type = msg_code HUB_READY\<rparr>)))"

lemma registerNode_steps:
  "registerNode env slot c addr h =
   flushNodePending env (cstr (be_toString (he_ble env) addr))
     (h\<lparr>hb_ble := (hub_ready (he_ble env) slot
                     (ble_call (he_ble env) (register_slot (he_ble env) slot c addr (hb_ble h))))
                     \<lparr>bl_led := True\<rparr>\<rparr>)"
  by (simp add: registerNode_def register_slot_def hub_ready_def Let_def)

lemma register_slot_inv:
  fixes env :: "'adr ble_env" and addr :: 'adr
  assumes "ble_inv (c # held) b" and "free_slot slot b"
  defines "b3 \<equiv> register_slot env slot c addr b"
  shows "ble_inv held b3" and "slot < length (bl_nodes b3)" and "cn_used (bl_nodes b3 ! slot)"
    and "cn_addr (bl_nodes b3 ! slot) = addr"
proof -
  let ?b1 = "setNode slot (\<lambda>n. n\<lparr>cn_client := Some c\<rparr>) b"
  let ?b2 = "ble_call env ?b1"
  have slot: "slot < length (bl_nodes b)" "\<not> cn_used (bl_nodes b ! slot)"
      "cn_client (bl_nodes b ! slot) = None"
    using assms(2) by (simp_all add: free_slot_def)
  have b1: "ble_inv held ?b1"
    using slot ble_inv_node [OF assms(1) slot(1)]
    by (intro setNode_put_client [OF assms(1) slot(1)]) (simp_all add: node_ok_def)
  have nodes: "slot < length (bl_nodes ?b2)" "cn_client (bl_nodes ?b2 ! slot) = Some c"
    using slots_shrink_call [of ?b1 env] slot by (auto simp: slots_shrink_def setNode_def)
  show "ble_inv held b3"
    unfolding b3_def register_slot_def Let_def
    using nodes by (intro setNode_same_client ble_call_inv b1) (simp_all add: node_ok_def)
  show "slot < length (bl_nodes b3)" "cn_used (bl_nodes b3 ! slot)" "cn_addr (bl_nodes b3 ! slot) = addr"
    using nodes by (simp_all add: b3_def register_slot_def setNode_def Let_def)
qed

lemma hub_ready_inv: "ble_inv held b \<Longrightarrow> ble_inv held (hub_ready env slot b)"
  by (simp add: hub_ready_def writeValue_inv split: option.splits)

lemma registerNode_inv:
  assumes "hub_inv (c # held) h" and "free_slot slot (hb_ble h)"
  shows "hub_inv held (registerNode env slot c addr h)"
proof -
  have "hub_inv held (h\<lparr>hb_ble := (hub_ready (he_ble env) slot
      (ble_call (he_ble env) (register_slot (he_ble env) slot c addr (hb_ble h))))\<lparr>bl_led := True\<rparr>\<rparr>)"
    using assms by (simp add: hub_inv_def hub_ready_inv ble_call_inv register_slot_inv)
  then show ?thesis
    by (simp add: registerNode_steps flushNodePending_inv)
qed

lemma connectToNode_inv [tempio_inv]:
  assumes "hub_inv held h"
  shows "hub_inv held (snd (connectToNode env addr h))"
proof (cases "findEmptySlot (hb_ble h)")
  case None
  with assms show ?thesis by (simp add: connectToNode_def)
next
  case (Some slot)
  let ?e = "he_ble env"
  obtain r b1 where acq: "acquireClient ?e (hb_ble h) = (r, b1)" by fastforce
  have acq_inv: "case r of Some c \<Rightarrow> ble_inv (c # held) b1 \<and> free_slot slot b1 | None \<Rightarrow> ble_inv held b1"
    using assms acquireClient_inv [OF _ Some acq] by (simp add: hub_inv_def)
  show ?thesis
  proof (cases r)
    case None
    with assms acq_inv acq Some show ?thesis by (simp add: connectToNode_def hub_inv_def)
  next
    case (Some c)
    let ?b2 = "ble_call ?e b1"
    have b2: "ble_inv (c # held) ?b2 \<and> free_slot slot ?b2"
      using acq_inv Some by (simp add: ble_call_inv free_slot_call)
    obtain ok b3 where disc: "discoverAndSubscribe ?e ?b2 = (ok, b3)" by fastforce
    have b3: "ble_inv (c # held) b3 \<and> free_slot slot b3"
      using b2 discoverAndSubscribe_keeps [of "\<lambda>b. ble_inv (c # held) b \<and> free_slot slot b" ?e ?b2]
      by (simp add: disc ble_call_inv free_slot_call)
    show ?thesis
      using assms \<open>findEmptySlot (hb_ble h) = Some slot\<close> acq Some disc b2 b3
      by (auto simp: connectToNode_def Let_def hub_inv_def
          intro: disconnectAndStash_inv split: bool.splits
          intro!: registerNode_inv [unfolded hub_inv_def])
  qed
qed

end
