(* ===== verification/Ble_Central.thy ===== *)
theory Ble_Central
  imports Ble_Connection
begin

text \<open>
  What the BLE layer guarantees, over all answers and all callbacks of NimBLE: no client is lost,
  shared or created beyond the number of slots; no node sits in two slots; a new connection
  starts with HUB_READY; and the gap in which a lost link goes unnoticed.
\<close>

section \<open>The loop keeps the invariants\<close>

lemma hub_inv_ble: "hub_inv held (h\<lparr>hb_ble := b\<rparr>) \<longleftrightarrow> ble_inv held b \<and> pool_inv (hb_pool h)"
  by (simp add: hub_inv_def)

lemma hub_inv_reads [simp]: "hub_inv held (h\<lparr>hb_reads := n\<rparr>) = hub_inv held h"
  by (simp add: hub_inv_def)

lemma scan_set_inv: "ble_inv held b \<Longrightarrow> ble_inv held (scan_set env on b)"
  by (simp add: scan_set_def ble_call_inv)

lemma pop_pending:
  assumes "ble_inv held b" and "tsq_pop PENDING_MAX (bl_pendingQueue b) = (r, q)"
  shows "ble_inv held (b\<lparr>bl_pendingQueue := q\<rparr>)"
    and "found b = (case r of None \<Rightarrow> [] | Some a \<Rightarrow> a # tsq_items PENDING_MAX q)"
proof -
  have inv: "tsq_inv PENDING_MAX (bl_pendingQueue b)"
    using assms(1) by (simp add: ble_inv_def queues_ok_def)
  have pop: "tsq_popUnsafe PENDING_MAX (bl_pendingQueue b) = (r, q)"
    using assms(2) by (simp add: tsq_unsafe_same)
  show "ble_inv held (b\<lparr>bl_pendingQueue := q\<rparr>)"
    using assms(1) tsq.inv_pop [OF inv] by (simp add: ble_inv_def queues_ok_def pop)
  show "found b = (case r of None \<Rightarrow> [] | Some a \<Rightarrow> a # tsq_items PENDING_MAX q)"
    using tsq.popE(1) [OF inv] tsq.pop_NoneE(1) [OF inv] pop by (cases r) auto
qed

lemma processNextPending_inv [tempio_inv]:
  assumes "hub_inv held h"
  shows "hub_inv held (processNextPending env h)"
proof -
  obtain r q where pop: "tsq_pop PENDING_MAX (bl_pendingQueue (hb_ble h)) = (r, q)" by fastforce
  have b: "ble_inv held ((hb_ble h)\<lparr>bl_pendingQueue := q\<rparr>)"
    using pop_pending(1) [OF _ pop] assms by (simp add: hub_inv_def)
  show ?thesis
  proof (cases r)
    case None
    with pop b assms show ?thesis by (simp add: processNextPending_def hub_inv_def)
  next
    case (Some addr)
    let ?h1 = "h\<lparr>hb_ble := scan_set (he_ble env) False ((hb_ble h)\<lparr>bl_pendingQueue := q\<rparr>)\<rparr>"
    have "hub_inv held ?h1"
      using b assms by (simp add: hub_inv_ble scan_set_inv) (simp add: hub_inv_def)
    then have "hub_inv held (snd (connectToNode env addr ?h1))"
      by (rule connectToNode_inv)
    with pop Some show ?thesis
      by (simp add: processNextPending_def Let_def hub_inv_ble scan_set_inv)
        (simp add: hub_inv_def scan_set_inv)
  qed
qed

lemma printStatus_frame [simp]:
  "hub_inv held (printStatus env h) = hub_inv held h"
  "hb_pool (printStatus env h) = hb_pool h"
  "hb_mqtt (printStatus env h) = hb_mqtt h"
  "bl_writes (hb_ble (printStatus env h)) = bl_writes (hb_ble h)"
  "bl_created (hb_ble (printStatus env h)) = bl_created (hb_ble h)"
  "addr_inv hand (hb_ble (printStatus env h)) = addr_inv hand (hb_ble h)"
  by (simp_all add: printStatus_def read_clock_def Let_def hub_inv_def addr_inv_def used_addrs_def)

lemma bleCentralLoop_inv [tempio_inv]:
  assumes "hub_inv held h"
  shows "hub_inv held (bleCentralLoop env h)"
proof -
  have b: "ble_inv held (cleanupDisconnected (hb_ble h))" and p: "pool_inv (hb_pool h)"
    using assms by (simp_all add: hub_inv_def cleanupDisconnected_inv)
  then show ?thesis
    by (auto simp: bleCentralLoop_def Let_def hub_inv_ble scan_set_inv intro!: processNextPending_inv)
qed

lemma bleCentralInit_inv [tempio_inv]: "ble_inv held b \<Longrightarrow> ble_inv held (bleCentralInit env b)"
  by (simp add: bleCentralInit_def scan_set_inv)

section \<open>No node twice\<close>

lemma used_addrs_setNode:
  assumes "i < length (bl_nodes b)" and "cn_used (f (bl_nodes b ! i)) = cn_used (bl_nodes b ! i)"
    and "cn_addr (f (bl_nodes b ! i)) = cn_addr (bl_nodes b ! i)"
  shows "used_addrs (setNode i f b) = used_addrs b"
  using assms by (simp add: used_addrs_def setNode_def table_keys_split(2) table_keys_split(1) [OF assms(1)])

lemma addr_inv_setNode:
  assumes "i < length (bl_nodes b)" and "cn_used (f (bl_nodes b ! i)) = cn_used (bl_nodes b ! i)"
    and "cn_addr (f (bl_nodes b ! i)) = cn_addr (bl_nodes b ! i)"
  shows "addr_inv hand (setNode i f b) = addr_inv hand b"
  using used_addrs_setNode [of i b f, OF assms] by (simp add: addr_inv_def) (simp add: setNode_def)

lemma addr_inv_fields [simp]:
  "addr_inv hand (b\<lparr>bl_created := k\<rparr>) = addr_inv hand b"
  "addr_inv hand (b\<lparr>bl_led := l\<rparr>) = addr_inv hand b"
  "addr_inv hand (b\<lparr>bl_doScan := d\<rparr>) = addr_inv hand b"
  "addr_inv hand (b\<lparr>bl_writes := w\<rparr>) = addr_inv hand b"
  by (simp_all add: addr_inv_def used_addrs_def)

lemma addr_inv_drop: "addr_inv (a # hand) b \<Longrightarrow> addr_inv hand b"
  by (auto simp: addr_inv_def)

lemma stashClient_addr [simp]: "addr_inv hand (stashClient c b) = addr_inv hand b"
  by (auto simp: stashClient_def addr_inv_setNode dest: findSlotIndex_SomeD(1) split: option.splits)

lemma findReusableClient_addr:
  "findReusableClient b = (r, b1) \<Longrightarrow> addr_inv hand b1 = addr_inv hand b"
  by (auto simp: findReusableClient_def addr_inv_setNode dest: findSlotIndex_SomeD(1)
      split: option.splits)

lemma writeValue_addr:
  assumes "ble_inv held b" and "addr_inv hand b" and "hand \<noteq> [] \<Longrightarrow> \<not> be_late env"
  shows "addr_inv hand (snd (writeValue env b ch d))"
  using assms by (simp add: writeValue_def Let_def addr_inv_call)

lemma cleanupDisconnected_addr: "ble_inv held b \<Longrightarrow> addr_inv hand (cleanupDisconnected b) = addr_inv hand b"
  by (simp add: cleanupDisconnected_idle)

lemma scan_set_addr:
  assumes "ble_inv held b" and "addr_inv hand b" and "hand \<noteq> [] \<Longrightarrow> \<not> be_late env" and "on \<Longrightarrow> hand = []"
  shows "addr_inv hand (scan_set env on b)"
  using assms unfolding scan_set_def
  by (intro addr_inv_call) (auto simp: addr_inv_def used_addrs_def)

text \<open>Registering moves the address from the hand into the slot.\<close>

lemma setNode_use_addr:
  assumes "slot < length (bl_nodes b)" and "\<not> cn_used (bl_nodes b ! slot)" and "addr_inv hand b"
    and "addr \<notin> set (hand @ found b @ used_addrs b)"
  shows "addr_inv hand (setNode slot (\<lambda>n. n\<lparr>cn_configChar := cfg, cn_addr := addr, cn_used := True\<rparr>) b)"
proof -
  let ?f = "\<lambda>n. n\<lparr>cn_configChar := cfg, cn_addr := addr, cn_used := True\<rparr>"
  have "used_addrs (setNode slot ?f b) = table_keys cn_used cn_addr (take slot (bl_nodes b))
      @ [addr] @ table_keys cn_used cn_addr (drop (Suc slot) (bl_nodes b))"
    using assms(1) by (simp add: used_addrs_def setNode_def table_keys_split(2))
  moreover have "used_addrs b = table_keys cn_used cn_addr (take slot (bl_nodes b))
      @ table_keys cn_used cn_addr (drop (Suc slot) (bl_nodes b))"
    using assms(1,2) by (simp add: used_addrs_def table_keys_split(1))
  ultimately show ?thesis
    using assms(3,4) by (auto simp: addr_inv_def) (auto simp: setNode_def)
qed

lemma register_slot_addr:
  assumes "ble_inv (c # held) b" and "free_slot slot b" and "addr_inv (addr # hand) b"
    and "\<not> be_late env"
  shows "addr_inv hand (register_slot env slot c addr b)"
proof -
  let ?b1 = "setNode slot (\<lambda>n. n\<lparr>cn_client := Some c\<rparr>) b"
  have slot: "slot < length (bl_nodes b)" "\<not> cn_used (bl_nodes b ! slot)"
      "cn_client (bl_nodes b ! slot) = None"
    using assms(2) by (simp_all add: free_slot_def)
  have b1: "ble_inv held ?b1"
    using slot ble_inv_node [OF assms(1) slot(1)]
    by (intro setNode_put_client [OF assms(1) slot(1)]) (simp_all add: node_ok_def)
  have "addr_inv (addr # hand) ?b1"
    using assms(3) addr_inv_setNode [OF slot(1), of "\<lambda>n. n\<lparr>cn_client := Some c\<rparr>"] by simp
  then have "addr_inv (addr # hand) (ble_call env ?b1)"
    using b1 assms(4) by (intro addr_inv_call)
  moreover have "slot < length (bl_nodes (ble_call env ?b1))" "\<not> cn_used (bl_nodes (ble_call env ?b1) ! slot)"
    using slots_shrink_call [of ?b1 env] slot by (auto simp: slots_shrink_def setNode_def)
  ultimately show ?thesis
    using setNode_use_addr [of slot "ble_call env ?b1" hand addr] by (auto simp: register_slot_def Let_def addr_inv_def)
qed

lemma hub_ready_addr:
  "ble_inv held b \<Longrightarrow> addr_inv hand b \<Longrightarrow> (hand \<noteq> [] \<Longrightarrow> \<not> be_late env) \<Longrightarrow> addr_inv hand (hub_ready env slot b)"
  by (auto simp: hub_ready_def writeValue_addr split: option.splits)

lemma registerNode_addr:
  assumes "hub_inv (c # held) h" and "free_slot slot (hb_ble h)" and "addr_inv (addr # hand) (hb_ble h)"
    and "\<not> be_late (he_ble env)"
  shows "addr_inv hand (hb_ble (registerNode env slot c addr h))"
proof -
  let ?b = "ble_call (he_ble env) (register_slot (he_ble env) slot c addr (hb_ble h))"
  have inv: "ble_inv (c # held) (hb_ble h)" using assms(1) by (simp add: hub_inv_def)
  have "ble_inv held ?b" "addr_inv hand ?b"
    using register_slot_inv(1) [OF inv assms(2)] register_slot_addr [OF inv assms(2-4)] assms(4)
    by (auto intro: ble_call_inv addr_inv_call)
  then have "ble_inv held (hub_ready (he_ble env) slot ?b)" "addr_inv hand (hub_ready (he_ble env) slot ?b)"
    using assms(4) by (simp_all add: hub_ready_inv hub_ready_addr)
  then show ?thesis
    unfolding registerNode_steps using assms(4)
    by (intro flushNodePending_addr_inv) auto
qed

lemma acquireClient_addr:
  assumes "ble_inv held b" and "addr_inv hand b" and "hand \<noteq> [] \<Longrightarrow> \<not> be_late env" and "acquireClient env b = (r, b1)"
  shows "addr_inv hand b1"
proof -
  obtain r0 b0 where reuse: "findReusableClient b = (r0, b0)" by fastforce
  show ?thesis
  proof (cases r0)
    case (Some c)
    with assms(2,4) reuse findReusableClient_addr [OF reuse, of hand] show ?thesis
      by (simp add: acquireClient_def)
  next
    case None
    then have "b0 = b"
      using reuse by (auto simp: findReusableClient_def dest: findSlotIndex_SomeD(2) split: option.splits)
    then have "b1 = ble_call env b \<or> b1 = ble_call env (b\<lparr>bl_created := Suc (bl_created b)\<rparr>)"
      using assms(4) reuse None by (auto simp: acquireClient_def split: if_splits)
    then show ?thesis
      using ble_inv_new_client [OF assms(1)] assms(1-3) by (auto intro: addr_inv_call)
  qed
qed

lemma connectToNode_addr:
  assumes "hub_inv held h" and "addr_inv (addr # hand) (hb_ble h)" and "\<not> be_late (he_ble env)"
  shows "addr_inv hand (hb_ble (snd (connectToNode env addr h)))"
proof (cases "findEmptySlot (hb_ble h)")
  case None
  with assms(2) show ?thesis by (simp add: connectToNode_def addr_inv_drop)
next
  case (Some slot)
  let ?e = "he_ble env" and ?b = "hb_ble h"
  have inv: "ble_inv held ?b" using assms(1) by (simp add: hub_inv_def)
  obtain r b1 where acq: "acquireClient ?e ?b = (r, b1)" by fastforce
  have acq_inv: "case r of Some c \<Rightarrow> ble_inv (c # held) b1 \<and> free_slot slot b1 | None \<Rightarrow> ble_inv held b1"
    by (rule acquireClient_inv [OF inv Some acq])
  have a1: "addr_inv (addr # hand) b1"
    by (rule acquireClient_addr [OF inv assms(2,3) acq])
  show ?thesis
  proof (cases r)
    case None
    with a1 acq Some show ?thesis by (simp add: connectToNode_def addr_inv_drop)
  next
    case (Some c)
    let ?P = "\<lambda>b. ble_inv (c # held) b \<and> free_slot slot b \<and> addr_inv (addr # hand) b"
    have call: "?P b \<Longrightarrow> ?P (ble_call ?e b)" for b
      using assms(3) by (auto intro: ble_call_inv free_slot_call addr_inv_call)
    have b2: "?P (ble_call ?e b1)"
      using acq_inv Some a1 by (intro call) simp
    obtain ok b3 where disc: "discoverAndSubscribe ?e (ble_call ?e b1) = (ok, b3)" by fastforce
    have b3: "?P b3"
      using discoverAndSubscribe_keeps [of ?P ?e "ble_call ?e b1"] call b2 by (simp add: disc)
    have stash: "addr_inv hand (disconnectAndStash ?e c b)" if "?P b" for b
      using call [OF that] by (auto simp: disconnectAndStash_def dest: addr_inv_drop)
    have reg: "addr_inv hand (hb_ble (registerNode env slot c addr (h\<lparr>hb_ble := b3\<rparr>)))"
      using b3 assms(1,3) by (intro registerNode_addr) (auto simp: hub_inv_def)
    show ?thesis
      using \<open>findEmptySlot ?b = Some slot\<close> acq Some disc stash [OF b2] stash [OF b3] reg
      by (cases ok) (auto simp: connectToNode_def Let_def)
  qed
qed

lemma bleCentralLoop_addr:
  assumes "hub_inv held h" and "addr_inv [] (hb_ble h)" and "\<not> be_late (he_ble env)"
  shows "addr_inv [] (hb_ble (bleCentralLoop env h))"
proof -
  let ?e = "he_ble env"
  define b2 where "b2 = (if bl_doScan (hb_ble h)
    then scan_set ?e True ((hb_ble h)\<lparr>bl_doScan := False\<rparr>) else hb_ble h)"
  have inv: "ble_inv held (hb_ble h)" using assms(1) by (simp add: hub_inv_def)
  have b2: "ble_inv held b2" "addr_inv [] b2"
    using inv assms(2,3) by (auto simp: b2_def scan_set_inv intro!: scan_set_addr)
  have loop: "bleCentralLoop env h = printStatus env (processNextPending env (h\<lparr>hb_ble := b2\<rparr>))"
    using cleanupDisconnected_idle [OF inv] by (simp add: bleCentralLoop_def b2_def Let_def)
  obtain r q where pop: "tsq_pop PENDING_MAX (bl_pendingQueue b2) = (r, q)" by fastforce
  note popD = pop_pending [OF b2(1) pop]
  have "addr_inv [] (hb_ble (processNextPending env (h\<lparr>hb_ble := b2\<rparr>)))"
  proof (cases r)
    case None
    then have "tsq_items PENDING_MAX q = []"
      using tsq.pop_NoneE(2) [of PENDING_MAX "bl_pendingQueue b2" q] pop b2(1)
      by (simp add: ble_inv_def queues_ok_def tsq_unsafe_same)
    with None pop b2(2) popD(2) show ?thesis
      by (simp add: processNextPending_def addr_inv_def used_addrs_def)
  next
    case (Some addr)
    let ?b3 = "ble_call ?e (b2\<lparr>bl_pendingQueue := q, bl_scanning := False\<rparr>)"
    have "addr_inv [addr] (b2\<lparr>bl_pendingQueue := q, bl_scanning := False\<rparr>)"
      using b2(2) popD(2) Some by (auto simp: addr_inv_def used_addrs_def)
    moreover have b3i: "ble_inv held (b2\<lparr>bl_pendingQueue := q, bl_scanning := False\<rparr>)"
      using popD(1) by simp
    ultimately have b3: "addr_inv [addr] ?b3" "ble_inv held ?b3"
      using assms(3) by (auto intro: addr_inv_call ble_call_inv)
    let ?h3 = "h\<lparr>hb_ble := ?b3\<rparr>"
    have h3: "hub_inv held ?h3"
      using b3(2) assms(1) by (simp add: hub_inv_def)
    have "addr_inv [] (hb_ble (snd (connectToNode env addr ?h3)))"
      using connectToNode_addr [OF h3, of addr "[]" env] b3(1) assms(3) by simp
    moreover have "ble_inv held (hb_ble (snd (connectToNode env addr ?h3)))"
      using connectToNode_inv [OF h3, of env addr] by (simp add: hub_inv_def)
    ultimately show ?thesis
      using pop Some assms(3)
      by (auto simp: processNextPending_def Let_def scan_set_def
          intro!: scan_set_addr [unfolded scan_set_def])
  qed
  with loop show ?thesis by simp
qed

section \<open>HUB_READY comes first\<close>

lemma setNode_frame [simp]:
  "bl_writes (setNode i f b) = bl_writes b" "bl_created (setNode i f b) = bl_created b"
  "bl_calls (setNode i f b) = bl_calls b" "bl_scanning (setNode i f b) = bl_scanning b"
  by (simp_all add: setNode_def)

lemma connect_steps_writes [simp]:
  "bl_writes (stashClient c b) = bl_writes b"
  "bl_writes (disconnectAndStash env c b) = bl_writes b"
  "bl_writes (snd (acquireClient env b)) = bl_writes b"
  "bl_writes (snd (discoverAndSubscribe env b)) = bl_writes b"
  "bl_writes (register_slot env slot c addr b) = bl_writes b"
  "bl_writes (scan_set env on b) = bl_writes b"
  by (auto simp: stashClient_def disconnectAndStash_def acquireClient_def discoverAndSubscribe_def
      findReusableClient_def register_slot_def scan_set_def Let_def split: option.splits)

lemma trySend_writes_prefix: "\<exists>w. bl_writes (snd (trySend env js c b)) = bl_writes b @ w"
  using trySend_log [of env js c b] by (cases "trySend env js c b") auto

lemma trySend_writes_mono:
  "\<exists>w. bl_writes b = ws @ w \<Longrightarrow> \<exists>w. bl_writes (snd (trySend env js c b)) = ws @ w"
  using trySend_writes_prefix [of env js c b] by auto

lemma flushNodePending_writes: "\<exists>w. bl_writes (hb_ble (flushNodePending env node h)) = bl_writes (hb_ble h) @ w"
  by (rule flushNodePending_keeps(1) [of "\<lambda>b. \<exists>w. bl_writes b = bl_writes (hb_ble h) @ w"])
    (rule trySend_writes_mono, assumption, simp)

text \<open>
  \<open>steady\<close>: no link is lost, and the configuration characteristic is found.  Then a slot in use keeps
  its address and its characteristic through every call.
\<close>

definition steady :: "'adr ble_env \<Rightarrow> bool" where
  "steady env \<longleftrightarrow> (\<forall>n c. Disconnected c \<notin> set (be_events env n))
     \<and> (\<forall>n. be_characteristic env TEMPIO_SERVICE_UUID TEMPIO_CHAR_CONFIG_UUID n \<noteq> None)"

definition slot_has :: "nat \<Rightarrow> 'adr \<Rightarrow> nat \<Rightarrow> 'adr ble \<Rightarrow> bool" where
  "slot_has slot addr ch b \<longleftrightarrow> slot < length (bl_nodes b) \<and> cn_used (bl_nodes b ! slot)
     \<and> cn_addr (bl_nodes b ! slot) = addr \<and> cn_configChar (bl_nodes b ! slot) = Some ch"

lemma slot_has_fields [simp]:
  "slot_has slot addr ch (b\<lparr>bl_led := l\<rparr>) = slot_has slot addr ch b"
  "slot_has slot addr ch (b\<lparr>bl_calls := n\<rparr>) = slot_has slot addr ch b"
  "slot_has slot addr ch (b\<lparr>bl_writes := w\<rparr>) = slot_has slot addr ch b"
  "slot_has slot addr ch (b\<lparr>bl_pendingQueue := q\<rparr>) = slot_has slot addr ch b"
  by (simp_all add: slot_has_def)

lemma slot_has_event:
  assumes "slot_has slot addr ch b" and "\<forall>c. e \<noteq> Disconnected c"
  shows "slot_has slot addr ch (run_event env e b)"
proof (cases e)
  case (Notified src data rssi)
  let ?b = "onDataNotify (be_toString env) src data rssi b"
  have len: "length (bl_nodes ?b) = length (bl_nodes b)"
    using onDataNotify_nodes(1) by (metis length_map)
  have eq: "f (bl_nodes ?b ! slot) = f (bl_nodes b ! slot)"
    if "map f (bl_nodes ?b) = map f (bl_nodes b)" for f :: "'a ConnectedNode \<Rightarrow> 'c"
    using that assms(1) len unfolding slot_has_def by (metis length_map nth_map)
  show ?thesis
    using Notified assms(1) len eq [OF onDataNotify_nodes(1)] eq [OF onDataNotify_nodes(3)]
      eq [OF onDataNotify_nodes(4)]
    by (simp add: slot_has_def)
qed (use assms in \<open>auto simp: onResult_def\<close>)

lemma slot_has_call:
  assumes "slot_has slot addr ch b" and "steady env"
  shows "slot_has slot addr ch (ble_call env b)"
proof -
  have "slot_has slot addr ch (run_events env es b)" if "slot_has slot addr ch b" "\<forall>c. Disconnected c \<notin> set es" for es b
    using that unfolding run_events_def
  proof (induction es arbitrary: b)
    case (Cons e es)
    then have "slot_has slot addr ch (run_event env e b)" by (intro slot_has_event) auto
    with Cons show ?case by simp
  qed simp
  with assms show ?thesis by (simp add: ble_call_def steady_def)
qed

lemma slot_has_send:
  assumes "slot_has slot addr ch b" and "steady env"
  shows "slot_has slot addr ch (snd (trySend env js c b))"
  using assms slot_has_call [OF _ assms(2)]
  by (auto simp: trySend_packet bleSendToNode_def writeValue_def Let_def split: option.splits)

text \<open>A registration writes HUB_READY, and then what is pending.\<close>

lemma registerNode_steady:
  assumes "steady (he_ble env)" and "slot < length (bl_nodes (hb_ble h))"
  shows "\<exists>ch sent w. slot_has slot addr ch (hb_ble (registerNode env slot c addr h))
    \<and> bl_writes (hb_ble (registerNode env slot c addr h)) = bl_writes (hb_ble h)
        @ (ch, bytes_HubReady \<lparr>hr_type = msg_code HUB_READY\<rparr>, sent) # w"
proof -
  let ?e = "he_ble env" and ?node = "cstr (be_toString (he_ble env) addr)"
  let ?b1 = "setNode slot (\<lambda>n. n\<lparr>cn_client := Some c\<rparr>) (hb_ble h)"
  let ?b4 = "ble_call ?e (register_slot ?e slot c addr (hb_ble h))"
  let ?h5 = "h\<lparr>hb_ble := (hub_ready ?e slot ?b4)\<lparr>bl_led := True\<rparr>\<rparr>"
  obtain ch where ch: "be_characteristic ?e TEMPIO_SERVICE_UUID TEMPIO_CHAR_CONFIG_UUID (bl_calls ?b1) = Some ch"
    using assms(1) unfolding steady_def by (metis option.exhaust)
  have "slot < length (bl_nodes (ble_call ?e ?b1))"
    using assms(2) slots_shrink_call [of ?b1 ?e] by (simp add: slots_shrink_def setNode_def)
  then have "slot_has slot addr ch (register_slot ?e slot c addr (hb_ble h))"
    using ch by (simp add: register_slot_def Let_def slot_has_def setNode_def)
  then have b4: "slot_has slot addr ch ?b4" by (rule slot_has_call [OF _ assms(1)])
  then have b5: "hub_ready ?e slot ?b4 = snd (writeValue ?e ?b4 ch (bytes_HubReady \<lparr>hr_type = msg_code HUB_READY\<rparr>))"
    by (simp add: hub_ready_def slot_has_def)
  have has: "slot_has slot addr ch (hb_ble ?h5)"
    using slot_has_call [OF _ assms(1)] b4 unfolding b5 by (simp add: writeValue_def Let_def)
  obtain sent where "bl_writes (hb_ble ?h5) = bl_writes (hb_ble h)
      @ [(ch, bytes_HubReady \<lparr>hr_type = msg_code HUB_READY\<rparr>, sent)]"
    unfolding b5 by (simp add: writeValue_def Let_def)
  moreover obtain w where "bl_writes (hb_ble (flushNodePending env ?node ?h5)) = bl_writes (hb_ble ?h5) @ w"
    using flushNodePending_writes by blast
  moreover have "slot_has slot addr ch (hb_ble (flushNodePending env ?node ?h5))"
    by (rule flushNodePending_keeps(1) [of "slot_has slot addr ch", OF slot_has_send [OF _ assms(1)] has])
  ultimately show ?thesis by (auto simp: registerNode_steps)
qed

lemma connectToNode_steady:
  assumes "hub_inv held h" and "steady (he_ble env)" and "connectToNode env addr h = (ok, h')"
  shows "if ok
    then \<exists>slot ch sent w. slot_has slot addr ch (hb_ble h') \<and> bl_writes (hb_ble h') = bl_writes (hb_ble h)
           @ (ch, bytes_HubReady \<lparr>hr_type = msg_code HUB_READY\<rparr>, sent) # w
    else bl_writes (hb_ble h') = bl_writes (hb_ble h)"
proof (cases "findEmptySlot (hb_ble h)")
  case None
  with assms(3) show ?thesis by (auto simp: connectToNode_def)
next
  case (Some slot)
  let ?e = "he_ble env" and ?b = "hb_ble h"
  have inv: "ble_inv held ?b" using assms(1) by (simp add: hub_inv_def)
  obtain r b1 where acq: "acquireClient ?e ?b = (r, b1)" by fastforce
  have acq_inv: "case r of Some c \<Rightarrow> ble_inv (c # held) b1 \<and> free_slot slot b1 | None \<Rightarrow> ble_inv held b1"
    by (rule acquireClient_inv [OF inv Some acq])
  have w1: "bl_writes b1 = bl_writes ?b"
    using connect_steps_writes(3) [of ?e ?b] acq by simp
  show ?thesis
  proof (cases r)
    case None
    with acq Some w1 assms(3) show ?thesis by (auto simp: connectToNode_def)
  next
    case (Some c)
    obtain found b3 where disc: "discoverAndSubscribe ?e (ble_call ?e b1) = (found, b3)" by fastforce
    have w3: "bl_writes b3 = bl_writes ?b"
      using connect_steps_writes(4) [of ?e "ble_call ?e b1"] w1 by (simp add: disc)
    have "free_slot slot b3"
      using discoverAndSubscribe_keeps [of "free_slot slot" ?e "ble_call ?e b1"] acq_inv Some
      by (simp add: disc free_slot_call)
    then have "slot < length (bl_nodes (hb_ble (h\<lparr>hb_ble := b3\<rparr>)))" by (simp add: free_slot_def)
    note reg = registerNode_steady [OF assms(2) this, of addr c]
    show ?thesis
      using \<open>findEmptySlot ?b = Some slot\<close> acq Some disc w1 w3 assms(3) reg
      by (cases found) (auto simp: connectToNode_def Let_def split: if_splits)
  qed
qed

section \<open>The BLE layer after \<open>bleCentralInit\<close>\<close>

lemma bleCentralInit_boot:
  assumes "boot_mem pmem rmem amem"
  shows "ble_inv [] (bleCentralInit env (ble_boot addr0 pmem rmem amem))"
    and "addr_inv [] (bleCentralInit env (ble_boot addr0 pmem rmem amem))"
proof -
  let ?b = "(ble_boot addr0 pmem rmem amem)\<lparr>bl_led := False\<rparr>"
  have inv: "ble_inv [] ?b"
    using assms by (simp add: ble_inv_boot)
  then show "ble_inv [] (bleCentralInit env (ble_boot addr0 pmem rmem amem))"
    by (simp add: bleCentralInit_def scan_set_inv)
  have "addr_inv [] ?b"
    by (simp add: addr_inv_def ble_boot_def used_addrs_def table_keys_def)
  then show "addr_inv [] (bleCentralInit env (ble_boot addr0 pmem rmem amem))"
    unfolding bleCentralInit_def using inv by (intro scan_set_addr) simp_all
qed

section \<open>Properties\<close>

lemma example_boot_mem:
  "boot_mem (replicate 8 []) (replicate 8 SensorReport_init) (replicate 4 CmdAckReport_init)"
  by (simp add: boot_mem_def config_defs)

text \<open>
  C22: what \<open>connectToNode\<close> writes, when no other task comes between (\<open>command_overtakes_hub_ready\<close> shows what the MQTT
  task may do), no link is lost meanwhile and the node has its configuration characteristic: nothing at all if the
  attempt fails; if it succeeds, HUB_READY first, to the configuration characteristic of the slot that the node has
  got, and the pending commands only after it.
\<close>

theorem hub_ready_first:
  assumes "hub_inv held h" and "connectToNode env addr h = (ok, h')"
    and "\<And>n c. Disconnected c \<notin> set (be_events (he_ble env) n)"
    and "\<And>n. be_characteristic (he_ble env) TEMPIO_SERVICE_UUID TEMPIO_CHAR_CONFIG_UUID n \<noteq> None"
  shows "if ok
    then \<exists>n ch sent w. n \<in> set (bl_nodes (hb_ble h')) \<and> cn_used n \<and> cn_addr n = addr \<and> cn_configChar n = Some ch
           \<and> bl_writes (hb_ble h') = bl_writes (hb_ble h)
               @ (ch, bytes_HubReady \<lparr>hr_type = msg_code HUB_READY\<rparr>, sent) # w
    else bl_writes (hb_ble h') = bl_writes (hb_ble h)"
proof -
  have "steady (he_ble env)" using assms(3,4) by (simp add: steady_def del: not_None_eq)
  from connectToNode_steady [OF assms(1) this assms(2)] show ?thesis
    unfolding slot_has_def by (metis nth_mem)
qed

lemma example_ble_inv: "ble_inv [] example_ble" "addr_inv [''bb''] example_ble"
  by (auto simp: ble_inv_def addr_inv_def used_addrs_def table_keys_def example_ble_def setNode_def
      ble_boot_def config_defs node_ok_def queues_ok_def numeral_eq_Suc intro!: tsq_inv_new)

theorem hub_ready_first_witness:
  "\<exists>h' n ch sent w. connectToNode example_hub_env ''bb'' (example_hub (pool_new example_mem)) = (True, h')
     \<and> n \<in> set (bl_nodes (hb_ble h')) \<and> cn_used n \<and> cn_addr n = ''bb'' \<and> cn_configChar n = Some ch
     \<and> bl_writes (hb_ble h') = bl_writes example_ble @ (ch, bytes_HubReady \<lparr>hr_type = msg_code HUB_READY\<rparr>, sent) # w"
proof -
  let ?h = "example_hub (pool_new example_mem)"
  have "fst (connectToNode example_hub_env ''bb'' ?h)" by code_simp
  then obtain h' where conn: "connectToNode example_hub_env ''bb'' ?h = (True, h')"
    by (metis (full_types) fst_conv old.prod.exhaust)
  have inv: "hub_inv [] ?h"
    using example_ble_inv(1) pool_inv_new [OF example_mem_ok] by (simp add: hub_inv_def)
  from hub_ready_first [OF inv conn] show ?thesis
    using conn by (auto simp: example_hub_env_def example_env_def)
qed

text \<open>
  C27: a link that is lost before the slot is marked as used goes unnoticed: the disconnect callback
  finds no slot for the client and changes none, and the slot is then filled for a node that is
  gone, which counts as connected from then on.
\<close>

theorem early_disconnect_unnoticed:
  assumes "ble_inv (c # held) b" and "free_slot slot b"
  shows "bl_nodes (onDisconnect c b) = bl_nodes b
    \<and> isAlreadyConnected (register_slot env slot c addr (onDisconnect c b)) addr"
proof -
  have "findSlotByClient b c = None"
  proof (cases "findSlotByClient b c")
    case (Some i)
    note iD = findSlotByClient_Some [OF Some]
    then have "c \<in> set (clients (bl_nodes b))"
      using clients_split(1) [OF iD(1)] by simp
    with assms(1) show ?thesis by (auto simp: ble_inv_def)
  qed
  then have same: "bl_nodes (onDisconnect c b) = bl_nodes b"
    by (simp add: onDisconnect_def)
  have "ble_inv (c # held) (onDisconnect c b)" and "free_slot slot (onDisconnect c b)"
    using assms same by (auto simp: onDisconnect_inv free_slot_def)
  note slot = register_slot_inv(2-4) [OF this, of env addr]
  then have "addr \<in> set (used_addrs (register_slot env slot c addr (onDisconnect c b)))"
    by (force simp: used_addrs_def table_keys_def in_set_conv_nth)
  with same show ?thesis by (simp add: isAlreadyConnected_iff)
qed

theorem early_disconnect_unnoticed_witness:
  "isAlreadyConnected (register_slot example_env 0 0 ''bb''
     (onDisconnect 0 ((ble_boot [] (replicate 8 []) (replicate 8 SensorReport_init)
        (replicate 4 CmdAckReport_init))\<lparr>bl_created := 1\<rparr>))) ''bb''"
proof -
  let ?b = "(ble_boot [] (replicate 8 []) (replicate 8 SensorReport_init)
        (replicate 4 CmdAckReport_init))\<lparr>bl_created := 1\<rparr>"
  have "ble_inv [0] ?b" and "free_slot 0 ?b"
    using ble_inv_new_client [OF ble_inv_boot [OF example_boot_mem, of "[]"]]
    by (simp_all add: ble_boot_def free_slot_def config_defs)
  from early_disconnect_unnoticed [OF this] show ?thesis by blast
qed

end
