(* ===== verification/Gatt_Profile.thy ===== *)
theory Gatt_Profile
  imports Ble_Central
begin

text \<open>
  What the two ends of a BLE connection have to agree on: the service that the sensor node creates in
  \<open>ble_peripheral_init\<close>, and what the hub looks for in a scan result (\<open>onResult\<close>), in \<open>discoverAndSubscribe\<close> and
  in \<open>registerNode\<close>.  Also the parameters of the hub's scanner and link.
\<close>

section \<open>Profiles\<close>




section \<open>What the hub relies on\<close>



lemma uuids_differ [simp]:
  "TEMPIO_CHAR_DATA_UUID \<noteq> TEMPIO_CHAR_CONFIG_UUID" "TEMPIO_CHAR_CONFIG_UUID \<noteq> TEMPIO_CHAR_DATA_UUID"
  by (simp_all add: TEMPIO_CHAR_DATA_UUID_def TEMPIO_CHAR_CONFIG_UUID_def)


section \<open>The scanner and the link\<close>

definition BLE_SCAN_INTERVAL :: int where "BLE_SCAN_INTERVAL = 100"
definition BLE_SCAN_WINDOW :: int where "BLE_SCAN_WINDOW = 99"
definition BLE_MTU :: int where "BLE_MTU = 512"

record scan_params =
  sp_callbacks :: bool
  sp_active :: bool
  sp_interval :: int
  sp_window :: int

definition bleConnectionInit :: "scan_params \<Rightarrow> scan_params" where
  "bleConnectionInit p = p\<lparr>sp_callbacks := True, sp_active := True, sp_interval := BLE_SCAN_INTERVAL,
     sp_window := BLE_SCAN_WINDOW\<rparr>"

text \<open>A window may not be longer than the interval; a write needs three bytes of the MTU for itself.\<close>

lemma scan_params_valid:
  "0 < sp_window (bleConnectionInit p)" "sp_window (bleConnectionInit p) \<le> sp_interval (bleConnectionInit p)"
  "int BLE_MAX_WRITE_SIZE + 3 \<le> BLE_MTU"
  by (simp_all add: bleConnectionInit_def BLE_SCAN_INTERVAL_def BLE_SCAN_WINDOW_def BLE_MTU_def
      BLE_MAX_WRITE_SIZE_def)

section \<open>Properties\<close>




end
