(* ===== verification/Mqtt_Handler.thy ===== *)
theory Mqtt_Handler
  imports Cmd_Flush
begin

text \<open>
  The event side of \<^verbatim>\<open>net/mqtt_handler.cpp\<close>: ESP-IDF's MQTT task calls \<open>mqttEventDispatch\<close>, which looks
  the event up in a table of handlers; received data goes to the command layer if it is a
  complete message.
\<close>

section \<open>Events\<close>

datatype mqtt_event_id = MQTT_EVENT_CONNECTED | MQTT_EVENT_DISCONNECTED | MQTT_EVENT_DATA
  | MQTT_EVENT_ERROR | MQTT_EVENT_OTHER nat

record mqtt_event =
  ev_topic_len :: int
  ev_data :: string
  ev_data_len :: int
  ev_total_data_len :: int

definition on_mqtt :: "(mqtt \<Rightarrow> mqtt) \<Rightarrow> 'adr hub \<Rightarrow> 'adr hub" where
  "on_mqtt f h = h\<lparr>hb_mqtt := f (hb_mqtt h)\<rparr>"

definition onData :: "('adr, 'j) hub_env \<Rightarrow> mqtt_event \<Rightarrow> 'adr hub \<Rightarrow> 'adr hub" where
  "onData env ev h =
     (if ev_topic_len ev > 0 \<and> ev_data_len ev > 0 \<and> ev_data_len ev = ev_total_data_len ev
      then parseAndDispatchCommands env (ev_data ev) (nat (ev_data_len ev)) h else h)"

definition onError :: "mqtt_event \<Rightarrow> 'adr hub \<Rightarrow> 'adr hub" where
  "onError ev h = h"

definition eventHandlers ::
  "('adr, 'j) hub_env \<Rightarrow> (mqtt_event_id \<times> (mqtt_event \<Rightarrow> 'adr hub \<Rightarrow> 'adr hub)) list" where
  "eventHandlers env =
     [(MQTT_EVENT_CONNECTED, \<lambda>ev. on_mqtt onConnected),
      (MQTT_EVENT_DISCONNECTED, \<lambda>ev. on_mqtt onDisconnected),
      (MQTT_EVENT_DATA, onData env),
      (MQTT_EVENT_ERROR, onError)]"

definition mqttEventDispatch ::
  "('adr, 'j) hub_env \<Rightarrow> mqtt_event_id \<Rightarrow> mqtt_event \<Rightarrow> 'adr hub \<Rightarrow> 'adr hub" where
  "mqttEventDispatch env event_id ev h =
     (case find (\<lambda>(i, handler). i = event_id) (eventHandlers env) of
        None \<Rightarrow> h
      | Some (i, handler) \<Rightarrow> handler ev h)"

section \<open>What an event does\<close>

lemma mqttEventDispatch_simps [simp]:
  "mqttEventDispatch env MQTT_EVENT_CONNECTED ev h = on_mqtt onConnected h"
  "mqttEventDispatch env MQTT_EVENT_DISCONNECTED ev h = on_mqtt onDisconnected h"
  "mqttEventDispatch env MQTT_EVENT_DATA ev h = onData env ev h"
  "mqttEventDispatch env MQTT_EVENT_ERROR ev h = h"
  "mqttEventDispatch env (MQTT_EVENT_OTHER n) ev h = h"
  by (simp_all add: mqttEventDispatch_def eventHandlers_def onError_def)

lemma on_mqtt_frame [simp]:
  "hb_ble (on_mqtt f h) = hb_ble h" "hb_pool (on_mqtt f h) = hb_pool h"
  "hub_inv held (on_mqtt f h) = hub_inv held h"
  by (simp_all add: on_mqtt_def hub_inv_def)

lemma onData_inv [tempio_inv]: "hub_inv held h \<Longrightarrow> hub_inv held (onData env ev h)"
  by (simp add: onData_def parseAndDispatchCommands_inv)

lemma mqttEventDispatch_inv [tempio_inv]:
  assumes "hub_inv held h"
  shows "hub_inv held (mqttEventDispatch env i ev h)"
  using assms by (cases i) (simp_all add: onData_inv)

lemma mqttEventDispatch_targets [tempio_inv]:
  assumes "hub_inv held h" and "targets_ok (hb_pool h)"
  shows "targets_ok (hb_pool (mqttEventDispatch env i ev h))"
  using assms by (cases i) (auto simp: onData_def intro: targets_ok_parse)

section \<open>The commands of a message\<close>

text \<open>What the command layer understands of a text: the commands, in order.\<close>

definition message_commands :: "'j json_api \<Rightarrow> string \<Rightarrow> MqttCommand list" where
  "message_commands js text =
     (let (err, doc) = js_parse js text
      in if err then []
         else (case js_array js doc ''commands'' of None \<Rightarrow> [] | Some os \<Rightarrow> map (parseCommand js) os))"

lemma parseAndDispatch_commands:
  "parseAndDispatchCommands env data len h =
   foldl (\<lambda>h cmd. dispatchCommand env cmd h) h (message_commands (he_json env) (take len data))"
  by (simp add: parseAndDispatchCommands_def message_commands_def foldl_map Let_def
      split: prod.splits option.splits)

lemma message_commands_fit:
  "c \<in> set (message_commands js text) \<Longrightarrow> fits 18 (mc_target c) \<and> fits 16 (mc_type c)"
  by (auto simp: message_commands_def parseCommand_def Let_def split: prod.splits option.splits if_splits)

text \<open>
  What an event does, by the commands of its message: a data event dispatches them in their order if it carries
  the whole message.  An event with a fragment, without a topic or without
  data changes nothing, and neither do the events that have no handler.  (Which topic it is is not looked at.)
\<close>

theorem message_dispatched_in_order:
  "mqttEventDispatch env i ev h =
   (case i of
      MQTT_EVENT_DATA \<Rightarrow>
        if ev_topic_len ev > 0 \<and> ev_data_len ev > 0 \<and> ev_data_len ev = ev_total_data_len ev
        then foldl (\<lambda>h cmd. dispatchCommand env cmd h) h
               (message_commands (he_json env) (take (nat (ev_data_len ev)) (ev_data ev)))
        else h
    | MQTT_EVENT_CONNECTED \<Rightarrow> h\<lparr>hb_mqtt := onConnected (hb_mqtt h)\<rparr>
    | MQTT_EVENT_DISCONNECTED \<Rightarrow> h\<lparr>hb_mqtt := onDisconnected (hb_mqtt h)\<rparr>
    | _ \<Rightarrow> h)"
  by (cases i) (simp_all add: onData_def parseAndDispatch_commands on_mqtt_def)

end
