(* ===== verification/Wifi_Manager.thy ===== *)
theory Wifi_Manager
  imports Prelude
begin

text \<open>
  WiFi credentials and connection, \<^verbatim>\<open>net/wifi_manager.cpp\<close>.  The flash store and the WiFi driver are
  parameters: \<open>wf_getString\<close>/\<open>wf_putString\<close> over an unknown store, and the answer of
  \<open>WiFi.status() == WL_CONNECTED\<close> at every reading.  Arduino's \<open>String\<close> operations are written out.
\<close>

section \<open>String operations\<close>

text \<open>\<open>trim\<close> drops the characters that C's \<open>isspace\<close> accepts at both ends.\<close>

definition isspace :: "char \<Rightarrow> bool" where
  "isspace c \<longleftrightarrow> c \<in> {CHR '' '', CHR 0x09, CHR 0x0A, CHR 0x0B, CHR 0x0C, CHR 0x0D}"

definition trim :: "string \<Rightarrow> string" where
  "trim s = rev (dropWhile isspace (rev (dropWhile isspace s)))"

definition startsWith :: "string \<Rightarrow> string \<Rightarrow> bool" where
  "startsWith s p \<longleftrightarrow> take (length p) s = p"

definition indexOf :: "string \<Rightarrow> char \<Rightarrow> nat option" where
  "indexOf s c = first_index (\<lambda>d. d = c) s"

section \<open>State and operations\<close>

record 'nvs wifi_api =
  wf_getString :: "'nvs \<Rightarrow> string \<Rightarrow> string \<Rightarrow> string"
  wf_putString :: "'nvs \<Rightarrow> string \<Rightarrow> string \<Rightarrow> 'nvs"
  wf_status :: "nat \<Rightarrow> bool"

text \<open>\<open>wf_begins\<close> logs the calls of \<open>WiFi.begin\<close>, \<open>wf_waited\<close> sums the delays in milliseconds.\<close>

record 'nvs wifi =
  wf_nvs :: 'nvs
  wf_ssid :: string
  wf_password :: string
  wf_reads :: nat
  wf_waited :: nat
  wf_begins :: "(string \<times> string) list"

definition load_credentials :: "'nvs wifi_api \<Rightarrow> 'nvs wifi \<Rightarrow> 'nvs wifi" where
  "load_credentials api w =
     w\<lparr>wf_ssid := wf_getString api (wf_nvs w) ''ssid'' [],
       wf_password := wf_getString api (wf_nvs w) ''pw'' []\<rparr>"

definition save_credentials :: "'nvs wifi_api \<Rightarrow> string \<Rightarrow> string \<Rightarrow> 'nvs wifi \<Rightarrow> 'nvs wifi" where
  "save_credentials api newSsid newPw w =
     w\<lparr>wf_nvs := wf_putString api (wf_putString api (wf_nvs w) ''ssid'' newSsid) ''pw'' newPw,
       wf_ssid := newSsid, wf_password := newPw\<rparr>"

definition wifiIsConnected :: "'nvs wifi_api \<Rightarrow> 'nvs wifi \<Rightarrow> bool \<times> 'nvs wifi" where
  "wifiIsConnected api w = (wf_status api (wf_reads w), w\<lparr>wf_reads := Suc (wf_reads w)\<rparr>)"

text \<open>\<open>while (WiFi.status() != WL_CONNECTED && attempts-- > 0) delay(500)\<close>.\<close>

fun connect_loop :: "'nvs wifi_api \<Rightarrow> nat \<Rightarrow> 'nvs wifi \<Rightarrow> 'nvs wifi" where
  "connect_loop api attempts w =
     (let (ok, w1) = wifiIsConnected api w
      in if ok then w1
         else (case attempts of
                 0 \<Rightarrow> w1
               | Suc n \<Rightarrow> connect_loop api n (w1\<lparr>wf_waited := wf_waited w1 + 500\<rparr>)))"

declare connect_loop.simps [simp del]

text \<open>The last reading only chooses between two messages.\<close>

definition connect_wifi :: "'nvs wifi_api \<Rightarrow> 'nvs wifi \<Rightarrow> 'nvs wifi" where
  "connect_wifi api w =
     (let w1 = w\<lparr>wf_begins := wf_begins w @ [(cstr (wf_ssid w), cstr (wf_password w))]\<rparr>
      in snd (wifiIsConnected api (connect_loop api 20 w1)))"

definition wifiInit :: "'nvs wifi_api \<Rightarrow> 'nvs wifi \<Rightarrow> 'nvs wifi" where
  "wifiInit api w =
     (let w1 = load_credentials api w in if length (wf_ssid w1) = 0 then w1 else connect_wifi api w1)"

text \<open>\<open>line\<close> is what \<open>Serial.readStringUntil\<close> returns, \<open>None\<close> when nothing is available.\<close>

definition wifiProcessSerial :: "'nvs wifi_api \<Rightarrow> string option \<Rightarrow> 'nvs wifi \<Rightarrow> 'nvs wifi" where
  "wifiProcessSerial api input w =
     (case input of
        None \<Rightarrow> w
      | Some raw \<Rightarrow>
          (let line = trim raw
           in if startsWith line ''wifi set ''
              then (let args = drop 9 line
                    in case indexOf args (CHR '' '') of
                         None \<Rightarrow> w
                       | Some spaceIdx \<Rightarrow>
                           connect_wifi api
                             (save_credentials api (take spaceIdx args) (drop (spaceIdx + 1) args) w))
              else if line = ''wifi status'' then snd (wifiIsConnected api w)
              else w))"

section \<open>Waiting is bounded\<close>

lemma connect_loop_0: "connect_loop api 0 w = w\<lparr>wf_reads := Suc (wf_reads w)\<rparr>"
  by (simp add: connect_loop.simps wifiIsConnected_def)

lemma connect_loop_Suc: "connect_loop api (Suc n) w =
  (if wf_status api (wf_reads w) then w\<lparr>wf_reads := Suc (wf_reads w)\<rparr>
   else connect_loop api n (w\<lparr>wf_reads := Suc (wf_reads w), wf_waited := wf_waited w + 500\<rparr>))"
  by (simp add: connect_loop.simps [of api "Suc n"] wifiIsConnected_def)

lemma connect_loop_frame [simp]:
  "wf_nvs (connect_loop api n w) = wf_nvs w" "wf_ssid (connect_loop api n w) = wf_ssid w"
  "wf_password (connect_loop api n w) = wf_password w" "wf_begins (connect_loop api n w) = wf_begins w"
  by (induction n arbitrary: w; simp add: connect_loop_0 connect_loop_Suc)+

lemma connect_loop_waited: "wf_waited (connect_loop api n w) \<le> wf_waited w + n * 500"
proof (induction n arbitrary: w)
  case (Suc n)
  from Suc [of "w\<lparr>wf_reads := Suc (wf_reads w), wf_waited := wf_waited w + 500\<rparr>"] show ?case
    by (simp add: connect_loop_Suc)
qed (simp add: connect_loop_0)

lemma connect_loop_reads: "wf_reads w < wf_reads (connect_loop api n w)"
proof (induction n arbitrary: w)
  case (Suc n)
  from Suc [of "w\<lparr>wf_reads := Suc (wf_reads w), wf_waited := wf_waited w + 500\<rparr>"] show ?case
    by (simp add: connect_loop_Suc)
qed (simp add: connect_loop_0)

lemma connect_loop_early:
  "wf_waited (connect_loop api n w) < wf_waited w + n * 500
   \<Longrightarrow> wf_status api (wf_reads (connect_loop api n w) - 1)"
proof (induction n arbitrary: w)
  case (Suc n)
  from Suc.IH [of "w\<lparr>wf_reads := Suc (wf_reads w), wf_waited := wf_waited w + 500\<rparr>"] Suc.prems
  show ?case by (simp add: connect_loop_Suc split: if_splits)
qed (simp add: connect_loop_0)

section \<open>The serial command\<close>

lemma trim_line:
  assumes "a \<noteq> []" and "\<not> isspace (hd a)" and "\<not> isspace (last a)" and "list_all isspace ws"
  shows "trim (a @ ws) = a"
proof -
  have "dropWhile isspace (a @ ws) = a @ ws"
    using assms(1,2) by (cases a) auto
  moreover have "dropWhile isspace (rev ws @ rev a) = rev a"
    using assms(1,3,4) by (subst dropWhile_append2) (auto simp: list_all_iff dropWhile_eq_self_iff hd_rev)
  ultimately show ?thesis by (simp add: trim_def)
qed

lemma indexOf_split: "c \<notin> set s \<Longrightarrow> indexOf (s @ c # t) c = Some (length s)"
  by (induction s) (auto simp: indexOf_def)

text \<open>The store answers a key with the last value put under it.\<close>

definition wifi_store_laws :: "'nvs wifi_api \<Rightarrow> bool" where
  "wifi_store_laws api \<longleftrightarrow> (\<forall>m k v k' d. wf_getString api (wf_putString api m k v) k' d
     = (if k = k' then v else wf_getString api m k' d))"

definition map_wifi :: "bool \<Rightarrow> (string \<rightharpoonup> string) wifi_api" where
  "map_wifi up = \<lparr>wf_getString = (\<lambda>m k d. case m k of None \<Rightarrow> d | Some v \<Rightarrow> v),
     wf_putString = (\<lambda>m k v. m(k \<mapsto> v)), wf_status = (\<lambda>_. up)\<rparr>"

lemma map_wifi_laws: "wifi_store_laws (map_wifi up)"
  by (simp add: wifi_store_laws_def map_wifi_def)

definition wifi_boot :: "'nvs \<Rightarrow> 'nvs wifi" where
  "wifi_boot nvs = \<lparr>wf_nvs = nvs, wf_ssid = [], wf_password = [], wf_reads = 0, wf_waited = 0,
     wf_begins = []\<rparr>"

text \<open>
  C34: the serial line \<open>wifi set SSID PW\<close>, with any white space after it, stores exactly these
  credentials and starts one connection with them; a reboot loads them again. The SSID cannot
  contain a space, the password can.
\<close>

theorem wifi_set_command:
  assumes "wifi_store_laws api" and "CHR '' '' \<notin> set ssid" and "pw \<noteq> []" and "\<not> isspace (last pw)"
    and "list_all isspace ws"
  shows "let w' = wifiProcessSerial api (Some (''wifi set '' @ ssid @ '' '' @ pw @ ws)) w;
             r = load_credentials api (wifi_boot (wf_nvs w'))
    in wf_ssid w' = ssid \<and> wf_password w' = pw \<and> wf_begins w' = wf_begins w @ [(cstr ssid, cstr pw)]
     \<and> wf_ssid r = ssid \<and> wf_password r = pw"
proof -
  have trim: "trim (''wifi set '' @ ssid @ '' '' @ pw @ ws) = ''wifi set '' @ ssid @ '' '' @ pw"
    using trim_line [of "''wifi set '' @ ssid @ '' '' @ pw" ws] assms(3-5) by (simp add: isspace_def)
  have "indexOf (ssid @ '' '' @ pw) (CHR '' '') = Some (length ssid)"
    using indexOf_split [OF assms(2)] by simp
  then have "wifiProcessSerial api (Some (''wifi set '' @ ssid @ '' '' @ pw @ ws)) w
      = connect_wifi api (save_credentials api ssid pw w)"
    unfolding wifiProcessSerial_def option.case trim by (simp add: startsWith_def)
  then show ?thesis
    using assms(1)
    by (simp add: connect_wifi_def save_credentials_def load_credentials_def wifi_boot_def
        wifi_store_laws_def wifiIsConnected_def Let_def)
qed

theorem wifi_set_command_witness:
  "let w' = wifiProcessSerial (map_wifi True) (Some (''wifi set home a b'' @ [CHR 0x0D])) (wifi_boot Map.empty)
   in wf_ssid w' = ''home'' \<and> wf_password w' = ''a b''"
  using wifi_set_command [OF map_wifi_laws, of "''home''" "''a b''" "[CHR 0x0D]" True "wifi_boot Map.empty"]
  by (simp add: isspace_def Let_def)

text \<open>
  A connection attempt waits at most ten seconds, and ends earlier only because the driver
  has reported a connection during the attempt.
\<close>

theorem wifi_wait_bounded:
  "wf_waited (connect_wifi api w) \<le> wf_waited w + 10000
   \<and> (wf_waited (connect_wifi api w) < wf_waited w + 10000 \<longrightarrow>
        (\<exists>n. wf_reads w \<le> n \<and> n < wf_reads (connect_wifi api w) \<and> wf_status api n))"
proof -
  let ?w1 = "connect_loop api 20 (w\<lparr>wf_begins := wf_begins w @ [(cstr (wf_ssid w), cstr (wf_password w))]\<rparr>)"
  have eq: "connect_wifi api w = ?w1\<lparr>wf_reads := Suc (wf_reads ?w1)\<rparr>"
    by (simp add: connect_wifi_def wifiIsConnected_def Let_def)
  have reads: "wf_reads w < wf_reads ?w1"
    using connect_loop_reads [of "w\<lparr>wf_begins := wf_begins w @ [(cstr (wf_ssid w), cstr (wf_password w))]\<rparr>" api 20]
    by simp
  show ?thesis
    using reads connect_loop_waited [of api 20 "w\<lparr>wf_begins := wf_begins w @ [(cstr (wf_ssid w), cstr (wf_password w))]\<rparr>"]
      connect_loop_early [of api 20 "w\<lparr>wf_begins := wf_begins w @ [(cstr (wf_ssid w), cstr (wf_password w))]\<rparr>"]
    by (auto simp: eq intro!: exI [of _ "wf_reads ?w1 - 1"])
qed

theorem wifi_wait_bounded_witness:
  "wf_waited (connect_wifi (map_wifi False) (wifi_boot Map.empty)) \<le> 10000"
  using wifi_wait_bounded [of "map_wifi False" "wifi_boot Map.empty"] by (simp add: wifi_boot_def)

end
