(* ===== verification/Hub_Main.thy ===== *)
theory Hub_Main
  imports Ble_Central Mqtt_Handler Wifi_Manager
begin

text \<open>
  The hub as a whole, \<^verbatim>\<open>hub/main.cpp\<close>: \<open>setup\<close>, one pass of \<open>loop\<close>, and the hub as a transition system
  in which the loop, the BLE host task and the MQTT task take turns.  The delay at the end of a pass
  is a point where BLE callbacks run.  A pass is one transition here; \<open>Hub_Tasks\<close> breaks it into steps that the
  other tasks can preempt.
\<close>

section \<open>Setup and loop\<close>

record ('adr, 'nvs) hub_sys =
  hs_hub :: "'adr hub"
  hs_wifi :: "'nvs wifi"

definition MQTT_BROKER_URI :: string where
  "MQTT_BROKER_URI = ''wss://mqtt.yuumi.wiki/mqtt''"

definition inject_status :: "('adr, 'j) hub_env \<Rightarrow> nat \<Rightarrow> SensorReport \<Rightarrow> SensorReport" where
  "inject_status env n r =
     r\<lparr>sr_wifi_rssi := he_rssi env n, sr_free_heap := he_heap env n, sr_uptime_ms := he_millis env n\<rparr>"

lemma bleGetPendingReport_less:
  "bleGetPendingReport b = (Some r, b') \<Longrightarrow>
   nat (tsq_count (bl_reportQueue b')) < nat (tsq_count (bl_reportQueue b))"
  by (auto simp: bleGetPendingReport_def tsq_pop_def Let_def split: if_splits)

lemma bleGetPendingAck_less:
  "bleGetPendingAck b = (Some r, b') \<Longrightarrow>
   nat (tsq_count (bl_ackQueue b')) < nat (tsq_count (bl_ackQueue b))"
  by (auto simp: bleGetPendingAck_def tsq_pop_def Let_def split: if_splits)

function publish_reports :: "('adr, 'j) hub_env \<Rightarrow> 'adr hub \<Rightarrow> 'adr hub" where
  "publish_reports env h =
     (case bleGetPendingReport (hb_ble h) of
        (None, b) \<Rightarrow> h\<lparr>hb_ble := b\<rparr>
      | (Some report, b) \<Rightarrow>
          publish_reports env
            (publish env
               (SensorReport_toJson (he_json env) (inject_status env (hb_reads h) report) REPORT_JSON_BUF_SIZE)
               ((read_clock h)\<lparr>hb_ble := b\<rparr>)))"
  by pat_completeness auto
termination
  by (relation "measure (\<lambda>(env, h). nat (tsq_count (bl_reportQueue (hb_ble h))))")
    (auto simp: publish_def read_clock_def dest!: bleGetPendingReport_less [OF sym])

function publish_acks :: "('adr, 'j) hub_env \<Rightarrow> 'adr hub \<Rightarrow> 'adr hub" where
  "publish_acks env h =
     (case bleGetPendingAck (hb_ble h) of
        (None, b) \<Rightarrow> h\<lparr>hb_ble := b\<rparr>
      | (Some ack, b) \<Rightarrow>
          publish_acks env
            (publish env (CmdAckReport_toJson (he_json env) ack 128) (h\<lparr>hb_ble := b\<rparr>)))"
  by pat_completeness auto
termination
  by (relation "measure (\<lambda>(env, h). nat (tsq_count (bl_ackQueue (hb_ble h))))")
    (auto simp: publish_def dest!: bleGetPendingAck_less [OF sym])

declare publish_reports.simps [simp del] publish_acks.simps [simp del]

definition hub_setup ::
  "('adr, 'j) hub_env \<Rightarrow> 'nvs wifi_api \<Rightarrow> string \<Rightarrow> string \<Rightarrow> bool \<Rightarrow> ('adr, 'nvs) hub_sys
   \<Rightarrow> ('adr, 'nvs) hub_sys" where
  "hub_setup env api root_ca mac wifiUp s =
     (let h = hs_hub s
      in \<lparr>hs_hub = h\<lparr>hb_ble := bleCentralInit (he_ble env) (hb_ble h),
                     hb_mqtt := mqttInit root_ca mac wifiUp MQTT_BROKER_URI (hb_mqtt h)\<rparr>,
          hs_wifi = wifiInit api (hs_wifi s)\<rparr>)"

definition loop_delay :: "('adr, 'j) hub_env \<Rightarrow> 'adr hub \<Rightarrow> 'adr hub" where
  "loop_delay env h = h\<lparr>hb_ble := ble_call (he_ble env) (hb_ble h)\<rparr>"

definition hub_loop ::
  "('adr, 'j) hub_env \<Rightarrow> 'nvs wifi_api \<Rightarrow> string option \<Rightarrow> bool \<Rightarrow> ('adr, 'nvs) hub_sys
   \<Rightarrow> ('adr, 'nvs) hub_sys" where
  "hub_loop env api serial wifiUp s =
     \<lparr>hs_hub = loop_delay env (flushAllPending env (publish_acks env (publish_reports env
         (on_mqtt (mqttLoop wifiUp) (bleCentralLoop env (hs_hub s)))))),
      hs_wifi = wifiProcessSerial api serial (hs_wifi s)\<rparr>"

section \<open>Publishing what the nodes sent\<close>

definition report_call :: "('adr, 'j) hub_env \<Rightarrow> mqtt \<Rightarrow> nat \<Rightarrow> SensorReport \<Rightarrow> mqtt_call" where
  "report_call env m n r = Publish (mq_topicReport m)
     (SensorReport_toJson (he_json env) (inject_status env n r) REPORT_JSON_BUF_SIZE)"

definition ack_call :: "('adr, 'j) hub_env \<Rightarrow> mqtt \<Rightarrow> CmdAckReport \<Rightarrow> mqtt_call" where
  "ack_call env m a = Publish (mq_topicReport m) (CmdAckReport_toJson (he_json env) a 128)"

definition published :: "mqtt \<Rightarrow> mqtt_call list \<Rightarrow> mqtt" where
  "published m cs = (if mq_connected m then m\<lparr>mq_log := mq_log m @ cs\<rparr> else m)"

lemma published_Nil [simp]: "published m [] = m"
  by (simp add: published_def)

lemma published_Cons:
  "published (published m [c]) cs = published m (c # cs)"
  "mq_topicReport (published m cs) = mq_topicReport m"
  by (simp_all add: published_def)

lemma publish_published:
  "publish env json h = h\<lparr>hb_mqtt := published (hb_mqtt h) [Publish (mq_topicReport (hb_mqtt h)) json]\<rparr>"
  by (simp add: publish_def mqttPublishReport_def published_def mq_do_def)

lemma bleGetPendingReport_cases:
  assumes "tsq_inv REPORT_QUEUE_MAX (bl_reportQueue b)" and "bleGetPendingReport b = (r, b')"
  shows "tsq_inv REPORT_QUEUE_MAX (bl_reportQueue b')" and "b' = b\<lparr>bl_reportQueue := bl_reportQueue b'\<rparr>"
    and "case r of None \<Rightarrow> reports b = [] \<and> reports b' = [] | Some x \<Rightarrow> reports b = x # reports b'"
proof -
  obtain q where pop: "tsq_popUnsafe REPORT_QUEUE_MAX (bl_reportQueue b) = (r, q)"
    and b': "b' = b\<lparr>bl_reportQueue := q\<rparr>"
    using assms(2) by (auto simp: bleGetPendingReport_def tsq_unsafe_same Let_def split: prod.splits)
  then show "tsq_inv REPORT_QUEUE_MAX (bl_reportQueue b')" "b' = b\<lparr>bl_reportQueue := bl_reportQueue b'\<rparr>"
    using tsq.inv_pop [OF assms(1)] by auto
  show "case r of None \<Rightarrow> reports b = [] \<and> reports b' = [] | Some x \<Rightarrow> reports b = x # reports b'"
    using tsq.popE(1) [OF assms(1)] tsq.pop_NoneE(1,2) [OF assms(1)] pop b' by (cases r) auto
qed

lemma bleGetPendingAck_cases:
  assumes "tsq_inv CMD_PENDING_PER_NODE (bl_ackQueue b)" and "bleGetPendingAck b = (r, b')"
  shows "tsq_inv CMD_PENDING_PER_NODE (bl_ackQueue b')" and "b' = b\<lparr>bl_ackQueue := bl_ackQueue b'\<rparr>"
    and "case r of None \<Rightarrow> acks b = [] \<and> acks b' = [] | Some x \<Rightarrow> acks b = x # acks b'"
proof -
  obtain q where pop: "tsq_popUnsafe CMD_PENDING_PER_NODE (bl_ackQueue b) = (r, q)"
    and b': "b' = b\<lparr>bl_ackQueue := q\<rparr>"
    using assms(2) by (auto simp: bleGetPendingAck_def tsq_unsafe_same Let_def split: prod.splits)
  then show "tsq_inv CMD_PENDING_PER_NODE (bl_ackQueue b')" "b' = b\<lparr>bl_ackQueue := bl_ackQueue b'\<rparr>"
    using tsq.inv_pop [OF assms(1)] by auto
  show "case r of None \<Rightarrow> acks b = [] \<and> acks b' = [] | Some x \<Rightarrow> acks b = x # acks b'"
    using tsq.popE(1) [OF assms(1)] tsq.pop_NoneE(1,2) [OF assms(1)] pop b' by (cases r) auto
qed

lemma publish_reports_spec:
  assumes "tsq_inv REPORT_QUEUE_MAX (bl_reportQueue (hb_ble h))"
  shows "\<exists>q. tsq_inv REPORT_QUEUE_MAX q \<and> tsq_items REPORT_QUEUE_MAX q = []
    \<and> publish_reports env h = h\<lparr>hb_ble := (hb_ble h)\<lparr>bl_reportQueue := q\<rparr>,
        hb_mqtt := published (hb_mqtt h) (map (case_prod (report_call env (hb_mqtt h)))
          (enumerate (hb_reads h) (reports (hb_ble h)))),
        hb_reads := hb_reads h + length (reports (hb_ble h))\<rparr>"
  using assms
proof (induction env h rule: publish_reports.induct)
  case (1 env h)
  obtain r b where get: "bleGetPendingReport (hb_ble h) = (r, b)" by fastforce
  note getD = bleGetPendingReport_cases [OF "1.prems" get]
  show ?case
  proof (cases r)
    case None
    with get getD show ?thesis
      by (subst publish_reports.simps) (auto intro!: exI [of _ "bl_reportQueue b"])
  next
    case (Some x)
    let ?h1 = "publish env (SensorReport_toJson (he_json env) (inject_status env (hb_reads h) x)
        REPORT_JSON_BUF_SIZE) ((read_clock h)\<lparr>hb_ble := b\<rparr>)"
    have h1: "?h1 = h\<lparr>hb_ble := b, hb_reads := Suc (hb_reads h),
        hb_mqtt := published (hb_mqtt h) [report_call env (hb_mqtt h) (hb_reads h) x]\<rparr>"
      by (simp add: publish_published read_clock_def report_call_def)
    have step: "publish_reports env h = publish_reports env ?h1"
      using get Some by (subst publish_reports.simps) simp
    have "tsq_inv REPORT_QUEUE_MAX (bl_reportQueue (hb_ble ?h1))"
      using getD(1) by (simp add: h1)
    from "1.IH" [OF get [symmetric] Some this] obtain q
      where q: "tsq_inv REPORT_QUEUE_MAX q" "tsq_items REPORT_QUEUE_MAX q = []"
        and eq: "publish_reports env ?h1 = ?h1\<lparr>hb_ble := (hb_ble ?h1)\<lparr>bl_reportQueue := q\<rparr>,
          hb_mqtt := published (hb_mqtt ?h1) (map (case_prod (report_call env (hb_mqtt ?h1)))
            (enumerate (hb_reads ?h1) (reports (hb_ble ?h1)))),
          hb_reads := hb_reads ?h1 + length (reports (hb_ble ?h1))\<rparr>" by blast
    have rep: "reports (hb_ble h) = x # reports b"
      using getD(3) Some by simp
    have b: "b\<lparr>bl_reportQueue := q\<rparr> = (hb_ble h)\<lparr>bl_reportQueue := q\<rparr>"
      by (subst getD(2)) simp
    have call: "report_call env (published m cs) = report_call env m" for m cs
      by (simp add: fun_eq_iff report_call_def published_Cons)
    show ?thesis
      by (rule exI [of _ q]) (simp add: q step eq, simp add: h1 rep b call published_Cons)
  qed
qed

lemma publish_acks_spec:
  assumes "tsq_inv CMD_PENDING_PER_NODE (bl_ackQueue (hb_ble h))"
  shows "\<exists>q. tsq_inv CMD_PENDING_PER_NODE q \<and> tsq_items CMD_PENDING_PER_NODE q = []
    \<and> publish_acks env h = h\<lparr>hb_ble := (hb_ble h)\<lparr>bl_ackQueue := q\<rparr>,
        hb_mqtt := published (hb_mqtt h) (map (ack_call env (hb_mqtt h)) (acks (hb_ble h)))\<rparr>"
  using assms
proof (induction env h rule: publish_acks.induct)
  case (1 env h)
  obtain r b where get: "bleGetPendingAck (hb_ble h) = (r, b)" by fastforce
  note getD = bleGetPendingAck_cases [OF "1.prems" get]
  show ?case
  proof (cases r)
    case None
    with get getD show ?thesis
      by (subst publish_acks.simps) (auto intro!: exI [of _ "bl_ackQueue b"])
  next
    case (Some x)
    let ?h1 = "publish env (CmdAckReport_toJson (he_json env) x 128) (h\<lparr>hb_ble := b\<rparr>)"
    have h1: "?h1 = h\<lparr>hb_ble := b, hb_mqtt := published (hb_mqtt h) [ack_call env (hb_mqtt h) x]\<rparr>"
      by (simp add: publish_published ack_call_def)
    have step: "publish_acks env h = publish_acks env ?h1"
      using get Some by (subst publish_acks.simps) simp
    have "tsq_inv CMD_PENDING_PER_NODE (bl_ackQueue (hb_ble ?h1))"
      using getD(1) by (simp add: h1)
    from "1.IH" [OF get [symmetric] Some this] obtain q
      where q: "tsq_inv CMD_PENDING_PER_NODE q" "tsq_items CMD_PENDING_PER_NODE q = []"
        and eq: "publish_acks env ?h1 = ?h1\<lparr>hb_ble := (hb_ble ?h1)\<lparr>bl_ackQueue := q\<rparr>,
          hb_mqtt := published (hb_mqtt ?h1) (map (ack_call env (hb_mqtt ?h1)) (acks (hb_ble ?h1)))\<rparr>"
      by blast
    have rep: "acks (hb_ble h) = x # acks b"
      using getD(3) Some by simp
    have b: "b\<lparr>bl_ackQueue := q\<rparr> = (hb_ble h)\<lparr>bl_ackQueue := q\<rparr>"
      by (subst getD(2)) simp
    have call: "ack_call env (published m cs) = ack_call env m" for m cs
      by (simp add: fun_eq_iff ack_call_def published_Cons)
    show ?thesis
      by (rule exI [of _ q]) (simp add: q step eq, simp add: h1 rep b call published_Cons)
  qed
qed

lemma ble_inv_reportQueue:
  "ble_inv held b \<Longrightarrow> tsq_inv REPORT_QUEUE_MAX q \<Longrightarrow> ble_inv held (b\<lparr>bl_reportQueue := q\<rparr>)"
  and ble_inv_ackQueue:
  "ble_inv held b \<Longrightarrow> tsq_inv CMD_PENDING_PER_NODE q' \<Longrightarrow> ble_inv held (b\<lparr>bl_ackQueue := q'\<rparr>)"
  by (simp_all add: ble_inv_def queues_ok_def)

text \<open>What both publishing loops keep.\<close>

lemma publish_loops:
  fixes env :: "('adr, 'j) hub_env"
  assumes "hub_inv held h"
  defines "h' \<equiv> publish_acks env (publish_reports env h)"
  shows "hub_inv held h'" and "hb_pool h' = hb_pool h"
    and "addr_inv hand (hb_ble h') = addr_inv hand (hb_ble h)"
    and "reports (hb_ble h') = []" and "acks (hb_ble h') = []"
    and "hb_mqtt h' = published (hb_mqtt h)
           (map (case_prod (report_call env (hb_mqtt h))) (enumerate (hb_reads h) (reports (hb_ble h)))
            @ map (ack_call env (hb_mqtt h)) (acks (hb_ble h)))"
proof -
  have inv: "ble_inv held (hb_ble h)" and pool: "pool_inv (hb_pool h)"
    and qs: "tsq_inv REPORT_QUEUE_MAX (bl_reportQueue (hb_ble h))"
      "tsq_inv CMD_PENDING_PER_NODE (bl_ackQueue (hb_ble h))"
    using assms(1) by (simp_all add: hub_inv_def ble_inv_def queues_ok_def)
  obtain q where q: "tsq_inv REPORT_QUEUE_MAX q" "tsq_items REPORT_QUEUE_MAX q = []"
    and h1: "publish_reports env h = h\<lparr>hb_ble := (hb_ble h)\<lparr>bl_reportQueue := q\<rparr>,
        hb_mqtt := published (hb_mqtt h) (map (case_prod (report_call env (hb_mqtt h)))
          (enumerate (hb_reads h) (reports (hb_ble h)))),
        hb_reads := hb_reads h + length (reports (hb_ble h))\<rparr>"
    using publish_reports_spec [OF qs(1)] by blast
  let ?h1 = "publish_reports env h"
  have "tsq_inv CMD_PENDING_PER_NODE (bl_ackQueue (hb_ble ?h1))" using qs(2) by (simp add: h1)
  then obtain q' where q': "tsq_inv CMD_PENDING_PER_NODE q'" "tsq_items CMD_PENDING_PER_NODE q' = []"
    and h2: "publish_acks env ?h1 = ?h1\<lparr>hb_ble := (hb_ble ?h1)\<lparr>bl_ackQueue := q'\<rparr>,
        hb_mqtt := published (hb_mqtt ?h1) (map (ack_call env (hb_mqtt ?h1)) (acks (hb_ble ?h1)))\<rparr>"
    using publish_acks_spec by blast
  have call: "ack_call env (published m cs) = ack_call env m" for m cs
    by (simp add: fun_eq_iff ack_call_def published_Cons)
  have pub: "published (published m cs) ds = published m (cs @ ds)" for m cs ds
    by (simp add: published_def)
  have h': "h' = h\<lparr>hb_ble := (hb_ble h)\<lparr>bl_reportQueue := q, bl_ackQueue := q'\<rparr>,
      hb_mqtt := published (hb_mqtt h)
        (map (case_prod (report_call env (hb_mqtt h))) (enumerate (hb_reads h) (reports (hb_ble h)))
         @ map (ack_call env (hb_mqtt h)) (acks (hb_ble h))),
      hb_reads := hb_reads h + length (reports (hb_ble h))\<rparr>"
    unfolding h'_def by (subst h2) (simp add: h1 call pub)
  show "hub_inv held h'"
    using inv pool q q' by (simp add: h' hub_inv_def ble_inv_ackQueue ble_inv_reportQueue)
  show "hb_pool h' = hb_pool h" "reports (hb_ble h') = []" "acks (hb_ble h') = []"
    using q q' by (simp_all add: h')
  show "addr_inv hand (hb_ble h') = addr_inv hand (hb_ble h)"
    by (simp add: h' addr_inv_def used_addrs_def)
  show "hb_mqtt h' = published (hb_mqtt h)
      (map (case_prod (report_call env (hb_mqtt h))) (enumerate (hb_reads h) (reports (hb_ble h)))
       @ map (ack_call env (hb_mqtt h)) (acks (hb_ble h)))"
    by (simp add: h')
qed

section \<open>The hub as a transition system\<close>

text \<open>
  One step: a pass of the loop, a callback of the BLE host task, or an event of the MQTT task.  The
  serial input, the WiFi state, the callback and the event are arbitrary.
\<close>

inductive hub_step ::
  "('adr, 'j) hub_env \<Rightarrow> 'nvs wifi_api \<Rightarrow> ('adr, 'nvs) hub_sys \<Rightarrow> ('adr, 'nvs) hub_sys \<Rightarrow> bool"
  for env api where
  loop: "hub_step env api s (hub_loop env api serial wifiUp s)"
| callback: "hub_step env api s
    (s\<lparr>hs_hub := (hs_hub s)\<lparr>hb_ble := run_event (he_ble env) e (hb_ble (hs_hub s))\<rparr>\<rparr>)"
| mqtt_event: "hub_step env api s (s\<lparr>hs_hub := mqttEventDispatch env i ev (hs_hub s)\<rparr>)"

inductive_cases hub_stepE: "hub_step env api s s'"

inductive hub_reach ::
  "('adr, 'j) hub_env \<Rightarrow> 'nvs wifi_api \<Rightarrow> ('adr, 'nvs) hub_sys \<Rightarrow> ('adr, 'nvs) hub_sys \<Rightarrow> bool"
  for env api s0 where
  start: "hub_reach env api s0 s0"
| step: "hub_reach env api s0 s \<Longrightarrow> hub_step env api s s' \<Longrightarrow> hub_reach env api s0 s'"

definition hub_power_on ::
  "('adr, 'j) hub_env \<Rightarrow> 'nvs wifi_api \<Rightarrow> string \<Rightarrow> string \<Rightarrow> bool \<Rightarrow> 'adr \<Rightarrow> 'adr list
   \<Rightarrow> SensorReport list \<Rightarrow> CmdAckReport list \<Rightarrow> Slot list \<Rightarrow> 'nvs \<Rightarrow> ('adr, 'nvs) hub_sys" where
  "hub_power_on env api root_ca mac wifiUp addr0 pmem rmem amem mem nvs =
     hub_setup env api root_ca mac wifiUp
       \<lparr>hs_hub = \<lparr>hb_ble = ble_boot addr0 pmem rmem amem, hb_pool = pool_new mem,
                  hb_mqtt = mqtt_boot, hb_reads = 0\<rparr>,
        hs_wifi = wifi_boot nvs\<rparr>"

text \<open>The invariant of the whole hub.\<close>

definition sys_ok :: "('adr, 'j) hub_env \<Rightarrow> ('adr, 'nvs) hub_sys \<Rightarrow> bool" where
  "sys_ok env s \<longleftrightarrow> hub_inv [] (hs_hub s) \<and> targets_ok (hb_pool (hs_hub s))
     \<and> (\<not> be_late (he_ble env) \<longrightarrow> addr_inv [] (hb_ble (hs_hub s)))"

lemma connectToNode_targets:
  assumes "hub_inv held h" and "targets_ok (hb_pool h)"
  shows "targets_ok (hb_pool (snd (connectToNode env addr h)))"
proof -
  have "targets_ok (hb_pool (registerNode env slot c addr (h\<lparr>hb_ble := b\<rparr>)))" for slot c b
    using assms unfolding registerNode_steps
    by (intro targets_ok_flushPending) (simp_all add: hub_inv_def)
  with assms show ?thesis
    by (auto simp: connectToNode_def Let_def split: option.splits prod.splits bool.splits)
qed

lemma bleCentralLoop_targets:
  assumes "hub_inv held h" and "targets_ok (hb_pool h)"
  shows "targets_ok (hb_pool (bleCentralLoop env h))"
proof -
  have step: "targets_ok (hb_pool (processNextPending env h'))"
    if "hub_inv held h'" "targets_ok (hb_pool h')" for h'
  proof (cases "tsq_pop PENDING_MAX (bl_pendingQueue (hb_ble h'))")
    case (Pair r q)
    show ?thesis
    proof (cases r)
      case None
      with Pair that show ?thesis by (simp add: processNextPending_def)
    next
      case (Some addr)
      let ?h1 = "h'\<lparr>hb_ble := scan_set (he_ble env) False ((hb_ble h')\<lparr>bl_pendingQueue := q\<rparr>)\<rparr>"
      have "hub_inv held ?h1"
        using that(1) pop_pending(1) [OF _ Pair] by (auto simp: hub_inv_def intro: scan_set_inv)
      from connectToNode_targets [OF this] that(2) Pair Some show ?thesis
        by (simp add: processNextPending_def Let_def)
    qed
  qed
  have "hub_inv held (h\<lparr>hb_ble := b\<rparr>)" if "ble_inv held b" for b
    using that assms(1) by (simp add: hub_inv_def)
  with assms step show ?thesis
    by (auto simp: bleCentralLoop_def Let_def hub_inv_def cleanupDisconnected_inv scan_set_inv)
qed

lemma flushAll_addr:
  assumes "hub_inv held h" and "addr_inv hand (hb_ble h)" and "\<not> be_late (he_ble env)"
  shows "addr_inv hand (hb_ble (flushAllPending env h))"
proof -
  have pool: "pool_inv (hb_pool h)" using assms(1) by (simp add: hub_inv_def)
  have "hub_inv held (foldl (\<lambda>h n. flushNodePending env n h) h ns)
      \<and> addr_inv hand (hb_ble (foldl (\<lambda>h n. flushNodePending env n h) h ns))"
    if "\<forall>n \<in> set ns. CHR 0x00 \<notin> set n" "hub_inv held h" "addr_inv hand (hb_ble h)" for ns h
    using that
  proof (induction ns arbitrary: h)
    case (Cons n ns)
    have "ble_inv held (hb_ble h)" using Cons.prems(2) by (simp add: hub_inv_def)
    then show ?case
      using Cons.IH [of "flushNodePending env n h"] Cons.prems flushNodePending_inv [of held h n env]
        flushNodePending_addr_inv [of held h hand env n] assms(3) by simp
  qed simp
  moreover have "CHR 0x00 \<notin> set n" if "n \<in> set (waiting (hb_pool h) 0)" for n
    using that pool by (auto simp: waiting_def pool_inv_def slot_ok_def fits_def)
  ultimately show ?thesis
    using assms(1,2) flushAll_loop_waiting [OF pool, of env 0] by (simp add: flushAllPending_def)
qed

lemma hub_loop_ok:
  assumes "sys_ok env s"
  shows "sys_ok env (hub_loop env api serial wifiUp s)"
proof -
  let ?h1 = "on_mqtt (mqttLoop wifiUp) (bleCentralLoop env (hs_hub s))"
  let ?h2 = "publish_acks env (publish_reports env ?h1)"
  let ?h3 = "flushAllPending env ?h2"
  have h1: "hub_inv [] ?h1" "targets_ok (hb_pool ?h1)"
    using assms bleCentralLoop_targets [of "[]" "hs_hub s" env]
    by (simp_all add: sys_ok_def bleCentralLoop_inv)
  note loops = publish_loops [OF h1(1), where env = env]
  have h2: "hub_inv [] ?h2" "targets_ok (hb_pool ?h2)"
    using loops(1,2) h1(2) by simp_all
  have h3: "hub_inv [] ?h3" "targets_ok (hb_pool ?h3)"
    using h2 by (simp_all add: flushAllPending_inv targets_ok_flushAll)
  have addr: "addr_inv [] (hb_ble ?h3)" if "\<not> be_late (he_ble env)"
  proof -
    have "addr_inv [] (hb_ble ?h1)"
      using assms that bleCentralLoop_addr [of "[]" "hs_hub s" env] by (simp add: sys_ok_def)
    then have "addr_inv [] (hb_ble ?h2)" using loops(3) by simp
    with h2(1) that show ?thesis by (intro flushAll_addr)
  qed
  have inv3: "ble_inv [] (hb_ble ?h3)" using h3(1) by (simp add: hub_inv_def)
  have "hub_inv [] (loop_delay env ?h3)"
    using h3(1) by (simp add: loop_delay_def hub_inv_def ble_call_inv)
  moreover have "addr_inv [] (hb_ble (loop_delay env ?h3))" if "\<not> be_late (he_ble env)"
    using addr_inv_call [OF inv3 addr [OF that] that] by (simp add: loop_delay_def)
  ultimately show ?thesis
    using h3(2) by (simp add: sys_ok_def hub_loop_def loop_delay_def)
qed

lemma onData_addr:
  assumes "hub_inv held h" and "addr_inv hand (hb_ble h)" and "\<not> be_late (he_ble env)"
  shows "addr_inv hand (hb_ble (mqttEventDispatch env i ev h))"
proof -
  have send: "hub_inv held (dispatchCommand env c h) \<and> addr_inv hand (hb_ble (dispatchCommand env c h))"
    if "hub_inv held h" "addr_inv hand (hb_ble h)" "fits 18 (mc_target c)" for c h
  proof -
    have "addr_inv hand (snd (trySend (he_ble env) (he_json env) c (hb_ble h)))"
      using that assms(3) by (intro trySend_addr_inv) (auto simp: hub_inv_def)
    with that dispatchCommand_inv [OF that(1,3), of env] show ?thesis
      by (auto simp: dispatchCommand_def send_now_def read_clock_def split: prod.splits bool.splits)
  qed
  have all: "hub_inv held (foldl (\<lambda>h c. dispatchCommand env c h) h cs)
      \<and> addr_inv hand (hb_ble (foldl (\<lambda>h c. dispatchCommand env c h) h cs))"
    if "\<forall>c \<in> set cs. fits 18 (mc_target c)" "hub_inv held h" "addr_inv hand (hb_ble h)" for cs h
    using that by (induction cs arbitrary: h) (simp_all add: send)
  have "addr_inv hand (hb_ble (parseAndDispatchCommands env data len h))" for data len
    using all [OF _ assms(1,2)] message_commands_fit by (auto simp: parseAndDispatch_commands)
  with assms show ?thesis
    by (cases i) (simp_all add: onData_def)
qed

lemma hub_step_ok: "hub_step env api s s' \<Longrightarrow> sys_ok env s \<Longrightarrow> sys_ok env s'"
proof (induction rule: hub_step.induct)
  case (loop s serial wifiUp)
  then show ?case by (rule hub_loop_ok)
next
  case (callback s e)
  then show ?case
    by (auto simp: sys_ok_def hub_inv_def intro: run_event_inv addr_inv_event)
next
  case (mqtt_event s i ev)
  then show ?case
    by (auto simp: sys_ok_def mqttEventDispatch_inv mqttEventDispatch_targets intro: onData_addr)
qed

lemma hub_reach_ok: "hub_reach env api s0 s \<Longrightarrow> sys_ok env s0 \<Longrightarrow> sys_ok env s"
  by (induction rule: hub_reach.induct) (auto intro: hub_step_ok)

lemma hub_power_on_addr:
  "boot_mem pmem rmem amem
   \<Longrightarrow> addr_inv [] (hb_ble (hs_hub (hub_power_on env api root_ca mac wifiUp addr0 pmem rmem amem mem nvs)))"
  using bleCentralInit_boot(2) by (simp add: hub_power_on_def hub_setup_def Let_def)

lemma hub_power_on_ok:
  assumes "boot_mem pmem rmem amem" and "pool_mem mem"
  shows "sys_ok env (hub_power_on env api root_ca mac wifiUp addr0 pmem rmem amem mem nvs)"
  using bleCentralInit_boot [OF assms(1)] pool_inv_new [OF assms(2)]
  by (simp add: sys_ok_def hub_power_on_def hub_setup_def hub_inv_def targets_ok_def pool_abs_new Let_def)

lemma hub_reachable:
  assumes "boot_mem pmem rmem amem" and "pool_mem mem"
    and "hub_reach env api (hub_power_on env api root_ca mac wifiUp addr0 pmem rmem amem mem nvs) s"
  shows "sys_ok env s"
  by (rule hub_reach_ok [OF assms(3) hub_power_on_ok [OF assms(1,2)]])

section \<open>Properties\<close>

text \<open>
  No BLE client is ever lost or shared: whatever NimBLE answers and however the loop, the
  callbacks and the MQTT events follow each other, every client that has been created sits in
  exactly one slot, and there are at most five.
\<close>

theorem no_client_lost:
  assumes "boot_mem pmem rmem amem" and "pool_mem mem"
    and "hub_reach env api (hub_power_on env api root_ca mac wifiUp addr0 pmem rmem amem mem nvs) s"
  shows "let b = hb_ble (hs_hub s) in
    distinct (clients (bl_nodes b)) \<and> set (clients (bl_nodes b)) = {..<bl_created b} \<and> bl_created b \<le> 5"
proof -
  have inv: "ble_inv [] (hb_ble (hs_hub s))"
    using hub_reachable [OF assms] by (simp add: sys_ok_def hub_inv_def)
  with ble_inv_created [OF inv] show ?thesis
    by (simp add: ble_inv_def Let_def config_defs)
qed

definition example_start :: "(string, string \<rightharpoonup> string) hub_sys" where
  "example_start = hub_power_on example_hub_env (map_wifi True) [] ''AA:BB'' True [] (replicate 8 [])
     (replicate 8 SensorReport_init) (replicate 4 CmdAckReport_init) example_mem Map.empty"

definition example_later :: "(string, string \<rightharpoonup> string) hub_sys" where
  "example_later = hub_loop example_hub_env (map_wifi True) None True
     (example_start\<lparr>hs_hub := (hs_hub example_start)\<lparr>hb_ble :=
        run_event (he_ble example_hub_env) (ScanResult [TEMPIO_SERVICE_UUID] ''bb'') (hb_ble (hs_hub example_start))\<rparr>\<rparr>)"

lemma example_reach: "hub_reach example_hub_env (map_wifi True) example_start example_later"
  unfolding example_later_def
  by (rule hub_reach.step [OF hub_reach.step [OF hub_reach.start hub_step.callback] hub_step.loop])

theorem no_client_lost_witness: "bl_created (hb_ble (hs_hub example_later)) \<le> 5"
  using no_client_lost [OF example_boot_mem example_mem_ok example_reach [unfolded example_start_def]]
  by (simp add: Let_def)

text \<open>
  As long as NimBLE delivers no scan results while the scanner is stopped, the addresses that
  are waiting for a connection and those of the connected nodes are all different in every
  reachable state: no node is connected twice, none is queued while it is connected.  Callbacks run between
  the passes and in the calls that block; \<open>scan_result_requeues\<close> shows what one between \<open>pop\<close> and \<open>stop\<close> can do.
\<close>

theorem no_node_twice:
  assumes "boot_mem pmem rmem amem" and "pool_mem mem" and "\<not> be_late (he_ble env)"
    and "hub_reach env api (hub_power_on env api root_ca mac wifiUp addr0 pmem rmem amem mem nvs) s"
  shows "distinct (found (hb_ble (hs_hub s)) @ used_addrs (hb_ble (hs_hub s)))"
  using hub_reachable [OF assms(1,2,4)] assms(3) by (simp add: sys_ok_def addr_inv_def)

theorem no_node_twice_witness:
  "distinct (found (hb_ble (hs_hub example_later)) @ used_addrs (hb_ble (hs_hub example_later)))"
proof -
  have "\<not> be_late (he_ble example_hub_env)"
    by (simp add: example_hub_env_def example_env_def)
  from no_node_twice [OF example_boot_mem example_mem_ok this example_reach [unfolded example_start_def]]
  show ?thesis .
qed

lemma memory_bounds:
  assumes pool: "pool_inv (hb_pool h)" and targets: "targets_ok (hb_pool h)" and ble: "queues_ok (hb_ble h)"
  shows "let p = pool_abs (hb_pool h); b = hb_ble h in
    card (dom p) \<le> 5 \<and> length (mb_pending p node) \<le> 4
    \<and> list_all (\<lambda>c. mc_target c = node) (mb_pending p node)
    \<and> length (reports b) \<le> 8 \<and> length (acks b) \<le> 4 \<and> length (found b) \<le> 8"
proof -
  have "card (dom (pool_abs (hb_pool h))) \<le> 5"
    using pool_activeSlots_abs [OF pool] length_filter_le [of sl_used "pp_slots (hb_pool h)"] pool
    by (simp add: pool_activeSlots_def pool_inv_def config_defs)
  moreover have "length (mb_pending (pool_abs (hb_pool h)) node) \<le> 4"
    using pool.cap_abs [OF pool, of node] by (auto simp: mb_pending_def config_defs split: option.splits)
  moreover have "list_all (\<lambda>c. mc_target c = node) (mb_pending (pool_abs (hb_pool h)) node)"
    using targets_ok_pending [OF targets] by (simp add: list_all_iff)
  moreover have "length (reports (hb_ble h)) \<le> 8" "length (acks (hb_ble h)) \<le> 4" "length (found (hb_ble h)) \<le> 8"
    using ble tsq.items_cap [of PENDING_MAX "bl_pendingQueue (hb_ble h)"]
      tsq.items_cap [of REPORT_QUEUE_MAX "bl_reportQueue (hb_ble h)"]
      tsq.items_cap [of CMD_PENDING_PER_NODE "bl_ackQueue (hb_ble h)"]
    by (simp_all add: queues_ok_def config_defs)
  ultimately show ?thesis by (simp add: Let_def)
qed

text \<open>
  In every reachable state the pool holds commands for at most five nodes, at most four for
  each, every command under the node it is meant for; the queues of reports, acknowledgements and
  addresses never hold more than 8, 4 and 8 items.
\<close>

theorem hub_memory_bounded:
  assumes "boot_mem pmem rmem amem" and "pool_mem mem"
    and "hub_reach env api (hub_power_on env api root_ca mac wifiUp addr0 pmem rmem amem mem nvs) s"
  shows "let p = pool_abs (hb_pool (hs_hub s)); b = hb_ble (hs_hub s) in
    card (dom p) \<le> 5 \<and> length (mb_pending p node) \<le> 4
    \<and> list_all (\<lambda>c. mc_target c = node) (mb_pending p node)
    \<and> length (reports b) \<le> 8 \<and> length (acks b) \<le> 4 \<and> length (found b) \<le> 8"
proof -
  have ok: "sys_ok env s" by (rule hub_reachable [OF assms])
  then have "pool_inv (hb_pool (hs_hub s))" "targets_ok (hb_pool (hs_hub s))" "queues_ok (hb_ble (hs_hub s))"
    by (auto simp: sys_ok_def hub_inv_def intro: ble_inv_queues)
  then show ?thesis by (rule memory_bounds)
qed

theorem hub_memory_bounded_witness:
  "length (reports (hb_ble (hs_hub example_later))) \<le> 8"
  using hub_memory_bounded [OF example_boot_mem example_mem_ok example_reach [unfolded example_start_def]]
  by (simp add: Let_def)

text \<open>The connection code, and a flush, leave MQTT alone.\<close>

lemma central_mqtt [simp]:
  "hb_mqtt (snd (connectToNode env addr h)) = hb_mqtt h"
  "hb_mqtt (bleCentralLoop env h) = hb_mqtt h"
proof -
  show conn: "hb_mqtt (snd (connectToNode env addr h)) = hb_mqtt h" for addr and h :: "'a hub"
    by (auto simp: connectToNode_def registerNode_steps Let_def split: option.splits prod.splits bool.splits)
  show "hb_mqtt (bleCentralLoop env h) = hb_mqtt h"
    by (auto simp: bleCentralLoop_def processNextPending_def conn Let_def split: option.splits prod.splits)
qed

lemma flushAllPending_mqtt: "pool_inv (hb_pool h) \<Longrightarrow> hb_mqtt (flushAllPending env h) = hb_mqtt h"
proof -
  have "hb_mqtt (foldl (\<lambda>h n. flushNodePending env n h) h ns) = hb_mqtt h" for ns
    by (induction ns arbitrary: h) simp_all
  then show "pool_inv (hb_pool h) \<Longrightarrow> ?thesis" by (simp add: flushAllPending_def flushAll_loop_waiting)
qed

text \<open>Without callbacks nothing is queued.\<close>

definition queued :: "'adr ble \<Rightarrow> SensorReport tsq \<times> CmdAckReport tsq" where
  "queued b = (bl_reportQueue b, bl_ackQueue b)"

lemma queued_fields [simp]:
  "queued (b\<lparr>bl_created := k\<rparr>) = queued b" "queued (b\<lparr>bl_led := l\<rparr>) = queued b"
  "queued (b\<lparr>bl_doScan := d\<rparr>) = queued b" "queued (b\<lparr>bl_writes := w\<rparr>) = queued b"
  "queued (b\<lparr>bl_scanning := s\<rparr>) = queued b" "queued (b\<lparr>bl_pendingQueue := q\<rparr>) = queued b"
  "queued (b\<lparr>bl_lastPrint := t\<rparr>) = queued b" "queued (b\<lparr>bl_calls := n\<rparr>) = queued b"
  "queued (b\<lparr>bl_nodes := ns\<rparr>) = queued b" "queued (setNode i f b) = queued b"
  by (simp_all add: queued_def setNode_def)

lemma queued_reports: "queued b' = queued b \<Longrightarrow> reports b' = reports b \<and> acks b' = acks b"
  by (simp add: queued_def)

lemma silent_call: "(\<And>n. be_events e n = []) \<Longrightarrow> ble_call e b = b\<lparr>bl_calls := Suc (bl_calls b)\<rparr>"
  by (simp add: ble_call_def run_events_def)

lemma silent_ble:
  assumes "\<And>n. be_events e n = []"
  shows "queued (disconnectAndStash e c b) = queued b" "queued (snd (acquireClient e b)) = queued b"
    and "queued (snd (discoverAndSubscribe e b)) = queued b" "queued (register_slot e slot c addr b) = queued b"
    and "queued (hub_ready e slot b) = queued b" "queued (scan_set e on b) = queued b"
    and "queued (cleanupDisconnected b) = queued b" "queued (snd (trySend e js cmd b)) = queued b"
  by (auto simp: silent_call [OF assms] disconnectAndStash_def stashClient_def acquireClient_def findReusableClient_def
      discoverAndSubscribe_def register_slot_def hub_ready_def writeValue_def scan_set_def cleanupDisconnected_def
      trySend_packet bleSendToNode_def Let_def split: option.splits)

lemma silent_flush:
  assumes "\<And>n. be_events (he_ble env) n = []"
  shows "queued (hb_ble (flushNodePending env node h)) = queued (hb_ble h)"
  by (rule flushNodePending_keeps(1) [of "\<lambda>b. queued b = queued (hb_ble h)"]) (simp_all add: silent_ble [OF assms])

lemma silent_connect:
  assumes "\<And>n. be_events (he_ble env) n = []"
  shows "queued (hb_ble (snd (connectToNode env addr h))) = queued (hb_ble h)"
proof (cases "findEmptySlot (hb_ble h)")
  case None
  then show ?thesis by (simp add: connectToNode_def)
next
  case (Some slot)
  let ?e = "he_ble env"
  obtain r b1 where acq: "acquireClient ?e (hb_ble h) = (r, b1)" by fastforce
  obtain ok b3 where disc: "discoverAndSubscribe ?e (ble_call ?e b1) = (ok, b3)" by fastforce
  have "queued b1 = queued (hb_ble h)" "queued b3 = queued b1"
    using silent_ble(2) [OF assms, of "hb_ble h"] silent_ble(3) [OF assms, of "ble_call ?e b1"] acq disc
    by (simp_all add: silent_call [OF assms])
  with Some acq disc show ?thesis
    by (cases r; cases ok)
      (auto simp: connectToNode_def registerNode_steps silent_ble [OF assms] silent_flush [OF assms] silent_call [OF assms] Let_def)
qed

lemma silent_central:
  assumes "\<And>n. be_events (he_ble env) n = []"
  shows "queued (hb_ble (bleCentralLoop env h)) = queued (hb_ble h)"
  by (auto simp: bleCentralLoop_def processNextPending_def printStatus_def read_clock_def silent_ble [OF assms]
      silent_connect [OF assms] Let_def split: prod.splits option.splits)

lemma silent_flushAll:
  assumes "\<And>n. be_events (he_ble env) n = []" and "pool_inv (hb_pool h)"
  shows "queued (hb_ble (flushAllPending env h)) = queued (hb_ble h)"
proof -
  have "queued (hb_ble (foldl (\<lambda>h n. flushNodePending env n h) h ns)) = queued (hb_ble h)" for ns
    by (induction ns arbitrary: h) (simp_all add: silent_flush [OF assms(1)])
  with assms(2) show ?thesis by (simp add: flushAllPending_def flushAll_loop_waiting)
qed

text \<open>
  C21: one pass of \<open>loop\<close>, from any state and with any callbacks: the MQTT client is ticked, and if it is connected
  then, all the reports and acknowledgements that \<open>bleCentralLoop\<close> has left in the queues are
  published in this pass, reports first, each queue in the order of arrival, every report with the hub's own status,
  and nothing else; if it is not connected, nothing is published.  In either case both queues have been emptied:
  without callbacks they hold at the start of the publishing what they held at the start of the pass, and nothing at its end.
\<close>

theorem loop_publishes_everything:
  assumes "hub_inv [] (hs_hub s)"
  shows "let h = hs_hub s; h1 = bleCentralLoop env h; m = mqttLoop wifiUp (hb_mqtt h);
             h' = hs_hub (hub_loop env api serial wifiUp s);
             calls = map (\<lambda>(n, r). Publish (mq_topicReport m)
                        (SensorReport_toJson (he_json env) (inject_status env n r) REPORT_JSON_BUF_SIZE))
                       (enumerate (hb_reads h1) (reports (hb_ble h1)))
                     @ map (\<lambda>a. Publish (mq_topicReport m) (CmdAckReport_toJson (he_json env) a 128)) (acks (hb_ble h1)) in
    hb_mqtt h' = (if mq_connected m then m\<lparr>mq_log := mq_log m @ calls\<rparr> else m)
    \<and> ((\<forall>n. be_events (he_ble env) n = []) \<longrightarrow>
          reports (hb_ble h1) = reports (hb_ble h) \<and> acks (hb_ble h1) = acks (hb_ble h)
          \<and> reports (hb_ble h') = [] \<and> acks (hb_ble h') = [])"
proof -
  let ?h = "hs_hub s"
  define h1 where "h1 = bleCentralLoop env ?h"
  define m where "m = mqttLoop wifiUp (hb_mqtt ?h)"
  define h2 where "h2 = on_mqtt (mqttLoop wifiUp) h1"
  define h3 where "h3 = publish_acks env (publish_reports env h2)"
  have loop: "hs_hub (hub_loop env api serial wifiUp s) = loop_delay env (flushAllPending env h3)"
    by (simp add: hub_loop_def h1_def h2_def h3_def)
  have h2: "hub_inv [] h2" "hb_mqtt h2 = m" "hb_ble h2 = hb_ble h1" "hb_reads h2 = hb_reads h1"
    using bleCentralLoop_inv [OF assms, of env] by (simp_all add: h2_def h1_def m_def on_mqtt_def hub_inv_def)
  note pub = publish_loops [OF h2(1), where env = env, folded h3_def]
  have pool: "pool_inv (hb_pool h3)" using pub(1) by (simp add: hub_inv_def)
  have "map (case_prod (report_call env m)) xs = map (\<lambda>(n, r). Publish (mq_topicReport m)
      (SensorReport_toJson (he_json env) (inject_status env n r) REPORT_JSON_BUF_SIZE)) xs" for xs
    by (auto simp: report_call_def)
  moreover have "map (ack_call env m) as = map (\<lambda>a. Publish (mq_topicReport m) (CmdAckReport_toJson (he_json env) a 128)) as" for as
    by (simp add: ack_call_def)
  moreover have "reports (hb_ble h1) = reports (hb_ble ?h) \<and> acks (hb_ble h1) = acks (hb_ble ?h)
      \<and> reports (hb_ble (loop_delay env (flushAllPending env h3))) = []
      \<and> acks (hb_ble (loop_delay env (flushAllPending env h3))) = []"
    if "\<forall>n. be_events (he_ble env) n = []"
  proof -
    have silent: "be_events (he_ble env) n = []" for n using that by blast
    have "queued (hb_ble (loop_delay env (flushAllPending env h3))) = queued (hb_ble h3)"
      using silent_flushAll [OF silent pool] by (simp add: loop_delay_def silent_call [OF silent])
    with queued_reports [OF this] queued_reports [OF silent_central [OF silent, of ?h]] pub(4,5) show ?thesis
      by (simp add: h1_def)
  qed
  ultimately show ?thesis
    using pub(6) by (simp add: Let_def loop h2 published_def h1_def [symmetric] m_def [symmetric]
        flushAllPending_mqtt [OF pool]) (simp add: loop_delay_def flushAllPending_mqtt [OF pool])
qed

text \<open>A connected hub with a report and an acknowledgement in its queues.\<close>

definition busy_hub :: "(string, string \<rightharpoonup> string) hub_sys" where
  "busy_hub = example_start\<lparr>hs_hub := (hs_hub example_start)\<lparr>
     hb_ble := (hb_ble (hs_hub example_start))\<lparr>
       bl_reportQueue := snd (tsq_push REPORT_QUEUE_MAX (bl_reportQueue (hb_ble (hs_hub example_start)))
         (SensorReport_init\<lparr>sr_node_id := ''aa''\<rparr>)),
       bl_ackQueue := snd (tsq_push CMD_PENDING_PER_NODE (bl_ackQueue (hb_ble (hs_hub example_start)))
         (CmdAckReport_init\<lparr>ar_node_id := ''aa''\<rparr>))\<rparr>,
     hb_mqtt := onConnected (mqttLoop True (hb_mqtt (hs_hub example_start)))\<rparr>\<rparr>"

lemma busy_hub_ok: "hub_inv [] (hs_hub busy_hub)"
proof -
  have "hub_inv [] (hs_hub example_start)"
    using hub_reachable [OF example_boot_mem example_mem_ok, of example_hub_env "map_wifi True" "[]" "''AA:BB''" True
        "[]" Map.empty example_start] hub_reach.start [of example_hub_env "map_wifi True" example_start]
    by (simp add: example_start_def sys_ok_def)
  then show ?thesis
    by (auto simp: busy_hub_def hub_inv_def ble_inv_def queues_ok_def tsq_unsafe_same intro!: tsq.inv_push)
qed

theorem loop_publishes_everything_witness:
  "let h = hs_hub busy_hub; h' = hs_hub (hub_loop example_hub_env (map_wifi True) None True busy_hub) in
    map sr_node_id (reports (hb_ble h)) = [''aa''] \<and> map ar_node_id (acks (hb_ble h)) = [''aa'']
    \<and> length (mq_log (hb_mqtt h')) = length (mq_log (hb_mqtt h)) + 2
    \<and> reports (hb_ble h') = [] \<and> acks (hb_ble h') = []"
proof -
  let ?h = "hs_hub busy_hub" and ?m = "mqttLoop True (hb_mqtt (hs_hub busy_hub))"
  have queues: "map sr_node_id (reports (hb_ble ?h)) = [''aa'']" "map ar_node_id (acks (hb_ble ?h)) = [''aa'']"
    and m: "mq_connected ?m" "mq_log ?m = mq_log (hb_mqtt ?h)"
    by code_simp+
  have "length (reports (hb_ble ?h)) = 1" "length (acks (hb_ble ?h)) = 1"
    using arg_cong [OF queues(1), of length] arg_cong [OF queues(2), of length] by simp_all
  moreover have "\<forall>n. be_events (he_ble example_hub_env) n = []"
    by (simp add: example_hub_env_def example_env_def)
  ultimately show ?thesis
    using loop_publishes_everything [OF busy_hub_ok, of example_hub_env True "map_wifi True" None] queues m
    by (simp add: Let_def)
qed

end
