(* ===== verification/Boot.thy ===== *)
theory Boot
  imports Hub_Main
begin

text \<open>
  The start of the hub as a whole: the wait for a serial monitor in \<open>setup\<close> of \<^verbatim>\<open>hub/main.cpp\<close>, and the root
  certificate of \<^verbatim>\<open>net/root_ca.h\<close> that \<open>mqttInit\<close> gives to the MQTT client.
\<close>

section \<open>Waiting for the serial monitor\<close>

definition BOOT_DELAY_MS :: nat where "BOOT_DELAY_MS = 3000"
definition SERIAL_TIMEOUT_MS :: u32 where "SERIAL_TIMEOUT_MS = 6000"

text \<open>
  \<open>ready n\<close> is the \<open>n\<close>-th test of \<open>Serial\<close>, \<open>millis n\<close> the reading of the clock that follows it.  The loop
  may in principle run for ever.
\<close>

partial_function (option) serial_wait :: "(nat \<Rightarrow> u32) \<Rightarrow> (nat \<Rightarrow> bool) \<Rightarrow> nat \<Rightarrow> nat option" where
  "serial_wait millis ready n =
     (if \<not> ready n \<and> millis n < SERIAL_TIMEOUT_MS then serial_wait millis ready (Suc n) else Some n)"

section \<open>The root certificate\<close>

definition root_ca_lines :: "string list" where
  "root_ca_lines = [
     ''-----BEGIN CERTIFICATE-----'',
     ''MIIDejCCAmKgAwIBAgIQf+UwvzMTQ77dghYQST2KGzANBgkqhkiG9w0BAQsFADBX'',
     ''MQswCQYDVQQGEwJCRTEZMBcGA1UEChMQR2xvYmFsU2lnbiBudi1zYTEQMA4GA1UE'',
     ''CxMHUm9vdCBDQTEbMBkGA1UEAxMSR2xvYmFsU2lnbiBSb290IENBMB4XDTIzMTEx'',
     ''NTAzNDMyMVoXDTI4MDEyODAwMDA0MlowRzELMAkGA1UEBhMCVVMxIjAgBgNVBAoT'',
     ''GUdvb2dsZSBUcnVzdCBTZXJ2aWNlcyBMTEMxFDASBgNVBAMTC0dUUyBSb290IFI0'',
     ''MHYwEAYHKoZIzj0CAQYFK4EEACIDYgAE83Rzp2iLYK5DuDXFgTB7S0md+8Fhzube'',
     ''Rr1r1WEYNa5A3XP3iZEwWus87oV8okB2O6nGuEfYKueSkWpz6bFyOZ8pn6KY019e'',
     ''WIZlD6GEZQbR3IvJx3PIjGov5cSr0R2Ko4H/MIH8MA4GA1UdDwEB/wQEAwIBhjAd'',
     ''BgNVHSUEFjAUBggrBgEFBQcDAQYIKwYBBQUHAwIwDwYDVR0TAQH/BAUwAwEB/zAd'',
     ''BgNVHQ4EFgQUgEzW63T/STaj1dj8tT7FavCUHYwwHwYDVR0jBBgwFoAUYHtmGkUN'',
     ''l8qJUC99BM00qP/8/UswNgYIKwYBBQUHAQEEKjAoMCYGCCsGAQUFBzAChhpodHRw'',
     ''Oi8vaS5wa2kuZ29vZy9nc3IxLmNydDAtBgNVHR8EJjAkMCKgIKAehhxodHRwOi8v'',
     ''Yy5wa2kuZ29vZy9yL2dzcjEuY3JsMBMGA1UdIAQMMAowCAYGZ4EMAQIBMA0GCSqG'',
     ''SIb3DQEBCwUAA4IBAQAYQrsPBtYDh5bjP2OBDwmkoWhIDDkic574y04tfzHpn+cJ'',
     ''odI2D4SseesQ6bDrarZ7C30ddLibZatoKiws3UL9xnELz4ct92vID24FfVbiI1hY'',
     ''+SW6FoVHkNeWIP0GCbaM4C6uVdF5dTUsMVs/ZbzNnIdCp5Gxmx5ejvEau8otR/Cs'',
     ''kGN+hr/W5GvT1tMBjgWKZ1i4//emhA1JG1BbPzoLJQvyEotc03lXjTaCzv8mEbep'',
     ''8RqZ7a2CPsgRbuvTPBwcOMBBmuFeU88+FSBX6+7iP0il8b4Z0QFqIwwMHfs/L6K1'',
     ''vepuoxtGzi4CZ68zJpiq1UvSqTbFJjtbD4seiMHl'',
     ''-----END CERTIFICATE-----'']"

definition root_ca :: string where
  "root_ca = concat (map (\<lambda>l. l @ [CHR 0x0A]) root_ca_lines)"

text \<open>The text is in the form that the TLS library reads: a header, base64 in lines of at most 64, a footer.\<close>

definition base64 :: "char \<Rightarrow> bool" where
  "base64 c \<longleftrightarrow>
     (let n = of_char c :: nat
      in 65 \<le> n \<and> n \<le> 90 \<or> 97 \<le> n \<and> n \<le> 122 \<or> 48 \<le> n \<and> n \<le> 57 \<or> c = CHR ''+'' \<or> c = CHR ''/'')"

lemma root_ca_is_pem:
  "hd root_ca_lines = ''-----BEGIN CERTIFICATE-----''" "last root_ca_lines = ''-----END CERTIFICATE-----''"
  "list_all (\<lambda>l. length l \<le> 64 \<and> list_all base64 l) (butlast (tl root_ca_lines))"
  by code_simp+

section \<open>Setup\<close>

definition hub_boot ::
  "('adr, 'j) hub_env \<Rightarrow> 'nvs wifi_api \<Rightarrow> (nat \<Rightarrow> u32) \<Rightarrow> (nat \<Rightarrow> bool) \<Rightarrow> string \<Rightarrow> bool
   \<Rightarrow> ('adr, 'nvs) hub_sys \<Rightarrow> ('adr, 'nvs) hub_sys option" where
  "hub_boot env api millis ready mac wifiUp s =
     map_option (\<lambda>_. hub_setup env api root_ca mac wifiUp s) (serial_wait millis ready 0)"

lemma serial_wait_stops:
  assumes "k \<ge> n" and "ready k \<or> SERIAL_TIMEOUT_MS \<le> millis k"
  shows "\<exists>m \<le> k. serial_wait millis ready n = Some m \<and> (ready m \<or> SERIAL_TIMEOUT_MS \<le> millis m)"
  using assms(1)
proof (induction n rule: inc_induct)
  case base
  from assms(2) show ?case by (subst serial_wait.simps) auto
next
  case (step n)
  show ?case
  proof (cases "\<not> ready n \<and> millis n < SERIAL_TIMEOUT_MS")
    case True
    with step.IH show ?thesis by (subst serial_wait.simps) simp
  next
    case False
    with step.hyps show ?thesis
      by (intro exI [of _ n]) (subst serial_wait.simps, auto)
  qed
qed

section \<open>Properties\<close>

text \<open>
  C33: the hub starts without a serial monitor: as soon as the clock has passed six seconds, at the latest,
  the wait in \<open>setup\<close> ends and the hub is set up, with the certificate of \<^verbatim>\<open>root_ca.h\<close> in the
  configuration of its MQTT client.
\<close>

theorem hub_boot_returns:
  assumes "6000 \<le> millis k"
  shows "\<exists>s'. hub_boot env api millis ready mac wifiUp s = Some s'
    \<and> (\<exists>cfg. ClientInit cfg \<in> set (mq_log (hb_mqtt (hs_hub s'))) \<and> cfg_cert_pem cfg = root_ca
         \<and> cfg_uri cfg = MQTT_BROKER_URI)"
proof -
  obtain m where "serial_wait millis ready 0 = Some m"
    using serial_wait_stops [of 0 k ready millis] assms by (auto simp: SERIAL_TIMEOUT_MS_def)
  then show ?thesis
    by (auto simp: hub_boot_def hub_setup_def mqttInit_def mq_do_def Let_def)
qed

theorem hub_boot_returns_witness:
  "\<exists>s'. hub_boot example_hub_env (map_wifi True) (\<lambda>n. 3000 + 10 * word_of_nat n) (\<lambda>_. False) ''AA:BB'' True
     example_start = Some s'"
proof -
  have "(6000 :: u32) \<le> 3000 + 10 * word_of_nat 300" by simp
  from hub_boot_returns [of "\<lambda>n. 3000 + 10 * word_of_nat n" 300, OF this] show ?thesis by blast
qed

end
