(* ===== verification/Ir_Node.thy ===== *)
theory Ir_Node
  imports Prelude
begin

text \<open>
  The IR node, \<^verbatim>\<open>ir/main.cpp\<close>: so far it initialises its transmitter and does nothing else.  \<open>IRsend\<close> belongs to a
  library, so the calls to it and to the serial line are a log.
\<close>

definition IR_PIN :: u8 where "IR_PIN = 3"

datatype ir_call = IrSend u8 | SerialBegin nat | IrBegin | SerialPrintln string

definition ir_boot :: "ir_call list" where
  "ir_boot = [IrSend IR_PIN]"

definition ir_setup :: "ir_call list \<Rightarrow> ir_call list" where
  "ir_setup log = log @ [SerialBegin 115200, IrBegin, SerialPrintln ''ir node ready'']"

definition ir_loop :: "ir_call list \<Rightarrow> ir_call list" where
  "ir_loop log = log"

text \<open>However often \<open>loop\<close> runs, the transmitter is initialised once, on its pin, and nothing is ever sent.\<close>

lemma ir_node_idle:
  "(ir_loop ^^ n) (ir_setup ir_boot)
     = [IrSend 3, SerialBegin 115200, IrBegin, SerialPrintln ''ir node ready'']"
proof -
  have "ir_loop = id" by (simp add: fun_eq_iff ir_loop_def)
  then show ?thesis by (simp add: ir_boot_def ir_setup_def IR_PIN_def)
qed

end
