(* ===== verification/Hub_Monitor.thy ===== *)
theory Hub_Monitor
  imports Hub_Main
begin

text \<open>
  An interface for invariants of the hub.  A predicate on the hub's state that survives the few elementary
  things the hub does to its queues, its pool and the outside world (a change of the connection
  state, a notification, a write, a step of the pool) survives every operation of the main loop, with all
  the callbacks that run in it.  \<open>hub_monitor\<close> is proved once; each invariant is an interpretation.
\<close>

section \<open>The elementary changes\<close>

definition wrote :: "nat \<Rightarrow> byte list \<Rightarrow> bool \<Rightarrow> 'adr ble \<Rightarrow> 'adr ble" where
  "wrote ch pkt ok b = b\<lparr>bl_writes := bl_writes b @ [(ch, pkt, ok)]\<rparr>"

definition on_ble :: "('adr ble \<Rightarrow> 'adr ble) \<Rightarrow> 'adr hub \<Rightarrow> 'adr hub" where
  "on_ble f h = h\<lparr>hb_ble := f (hb_ble h)\<rparr>"

definition ready_packet :: "byte list" where
  "ready_packet = bytes_HubReady \<lparr>hr_type = msg_code HUB_READY\<rparr>"

text \<open>Two BLE states that differ at most in the connection state: slots, scanner, LED, counters.\<close>

definition same_traffic :: "'adr ble \<Rightarrow> 'adr ble \<Rightarrow> bool" where
  "same_traffic b b' \<longleftrightarrow> bl_reportQueue b' = bl_reportQueue b \<and> bl_ackQueue b' = bl_ackQueue b
     \<and> bl_writes b' = bl_writes b"

lemma same_traffic_refl [simp, intro]: "same_traffic b b"
  by (simp add: same_traffic_def)

lemma same_traffic_setNode [simp]: "same_traffic b (setNode i f b)"
  by (simp add: same_traffic_def setNode_def)

lemma same_traffic_event:
  "same_traffic b (onDisconnect c b)" "same_traffic b (onResult services addr b)"
  by (auto simp: same_traffic_def onDisconnect_def onResult_def setNode_def Let_def split: option.splits)

lemma same_traffic_ops:
  "same_traffic b (stashClient c b)" "same_traffic b (snd (findReusableClient b))"
  "same_traffic b (cleanupDisconnected b)"
  by (auto simp: same_traffic_def stashClient_def findReusableClient_def cleanupDisconnected_def
      setNode_def split: option.splits)

text \<open>Updates of the hub's state in one order.\<close>

lemma hub_order:
  "h\<lparr>hb_reads := n, hb_pool := p\<rparr> = h\<lparr>hb_pool := p, hb_reads := n\<rparr>"
  "h\<lparr>hb_reads := n, hb_ble := b\<rparr> = h\<lparr>hb_ble := b, hb_reads := n\<rparr>"
  "h\<lparr>hb_pool := p, hb_ble := b\<rparr> = h\<lparr>hb_ble := b, hb_pool := p\<rparr>"
  by simp_all

text \<open>What sending a command does: nothing, or one write followed by callbacks.\<close>

lemma trySend_cases:
  assumes "trySend e js c b = (ok, b')"
  obtains (nothing) "\<not> ok" "b' = b"
    | (written) pkt ch where "packet_of js c = Some pkt" "b' = ble_call e (wrote ch pkt ok b)"
proof (cases "packet_of js c")
  case None
  with assms have "\<not> ok" "b' = b" by (simp_all add: trySend_packet)
  then show ?thesis by (rule nothing)
next
  case (Some pkt)
  show ?thesis
  proof (cases "bleSendToNode e b (mc_target c) pkt = (False, b)")
    case True
    with assms Some have "\<not> ok" "b' = b" by (simp_all add: trySend_packet)
    then show ?thesis by (rule nothing)
  next
    case False
    then obtain ch where "bleSendToNode e b (mc_target c) pkt = writeValue e b ch pkt"
      by (auto simp: bleSendToNode_def split: option.splits)
    with assms Some have "writeValue e b ch pkt = (ok, b')" by (simp add: trySend_packet)
    then have "b' = ble_call e (wrote ch pkt ok b)" by (auto simp: writeValue_def wrote_def Let_def)
    with Some show ?thesis by (rule written)
  qed
qed

section \<open>The interface\<close>

locale hub_monitor =
  fixes env :: "('adr, 'j) hub_env"
    and ev_ok :: "'adr ble_event \<Rightarrow> bool"
    and P :: "'adr hub \<Rightarrow> bool"
  assumes events_ok: "e \<in> set (be_events (he_ble env) n) \<Longrightarrow> ev_ok e"
    and quiet: "P h \<Longrightarrow> same_traffic (hb_ble h) b \<Longrightarrow> P (h\<lparr>hb_ble := b\<rparr>)"
    and reads: "P h \<Longrightarrow> P (h\<lparr>hb_reads := k\<rparr>)"
    and mqtt: "P h \<Longrightarrow> P (h\<lparr>hb_mqtt := m\<rparr>)"
    and notified: "P h \<Longrightarrow> ev_ok (Notified src data rssi)
      \<Longrightarrow> P (on_ble (onDataNotify (be_toString (he_ble env)) src data rssi) h)"
    and got_report: "P h \<Longrightarrow> P (on_ble (\<lambda>b. snd (bleGetPendingReport b)) h)"
    and got_ack: "P h \<Longrightarrow> P (on_ble (\<lambda>b. snd (bleGetPendingAck b)) h)"
    and ready: "P h \<Longrightarrow> P (on_ble (wrote ch ready_packet ok) h)"
    and popped_none: "P h \<Longrightarrow> pool_pop now (hb_pool h) node = (None, p) \<Longrightarrow> P (h\<lparr>hb_pool := p\<rparr>)"
    and popped_sent: "P h \<Longrightarrow> pool_pop now (hb_pool h) node = (Some c, p)
      \<Longrightarrow> packet_of (he_json env) c = Some pkt \<Longrightarrow> P (on_ble (wrote ch pkt True) (h\<lparr>hb_pool := p\<rparr>))"
    and popped_failed: "P h \<Longrightarrow> pool_pop now (hb_pool h) node = (Some c, p)
      \<Longrightarrow> packet_of (he_json env) c = Some pkt \<Longrightarrow> P (on_ble (wrote ch pkt False) h)"
    and put_back: "P h \<Longrightarrow> pool_pop now (hb_pool h) node = (Some c, p)
      \<Longrightarrow> P (h\<lparr>hb_pool := snd (pool_pushFront now' p node c)\<rparr>)"
begin

text \<open>Callbacks, and the calls in which they run.\<close>

lemma quiet_ble: "P (h\<lparr>hb_ble := b\<rparr>) \<Longrightarrow> same_traffic b b' \<Longrightarrow> P (h\<lparr>hb_ble := b'\<rparr>)"
  using quiet [of "h\<lparr>hb_ble := b\<rparr>" b'] by simp

lemma event: "P (h\<lparr>hb_ble := b\<rparr>) \<Longrightarrow> ev_ok e \<Longrightarrow> P (h\<lparr>hb_ble := run_event (he_ble env) e b\<rparr>)"
  using notified [of "h\<lparr>hb_ble := b\<rparr>"]
  by (cases e) (auto simp: on_ble_def same_traffic_event intro: quiet_ble)

lemma events:
  "P (h\<lparr>hb_ble := b\<rparr>) \<Longrightarrow> list_all ev_ok es \<Longrightarrow> P (h\<lparr>hb_ble := run_events (he_ble env) es b\<rparr>)"
  unfolding run_events_def by (induction es arbitrary: b) (auto intro: event)

lemma call: "P (h\<lparr>hb_ble := b\<rparr>) \<Longrightarrow> P (h\<lparr>hb_ble := ble_call (he_ble env) b\<rparr>)"
  unfolding ble_call_def using events_ok
  by (intro events) (auto simp: list_all_iff same_traffic_def intro: quiet_ble)

lemma write_ready:
  "P (h\<lparr>hb_ble := b\<rparr>) \<Longrightarrow> P (h\<lparr>hb_ble := snd (writeValue (he_ble env) b ch ready_packet)\<rparr>)"
  using ready [of "h\<lparr>hb_ble := b\<rparr>"] by (auto simp: writeValue_def Let_def on_ble_def wrote_def intro!: call)

text \<open>The steps of a connection.\<close>

lemma scan_set: "P (h\<lparr>hb_ble := b\<rparr>) \<Longrightarrow> P (h\<lparr>hb_ble := scan_set (he_ble env) on b\<rparr>)"
  unfolding scan_set_def by (rule call, erule quiet_ble) (simp add: same_traffic_def)

lemma acquire:
  assumes "P (h\<lparr>hb_ble := b\<rparr>)"
  shows "P (h\<lparr>hb_ble := snd (acquireClient (he_ble env) b)\<rparr>)"
proof -
  obtain r b1 where reuse: "findReusableClient b = (r, b1)" by fastforce
  have b1: "P (h\<lparr>hb_ble := b1\<rparr>)"
    using quiet_ble [OF assms same_traffic_ops(2)] reuse by simp
  then have "P (h\<lparr>hb_ble := b1\<lparr>bl_created := n\<rparr>\<rparr>)" for n
    by (rule quiet_ble) (simp add: same_traffic_def)
  with b1 reuse show ?thesis
    by (auto simp: acquireClient_def intro: call split: option.splits)
qed

lemma stash: "P (h\<lparr>hb_ble := b\<rparr>) \<Longrightarrow> P (h\<lparr>hb_ble := disconnectAndStash (he_ble env) c b\<rparr>)"
  unfolding disconnectAndStash_def by (rule quiet_ble [OF _ same_traffic_ops(1)], rule call)

lemma discover: "P (h\<lparr>hb_ble := b\<rparr>) \<Longrightarrow> P (h\<lparr>hb_ble := snd (discoverAndSubscribe (he_ble env) b)\<rparr>)"
  by (rule discoverAndSubscribe_keeps) (rule call)

lemma register:
  assumes "P (h\<lparr>hb_ble := b\<rparr>)"
  shows "P (h\<lparr>hb_ble := (hub_ready (he_ble env) slot
      (ble_call (he_ble env) (register_slot (he_ble env) slot c addr b)))\<lparr>bl_led := True\<rparr>\<rparr>)"
proof -
  have "P (h\<lparr>hb_ble := register_slot (he_ble env) slot c addr b\<rparr>)"
    unfolding register_slot_def Let_def
    by (rule quiet_ble [OF _ same_traffic_setNode], rule call, rule quiet_ble [OF assms same_traffic_setNode])
  then have called: "P (h\<lparr>hb_ble := ble_call (he_ble env) (register_slot (he_ble env) slot c addr b)\<rparr>)"
    by (rule call)
  have "P (h\<lparr>hb_ble := hub_ready (he_ble env) slot
      (ble_call (he_ble env) (register_slot (he_ble env) slot c addr b))\<rparr>)"
    using write_ready [OF called] called unfolding ready_packet_def hub_ready_def
    by (simp split: option.splits)
  then show ?thesis
    by (rule quiet_ble) (simp add: same_traffic_def)
qed

text \<open>Flushing.  A command is taken out, written, and perhaps put back; callbacks run after the write.\<close>

lemma send_popped:
  assumes "P h" and "pool_pop now (hb_pool h) node = (Some c, p)"
    and "trySend (he_ble env) (he_json env) c (hb_ble h) = (ok, b)"
  shows "if ok then P (h\<lparr>hb_ble := b, hb_pool := p\<rparr>)
         else P (h\<lparr>hb_ble := b, hb_pool := snd (pool_pushFront now' p node c)\<rparr>)"
proof -
  have failed: "P (h\<lparr>hb_ble := b, hb_pool := snd (pool_pushFront now' p node c)\<rparr>)"
    if "P (h\<lparr>hb_ble := b\<rparr>)"
  proof -
    have "pool_pop now (hb_pool (h\<lparr>hb_ble := b\<rparr>)) node = (Some c, p)" using assms(2) by simp
    from put_back [OF that this, of now'] show ?thesis .
  qed
  show ?thesis
    using assms(3)
  proof (cases rule: trySend_cases)
    case nothing
    with failed assms(1) show ?thesis by simp
  next
    case (written pkt ch)
    note b = written(2)
    show ?thesis
    proof (cases ok)
      case True
      have "P ((h\<lparr>hb_pool := p\<rparr>)\<lparr>hb_ble := wrote ch pkt True (hb_ble h)\<rparr>)"
        using popped_sent [OF assms(1,2) written(1), of ch] by (simp add: on_ble_def)
      from call [OF this] True b show ?thesis by (simp add: hub_order)
    next
      case False
      have "P (h\<lparr>hb_ble := wrote ch pkt False (hb_ble h)\<rparr>)"
        using popped_failed [OF assms(1,2) written(1), of ch] by (simp add: on_ble_def)
      from call [OF this] have "P (h\<lparr>hb_ble := b\<rparr>)" using False b by simp
      from failed [OF this] False show ?thesis by simp
    qed
  qed
qed

lemma flush_loop: "P h \<Longrightarrow> P (flushNode_loop env node h)"
proof (induction "pool_work (hb_pool h)" arbitrary: h rule: less_induct)
  case less
  obtain r p where pop: "pool_pop (clock env h) (hb_pool h) node = (r, p)" by fastforce
  show ?case
  proof (cases r)
    case None
    have "P (h\<lparr>hb_pool := p, hb_reads := Suc (hb_reads h)\<rparr>)"
      using reads [OF popped_none [OF less.prems pop [unfolded None]]] by simp
    then show ?thesis
      using pop None by (subst flushNode_loop.simps) (simp add: read_clock_def hub_order)
  next
    case (Some c)
    obtain ok b where send: "trySend (he_ble env) (he_json env) c (hb_ble h) = (ok, b)" by fastforce
    define h2 where "h2 = h\<lparr>hb_ble := b, hb_pool := p, hb_reads := Suc (hb_reads h)\<rparr>"
    have now: "send_now env c ((read_clock h)\<lparr>hb_pool := p\<rparr>) = (ok, h2)"
      using send by (simp add: send_now_def read_clock_def h2_def)
    note popped = send_popped [OF less.prems pop [unfolded Some] send]
    show ?thesis
    proof (cases ok)
      case True
      have "P h2" using reads [of "h\<lparr>hb_ble := b, hb_pool := p\<rparr>"] popped True by (simp add: h2_def)
      moreover have "pool_work (hb_pool h2) < pool_work (hb_pool h)"
        using pool_pop_work [OF pop [unfolded Some]] by (simp add: h2_def)
      ultimately have "P (flushNode_loop env node h2)" by (intro less.hyps)
      then show ?thesis
        using pop Some now True by (subst flushNode_loop.simps) simp
    next
      case False
      have eq: "flushNode_loop env node h
          = (read_clock h2)\<lparr>hb_pool := snd (pool_pushFront (clock env h2) p node c)\<rparr>"
        using pop Some now False by (subst flushNode_loop.simps) (simp add: h2_def)
      have "P ((h\<lparr>hb_ble := b, hb_pool := snd (pool_pushFront (clock env h2) p node c)\<rparr>)
          \<lparr>hb_reads := Suc (Suc (hb_reads h))\<rparr>)"
        using popped False by (intro reads) simp
      then show ?thesis by (simp add: eq h2_def read_clock_def hub_order)
    qed
  qed
qed

lemma flush: "P h \<Longrightarrow> P (flushNodePending env node h)"
  by (simp add: flushNodePending_def flush_loop)

lemma flush_all: "P h \<Longrightarrow> P (flushAllPending env h)"
proof -
  have "P (flushAll_loop env idx h)" if "P h" for idx
    using that
  proof (induction "length (pp_slots (hb_pool h)) - idx" arbitrary: h idx rule: less_induct)
    case less
    show ?case
    proof (cases "pool_nextNode (hb_pool h) idx 18")
      case None
      with less.prems show ?thesis by (subst flushAll_loop.simps) simp
    next
      case (Some x)
      obtain idx' node where x: "x = (idx', node)" by fastforce
      have "P (flushAll_loop env idx' (flushNodePending env node h))"
        using pool_nextNode_from [OF Some [unfolded x]] less.prems
        by (intro less.hyps) (auto simp: flushNodePending_slots intro: flush)
      with Some x show ?thesis by (subst flushAll_loop.simps) simp
    qed
  qed
  then show "P h \<Longrightarrow> P (flushAllPending env h)" by (simp add: flushAllPending_def)
qed

text \<open>The BLE loop.\<close>

lemma connect: "P h \<Longrightarrow> P (snd (connectToNode env addr h))"
proof (cases "findEmptySlot (hb_ble h)")
  case (Some slot)
  assume "P h"
  let ?e = "he_ble env"
  obtain r b1 where acq: "acquireClient ?e (hb_ble h) = (r, b1)" by fastforce
  have b1: "P (h\<lparr>hb_ble := b1\<rparr>)"
    using acquire [of "hb_ble h" h] \<open>P h\<close> acq by simp
  obtain ok b3 where disc: "discoverAndSubscribe ?e (ble_call ?e b1) = (ok, b3)" by fastforce
  have b3: "P (h\<lparr>hb_ble := b3\<rparr>)"
    using discover [OF call [OF b1]] disc by simp
  have "P (registerNode env slot c addr (h\<lparr>hb_ble := b3\<rparr>))" for c
    unfolding registerNode_steps using register [OF b3] by (intro flush) simp
  then show ?thesis
    using b1 b3 acq disc Some call [OF b1]
    by (auto simp: connectToNode_def Let_def intro: stash split: option.splits bool.splits)
qed (simp add: connectToNode_def)

lemma process_next: "P h \<Longrightarrow> P (processNextPending env h)"
proof -
  assume h: "P h"
  obtain r q where pop: "tsq_pop PENDING_MAX (bl_pendingQueue (hb_ble h)) = (r, q)" by fastforce
  have q: "P (h\<lparr>hb_ble := (hb_ble h)\<lparr>bl_pendingQueue := q\<rparr>\<rparr>)"
    using quiet [OF h] by (simp add: same_traffic_def)
  show ?thesis
  proof (cases r)
    case None
    with pop q show ?thesis by (simp add: processNextPending_def)
  next
    case (Some addr)
    define h2 where "h2 = snd (connectToNode env addr (h\<lparr>hb_ble := scan_set (he_ble env) False
        ((hb_ble h)\<lparr>bl_pendingQueue := q\<rparr>)\<rparr>))"
    have "P h2" unfolding h2_def by (rule connect [OF scan_set [OF q]])
    then have "P (h2\<lparr>hb_ble := scan_set (he_ble env) True (hb_ble h2)\<rparr>)"
      by (intro scan_set) simp
    with pop Some show ?thesis by (simp add: processNextPending_def h2_def Let_def)
  qed
qed

lemma print_status: "P h \<Longrightarrow> P (printStatus env h)"
proof -
  assume h: "P h"
  have "P (h\<lparr>hb_reads := n, hb_ble := (hb_ble h)\<lparr>bl_lastPrint := t\<rparr>\<rparr>)" for n t
    using quiet [OF reads [OF h]] by (simp add: same_traffic_def)
  with reads [OF h] show ?thesis
    by (simp add: printStatus_def read_clock_def Let_def)
qed

lemma central_loop: "P h \<Longrightarrow> P (bleCentralLoop env h)"
proof -
  assume h: "P h"
  let ?b = "cleanupDisconnected (hb_ble h)"
  have b: "P (h\<lparr>hb_ble := ?b\<rparr>)" by (rule quiet [OF h same_traffic_ops(3)])
  have "P (h\<lparr>hb_ble := ?b\<lparr>bl_doScan := d\<rparr>\<rparr>)" for d
    by (rule quiet_ble [OF b]) (simp add: same_traffic_def)
  with b show ?thesis
    by (auto simp: bleCentralLoop_def Let_def intro: print_status process_next scan_set)
qed

text \<open>Publishing, and the whole pass.\<close>

lemma publish_mqtt: "P h \<Longrightarrow> P (publish env json h)"
  by (simp add: publish_def mqtt)

lemma reports_published: "P h \<Longrightarrow> P (publish_reports env h)"
proof (induction "nat (tsq_count (bl_reportQueue (hb_ble h)))" arbitrary: h rule: less_induct)
  case less
  obtain r b where get: "bleGetPendingReport (hb_ble h) = (r, b)" by fastforce
  have b: "P (h\<lparr>hb_ble := b\<rparr>)" using got_report [OF less.prems] get by (simp add: on_ble_def)
  show ?case
  proof (cases r)
    case None
    with get b show ?thesis by (subst publish_reports.simps) simp
  next
    case (Some x)
    have "P ((read_clock h)\<lparr>hb_ble := b\<rparr>)" using reads [OF b] by (simp add: read_clock_def hub_order)
    from less.hyps [OF _ publish_mqtt [OF this]] bleGetPendingReport_less [OF get [unfolded Some]] get Some
    show ?thesis by (subst publish_reports.simps) (simp add: publish_def)
  qed
qed

lemma acks_published: "P h \<Longrightarrow> P (publish_acks env h)"
proof (induction "nat (tsq_count (bl_ackQueue (hb_ble h)))" arbitrary: h rule: less_induct)
  case less
  obtain r b where get: "bleGetPendingAck (hb_ble h) = (r, b)" by fastforce
  have b: "P (h\<lparr>hb_ble := b\<rparr>)" using got_ack [OF less.prems] get by (simp add: on_ble_def)
  show ?case
  proof (cases r)
    case None
    with get b show ?thesis by (subst publish_acks.simps) simp
  next
    case (Some x)
    from less.hyps [OF _ publish_mqtt [OF b]] bleGetPendingAck_less [OF get [unfolded Some]] get Some
    show ?thesis by (subst publish_acks.simps) (simp add: publish_def)
  qed
qed

lemma loop: "P (hs_hub s) \<Longrightarrow> P (hs_hub (hub_loop env api serial wifiUp s))"
proof -
  assume "P (hs_hub s)"
  then have "P (flushAllPending env (publish_acks env (publish_reports env
      (on_mqtt (mqttLoop wifiUp) (bleCentralLoop env (hs_hub s))))))"
    unfolding on_mqtt_def by (intro flush_all acks_published reports_published mqtt central_loop)
  then show ?thesis
    unfolding hub_loop_def loop_delay_def by (simp add: call)
qed

end

section \<open>Receiving a command\<close>

text \<open>
  Receiving a command may take the hub from one invariant to a weaker one, e.g. one that counts
  the command.
\<close>

locale hub_receiver = hub_monitor env ev_ok P
  for env :: "('adr, 'j) hub_env" and ev_ok and P +
  fixes recv :: "MqttCommand \<Rightarrow> bool"
    and P' :: "MqttCommand \<Rightarrow> 'adr hub \<Rightarrow> bool"
  assumes after: "recv c \<Longrightarrow> hub_monitor env ev_ok (P' c)"
    and kept: "recv c \<Longrightarrow> P h \<Longrightarrow> P' c h"
    and sent_now: "recv c \<Longrightarrow> P h \<Longrightarrow> packet_of (he_json env) c = Some pkt
      \<Longrightarrow> P' c (on_ble (wrote ch pkt True) h)"
    and failed_now: "recv c \<Longrightarrow> P h \<Longrightarrow> packet_of (he_json env) c = Some pkt
      \<Longrightarrow> P (on_ble (wrote ch pkt False) h)"
    and queued: "recv c \<Longrightarrow> P h \<Longrightarrow> P' c (h\<lparr>hb_pool := snd (pool_push now (hb_pool h) (mc_target c) c)\<rparr>)"
begin

lemma send_received:
  assumes "recv c" and "P h" and "send_now env c h = (ok, h')"
  shows "if ok then P' c h' else P h'"
proof -
  obtain b where h': "h' = h\<lparr>hb_ble := b\<rparr>"
    and send: "trySend (he_ble env) (he_json env) c (hb_ble h) = (ok, b)"
    using assms(3) by (auto simp: send_now_def split: prod.splits)
  show ?thesis
    using send
  proof (cases rule: trySend_cases)
    case nothing
    with assms(2) show ?thesis by (simp add: h')
  next
    case (written pkt ch)
    have "P' c (h\<lparr>hb_ble := wrote ch pkt True (hb_ble h)\<rparr>)" "P (h\<lparr>hb_ble := wrote ch pkt False (hb_ble h)\<rparr>)"
      using sent_now [OF assms(1,2) written(1), of ch] failed_now [OF assms(1,2) written(1), of ch]
      by (simp_all add: on_ble_def)
    from hub_monitor.call [OF after [OF assms(1)] this(1)] call [OF this(2)] show ?thesis
      by (cases ok) (simp_all add: h' written(2))
  qed
qed

lemma hub_command: "P h \<Longrightarrow> P (handleHubCommand env c h)"
  by (simp add: handleHubCommand_def handleHubStatus_def read_clock_def reads publish_mqtt)

lemma dispatch: "recv c \<Longrightarrow> P h \<Longrightarrow> P' c (dispatchCommand env c h)"
proof -
  assume c: "recv c" and h: "P h"
  obtain ok h1 where send: "send_now env c h = (ok, h1)" by fastforce
  note sent = send_received [OF c h send]
  show ?thesis
  proof (cases "cstr (mc_target c) = [] \<or> ok")
    case True
    with send sent kept [OF c hub_command [OF h]] show ?thesis
      by (auto simp: dispatchCommand_def split: if_splits)
  next
    case False
    have "P' c ((h1\<lparr>hb_pool := snd (pool_push (clock env h1) (hb_pool h1) (mc_target c) c)\<rparr>)
        \<lparr>hb_reads := Suc (hb_reads h1)\<rparr>)"
      using sent False by (intro hub_monitor.reads [OF after] queued c) simp
    with False send show ?thesis by (simp add: dispatchCommand_def read_clock_def hub_order)
  qed
qed

end

end
