(* ===== verification/Pool_Race.thy ===== *)
theory Pool_Race
  imports Pending_Pool "HOL-Library.Sublist" "HOL-Library.Multiset"
begin

text \<open>
  The two tasks that share the pool.  The main task flushes a node: it takes a command out, writes
  it (which blocks for as long as the radio needs), and puts it back if the write has failed; the
  MQTT task dispatches commands meanwhile.  Each pool operation is one critical section, so it is
  one step; between the steps of one task, any steps of the other can happen.
\<close>

section \<open>The interleaved steps\<close>

text \<open>
  \<open>ra_hand\<close> is the command in the main task's local variable; the lists are histories: the commands
  that \<open>push\<close> has accepted for the node, those written from the pool, those that \<open>pop\<close> has dropped
  as expired and those that \<open>pushFront\<close> has refused.
\<close>

record race =
  ra_pool :: PendingPool
  ra_hand :: "MqttCommand option"
  ra_accepted :: "MqttCommand list"
  ra_sent :: "MqttCommand list"
  ra_expired :: "MqttCommand list"
  ra_lost :: "MqttCommand list"

definition race_start :: "Slot list \<Rightarrow> race" where
  "race_start mem = \<lparr>ra_pool = pool_new mem, ra_hand = None, ra_accepted = [], ra_sent = [],
     ra_expired = [], ra_lost = []\<rparr>"

definition expired_at :: "u32 \<Rightarrow> PendingPool \<Rightarrow> string \<Rightarrow> MqttCommand list" where
  "expired_at now p node = takeWhile (\<lambda>c. \<not> cmd_fresh now c) (mb_pending (pool_abs p) node)"

text \<open>
  The steps: the main task's \<open>pop\<close> (\<open>take\<close>), its successful write (\<open>sent\<close>), its \<open>pushFront\<close> after a failed
  one (\<open>put_back\<close>); the MQTT task's \<open>push\<close>; and both tasks' operations for other nodes (\<open>other\<close>).
\<close>

inductive race_step :: "string \<Rightarrow> race \<Rightarrow> race \<Rightarrow> bool" for node where
  take: "ra_hand r = None \<Longrightarrow> pool_pop now (ra_pool r) node = (res, p)
    \<Longrightarrow> race_step node r (r\<lparr>ra_pool := p, ra_hand := res,
          ra_expired := ra_expired r @ expired_at now (ra_pool r) node\<rparr>)"
| sent: "ra_hand r = Some c
    \<Longrightarrow> race_step node r (r\<lparr>ra_hand := None, ra_sent := ra_sent r @ [c]\<rparr>)"
| put_back: "ra_hand r = Some c \<Longrightarrow> pool_pushFront now (ra_pool r) node c = (ok, p)
    \<Longrightarrow> race_step node r (r\<lparr>ra_pool := p, ra_hand := None,
          ra_lost := ra_lost r @ (if ok then [] else [c])\<rparr>)"
| push: "pool_push now (ra_pool r) node c = (ok, p)
    \<Longrightarrow> race_step node r (r\<lparr>ra_pool := p, ra_accepted := ra_accepted r @ (if ok then [c] else [])\<rparr>)"
| other: "fits 18 n \<Longrightarrow> n \<noteq> node
    \<Longrightarrow> p \<in> {snd (pool_push now (ra_pool r) n c), snd (pool_pushFront now (ra_pool r) n c),
          snd (pool_pop now (ra_pool r) n)}
    \<Longrightarrow> race_step node r (r\<lparr>ra_pool := p\<rparr>)"

inductive race_reach :: "string \<Rightarrow> race \<Rightarrow> race \<Rightarrow> bool" for node r0 where
  start: "race_reach node r0 r0"
| step: "race_reach node r0 r \<Longrightarrow> race_step node r r' \<Longrightarrow> race_reach node r0 r'"

section \<open>Order and multiplicity\<close>

text \<open>A command without its time stamp.\<close>

definition unstamp :: "MqttCommand \<Rightarrow> MqttCommand" where
  "unstamp c = c\<lparr>mc_queued_at := 0\<rparr>"

lemma unstamp_stamp [simp]: "unstamp (c\<lparr>mc_queued_at := t\<rparr>) = unstamp c"
  by (simp add: unstamp_def)

definition in_hand :: "race \<Rightarrow> MqttCommand list" where
  "in_hand r = (case ra_hand r of None \<Rightarrow> [] | Some c \<Rightarrow> [c])"

text \<open>What has been written for the node, what is in hand, what waits: in the order of sending.\<close>

definition race_line :: "string \<Rightarrow> race \<Rightarrow> MqttCommand list" where
  "race_line node r = ra_sent r @ in_hand r @ mb_pending (pool_abs (ra_pool r)) node"

definition race_ok :: "string \<Rightarrow> race \<Rightarrow> bool" where
  "race_ok node r \<longleftrightarrow> pool_inv (ra_pool r)
     \<and> subseq (map unstamp (race_line node r)) (map unstamp (ra_accepted r))
     \<and> mset (map unstamp (ra_accepted r))
       = mset (map unstamp (race_line node r @ ra_expired r @ ra_lost r))"

lemma race_pushFront:
  assumes "pool_inv p" and "fits 18 node" and "pool_pushFront now p node c = (ok, p')"
  shows "pool_inv p'" and "mb_pending (pool_abs p') node
    = (if ok then [c\<lparr>mc_queued_at := now\<rparr>] else []) @ mb_pending (pool_abs p) node"
proof -
  show "pool_inv p'" using pool.inv_pushFront [OF assms(1,2), of now c] assms(3) by simp
  show "mb_pending (pool_abs p') node
    = (if ok then [c\<lparr>mc_queued_at := now\<rparr>] else []) @ mb_pending (pool_abs p) node"
    using pool.abs_pushFront [OF assms(1,2), of now c] assms(3)
    by (auto simp: mb_insert_def mb_pending_def split: option.splits if_splits)
qed

lemma race_push:
  assumes "pool_inv p" and "fits 18 n" and "pool_push now p n c = (ok, p')"
  shows "pool_inv p'" and "mb_pending (pool_abs p') node
    = mb_pending (pool_abs p) node @ (if ok \<and> n = node then [c\<lparr>mc_queued_at := now\<rparr>] else [])"
proof -
  show "pool_inv p'" using pool.inv_push [OF assms(1,2), of now c] assms(3) by simp
  show "mb_pending (pool_abs p') node
    = mb_pending (pool_abs p) node @ (if ok \<and> n = node then [c\<lparr>mc_queued_at := now\<rparr>] else [])"
    using pool.abs_push [OF assms(1,2), of now c] assms(3)
    by (auto simp: mb_insert_def mb_pending_def split: option.splits if_splits)
qed

lemma race_pop:
  assumes "pool_inv p" and "fits 18 node" and "pool_pop now p node = (res, p')"
  shows "pool_inv p'" and "mb_pending (pool_abs p) node
    = expired_at now p node @ (case res of None \<Rightarrow> [] | Some c \<Rightarrow> [c]) @ mb_pending (pool_abs p') node"
proof -
  show "pool_inv p'" using pool.inv_pop [OF assms(1,2), of now] assms(3) by simp
  let ?cs = "mb_pending (pool_abs p) node"
  have "dropWhile (\<lambda>c. \<not> cmd_fresh now c) ?cs
      = (case res of None \<Rightarrow> [] | Some c \<Rightarrow> [c]) @ mb_pending (pool_abs p') node"
    using pool.abs_pop [OF assms(1,2), of now] assms(3)
    by (auto simp: mb_pop_def mb_pending_def split: option.splits list.splits)
  then show "?cs = expired_at now p node @ (case res of None \<Rightarrow> [] | Some c \<Rightarrow> [c])
      @ mb_pending (pool_abs p') node"
    by (metis expired_at_def takeWhile_dropWhile_id)
qed

lemma subseq_cut: "subseq (xs @ ys @ zs) ws \<Longrightarrow> subseq (xs @ zs) ws"
  by (rule subseq_order.trans [of _ "xs @ ys @ zs"]) (auto intro: list_emb_append_mono list_emb_prefix)

lemma race_step_ok:
  assumes "race_step node r r'" and "fits 18 node" and "race_ok node r"
  shows "race_ok node r'"
  using assms(1)
proof (cases rule: race_step.cases)
  case (take now res p)
  let ?hand = "case res of None \<Rightarrow> [] | Some c \<Rightarrow> [c]"
  have inv: "pool_inv (ra_pool r)" using assms(3) by (simp add: race_ok_def)
  note q = race_pop [OF inv assms(2) take(3)]
  have "subseq (map unstamp (ra_sent r) @ map unstamp (expired_at now (ra_pool r) node)
      @ map unstamp (?hand @ mb_pending (pool_abs p) node)) (map unstamp (ra_accepted r))"
    using assms(3) take(2) q(2) by (simp add: race_ok_def race_line_def in_hand_def)
  from subseq_cut [OF this] show ?thesis
    using assms(3) take q by (simp add: race_ok_def race_line_def in_hand_def)
next
  case (sent c)
  with assms(3) show ?thesis by (simp add: race_ok_def race_line_def in_hand_def)
next
  case (put_back c now ok p)
  have inv: "pool_inv (ra_pool r)" using assms(3) by (simp add: race_ok_def)
  note q = race_pushFront [OF inv assms(2) put_back(3)]
  have "subseq (map unstamp (ra_sent r) @ map unstamp [c]
      @ map unstamp (mb_pending (pool_abs (ra_pool r)) node)) (map unstamp (ra_accepted r))"
    using assms(3) put_back(2) by (simp add: race_ok_def race_line_def in_hand_def)
  with subseq_cut [OF this] show ?thesis
    using assms(3) put_back q by (simp add: race_ok_def race_line_def in_hand_def)
next
  case (push now c ok p)
  have inv: "pool_inv (ra_pool r)" using assms(3) by (simp add: race_ok_def)
  note q = race_push(1) [OF inv assms(2) push(2)] race_push(2) [OF inv assms(2) push(2), of node]
  show ?thesis
    using assms(3) push q list_emb_append_mono
      [of "(=)" "map unstamp (race_line node r)" "map unstamp (ra_accepted r)" "[unstamp c]" "[unstamp c]"]
    by (simp add: race_ok_def race_line_def in_hand_def)
next
  case (other n p now c)
  have inv: "pool_inv (ra_pool r)" using assms(3) by (simp add: race_ok_def)
  have "pool_inv p" and "pool_abs p node = pool_abs (ra_pool r) node"
    using other(3,4) pool_inv_intros [OF inv other(2)] pool.frame [OF inv other(2), of node] by auto
  then show ?thesis
    using assms(3) other(1) by (simp add: race_ok_def race_line_def in_hand_def mb_pending_def)
qed

lemma race_start_ok: "pool_mem mem \<Longrightarrow> race_ok node (race_start mem)"
  by (simp add: race_ok_def race_start_def race_line_def in_hand_def pool_inv_new pool_abs_new
      mb_pending_def)

lemma race_reach_ok:
  assumes "race_reach node r0 r" and "fits 18 node" and "race_ok node r0"
  shows "race_ok node r"
  using assms(1)
  by induction (use assms race_step_ok in blast)+

section \<open>What the interleaving keeps and what it can lose\<close>

text \<open>C9: however the MQTT task's pushes are interleaved with a flush of the main task, the
  commands written from the pool, the one in hand and the ones that wait form a subsequence of the
  accepted ones, so no command overtakes another one; and every accepted command is in exactly one
  place: written, in hand, waiting, dropped by \<open>pop\<close> as expired, or refused by \<open>pushFront\<close>.\<close>

theorem race_keeps_order:
  assumes "pool_mem mem" and "fits 18 node" and "race_reach node (race_start mem) r"
  shows "subseq (map unstamp (ra_sent r @ in_hand r @ mb_pending (pool_abs (ra_pool r)) node))
           (map unstamp (ra_accepted r))
         \<and> mset (map unstamp (ra_accepted r))
           = mset (map unstamp (ra_sent r)) + mset (map unstamp (in_hand r))
             + mset (map unstamp (mb_pending (pool_abs (ra_pool r)) node))
             + mset (map unstamp (ra_expired r)) + mset (map unstamp (ra_lost r))"
  using race_reach_ok [OF assms(3,2) race_start_ok [OF assms(1)]]
  by (simp add: race_ok_def race_line_def add.assoc)

text \<open>One command accepted, taken and written.\<close>

definition example_race :: race where
  "example_race =
     (let (ok, p) = pool_push 5 (pool_new example_mem) ''aa'' example_cmd;
          (res, p') = pool_pop 9 p ''aa''
      in \<lparr>ra_pool = p', ra_hand = None, ra_accepted = (if ok then [example_cmd] else []),
          ra_sent = [the res], ra_expired = expired_at 9 p ''aa'', ra_lost = []\<rparr>)"

lemma example_push_pop:
  obtains p p' where "pool_push 5 (pool_new example_mem) ''aa'' example_cmd = (True, p)"
    and "pool_pop 9 p ''aa'' = (Some (example_cmd\<lparr>mc_queued_at := 5\<rparr>), p')"
proof -
  have node: "fits 18 ''aa''" by (simp add: fits_def)
  obtain ok p where push: "pool_push 5 (pool_new example_mem) ''aa'' example_cmd = (ok, p)"
    by fastforce
  obtain res p' where pop: "pool_pop 9 p ''aa'' = (res, p')" by fastforce
  note inv = pool_inv_new [OF example_mem_ok]
  from pool.abs_push [OF inv node, of 5 example_cmd] push
  have ok: "ok" and p: "pool_abs p = [''aa'' \<mapsto> [example_cmd\<lparr>mc_queued_at := 5\<rparr>]]"
    by (simp_all add: pool_abs_new mb_insert_def config_defs)
  from pool.abs_pop [OF pool.inv_push [OF inv node, of 5 example_cmd] node, of 9] push pop p
  have "res = Some (example_cmd\<lparr>mc_queued_at := 5\<rparr>)"
    by (simp add: mb_pop_def cmd_fresh_def config_defs)
  with ok push pop that show ?thesis by simp
qed

lemma example_race_reach: "race_reach ''aa'' (race_start example_mem) example_race"
proof -
  obtain p p' where push: "pool_push 5 (pool_new example_mem) ''aa'' example_cmd = (True, p)"
    and pop: "pool_pop 9 p ''aa'' = (Some (example_cmd\<lparr>mc_queued_at := 5\<rparr>), p')"
    by (rule example_push_pop)
  let ?r = "race_start example_mem"
  let ?r1 = "?r\<lparr>ra_pool := p, ra_accepted := ra_accepted ?r @ (if True then [example_cmd] else [])\<rparr>"
  let ?r2 = "?r1\<lparr>ra_pool := p', ra_hand := Some (example_cmd\<lparr>mc_queued_at := 5\<rparr>),
      ra_expired := ra_expired ?r1 @ expired_at 9 (ra_pool ?r1) ''aa''\<rparr>"
  let ?r3 = "?r2\<lparr>ra_hand := None, ra_sent := ra_sent ?r2 @ [example_cmd\<lparr>mc_queued_at := 5\<rparr>]\<rparr>"
  have 1: "race_step ''aa'' ?r ?r1"
    by (rule race_step.push [of 5]) (simp add: race_start_def push)
  have 2: "race_step ''aa'' ?r1 ?r2"
    by (rule race_step.take) (simp_all add: race_start_def pop)
  have 3: "race_step ''aa'' ?r2 ?r3"
    by (rule race_step.sent) simp
  have "race_reach ''aa'' ?r ?r3"
    by (rule race_reach.step [OF race_reach.step [OF race_reach.step [OF race_reach.start 1] 2] 3])
  moreover have "?r3 = example_race"
    by (simp add: example_race_def race_start_def push pop)
  ultimately show ?thesis by simp
qed

theorem race_keeps_order_witness:
  "ra_sent example_race = [example_cmd\<lparr>mc_queued_at := 5\<rparr>]
   \<and> subseq (map unstamp (ra_sent example_race)) (map unstamp (ra_accepted example_race))"
proof -
  have node: "fits 18 ''aa''" by (simp add: fits_def)
  have sub: "subseq (map unstamp (ra_sent example_race @ in_hand example_race
      @ mb_pending (pool_abs (ra_pool example_race)) ''aa'')) (map unstamp (ra_accepted example_race))"
    using race_keeps_order [OF example_mem_ok node example_race_reach] by blast
  have "subseq (map unstamp (ra_sent example_race)) (map unstamp (ra_accepted example_race))"
    by (rule subseq_order.trans [OF _ sub]) (simp add: list_emb_prefix)
  moreover obtain p p' where "pool_push 5 (pool_new example_mem) ''aa'' example_cmd = (True, p)"
    and "pool_pop 9 p ''aa'' = (Some (example_cmd\<lparr>mc_queued_at := 5\<rparr>), p')"
    by (rule example_push_pop)
  then have "ra_sent example_race = [example_cmd\<lparr>mc_queued_at := 5\<rparr>]"
    by (simp add: example_race_def)
  ultimately show ?thesis by blast
qed

text \<open>C25: the way a command is lost.  A node's list is full; the flush takes the oldest command out
  and its write fails; meanwhile the MQTT task's \<open>push\<close> fills the place; \<open>pushFront\<close> is refused, so
  the oldest command is gone although it has neither been written nor expired.\<close>

theorem race_loses_command:
  assumes "pool_inv p" and "fits 18 node"
    and "pool_abs p node = Some cs" and "int (length cs) = CMD_PENDING_PER_NODE"
    and "cmd_fresh now (List.hd cs)"
    and "pool_pop now p node = (res, p1)"
    and "pool_push now1 p1 node c = (ok1, p2)"
    and "pool_pushFront now2 p2 node (the res) = (ok2, p3)"
  shows "res = Some (List.hd cs) \<and> ok1 \<and> \<not> ok2
         \<and> pool_abs p3 node = Some (tl cs @ [c\<lparr>mc_queued_at := now1\<rparr>])"
proof -
  from assms(4) obtain d ds where cs: "cs = d # ds" and ds: "length ds = 3"
    by (cases cs) (auto simp: config_defs)
  from pool.abs_pop [OF assms(1,2), of now] assms(3,5,6) cs
  have res: "res = Some d" and p1: "pool_abs p1 = (pool_abs p)(node \<mapsto> ds)"
    by (simp_all add: mb_pop_def)
  have i1: "pool_inv p1" using pool.inv_pop [OF assms(1,2), of now] assms(6) by simp
  from pool.abs_push [OF i1 assms(2), of now1 c] assms(7) p1 ds
  have ok1: "ok1" and p2: "pool_abs p2 = (pool_abs p)(node \<mapsto> ds @ [c\<lparr>mc_queued_at := now1\<rparr>])"
    by (simp_all add: mb_insert_def config_defs)
  have i2: "pool_inv p2" using pool.inv_push [OF i1 assms(2), of now1 c] assms(7) by simp
  from pool.abs_pushFront [OF i2 assms(2), of now2 "the res"] assms(8) p2 ds
  have "\<not> ok2" and "pool_abs p3 = pool_abs p2"
    by (simp_all add: mb_insert_def config_defs)
  with res ok1 p2 cs show ?thesis by simp
qed

text \<open>Four commands for one node.\<close>

definition full_ops :: "mail_op list" where
  "full_ops = map (\<lambda>i. MailPush 5 ''aa'' (example_cmd\<lparr>mc_cmd_id := i\<rparr>)) [1, 2, 3, 4]"

definition full_pool :: PendingPool where
  "full_pool = snd (run_steps pool_step (pool_new example_mem) full_ops)"

lemma full_pool_ok:
  "pool_inv full_pool"
  "pool_abs full_pool ''aa'' = Some (map (\<lambda>i. example_cmd\<lparr>mc_cmd_id := i, mc_queued_at := 5\<rparr>) [1, 2, 3, 4])"
proof -
  have ops: "list_all (\<lambda>op. fits 18 (mail_node op)) full_ops"
    by (simp add: full_ops_def fits_def)
  note run = pool_run_refines [OF pool_inv_new [OF example_mem_ok] ops]
  show "pool_inv full_pool" using run by (simp add: full_pool_def del: run_steps.simps)
  obtain outs p where eq: "run_steps pool_step (pool_new example_mem) full_ops = (outs, p)"
    by fastforce
  show "pool_abs full_pool ''aa'' = Some (map (\<lambda>i. example_cmd\<lparr>mc_cmd_id := i, mc_queued_at := 5\<rparr>) [1, 2, 3, 4])"
    using run eq unfolding full_pool_def pool_abs_new
    by (simp add: full_ops_def mb_insert_def config_defs del: pool_step.simps)
qed

theorem race_loses_command_witness:
  "\<exists>p1 p2 p3. pool_pop 9 full_pool ''aa'' = (Some (example_cmd\<lparr>mc_cmd_id := 1, mc_queued_at := 5\<rparr>), p1)
     \<and> pool_push 9 p1 ''aa'' example_cmd = (True, p2)
     \<and> pool_pushFront 9 p2 ''aa'' (example_cmd\<lparr>mc_cmd_id := 1, mc_queued_at := 5\<rparr>) = (False, p3)"
proof -
  let ?cs = "map (\<lambda>i. example_cmd\<lparr>mc_cmd_id := i, mc_queued_at := 5\<rparr>) [1, 2, 3, 4]"
  obtain res p1 where pop: "pool_pop 9 full_pool ''aa'' = (res, p1)" by fastforce
  obtain ok1 p2 where push: "pool_push 9 p1 ''aa'' example_cmd = (ok1, p2)" by fastforce
  obtain ok2 p3 where front: "pool_pushFront 9 p2 ''aa'' (the res) = (ok2, p3)" by fastforce
  have "res = Some (List.hd ?cs) \<and> ok1 \<and> \<not> ok2
      \<and> pool_abs p3 ''aa'' = Some (tl ?cs @ [example_cmd\<lparr>mc_queued_at := 9\<rparr>])"
    by (rule race_loses_command [OF full_pool_ok(1) _ full_pool_ok(2) _ _ pop push front])
      (simp_all add: fits_def config_defs cmd_fresh_def)
  with pop push front show ?thesis by (intro exI conjI) simp_all
qed

end
