(* ===== verification/Pool_Bag.thy ===== *)
theory Pool_Bag
  imports Pool_Race Cmd_Flush
begin

text \<open>
  The commands in the pool as a multiset, without their time stamps: what the pool holds, for whatever
  node.  No operation but \<open>push\<close> adds to it, and a command that has been taken out is not in it any more.
\<close>

section \<open>The bag of a map of lists\<close>

definition mb_bag :: "(string \<rightharpoonup> MqttCommand list) \<Rightarrow> MqttCommand multiset" where
  "mb_bag m = (\<Sum>n \<in> dom m. image_mset unstamp (mset (mb_pending m n)))"

definition pool_cmds :: "PendingPool \<Rightarrow> MqttCommand multiset" where
  "pool_cmds p = mb_bag (pool_abs p)"

lemma mb_bag_split:
  assumes "finite (dom m)"
  shows "mb_bag m = image_mset unstamp (mset (mb_pending m n)) + mb_bag (m(n := None))"
proof (cases "m n")
  case None
  then have "m(n := None) = m" by auto
  with None show ?thesis by (simp add: mb_pending_def)
next
  case (Some cs)
  have other: "(\<Sum>k \<in> dom m - {n}. image_mset unstamp (mset (mb_pending m k)))
      = (\<Sum>k \<in> dom m - {n}. image_mset unstamp (mset (mb_pending (m(n := None)) k)))"
    by (rule sum.cong) (auto simp: mb_pending_def)
  have "n \<in> dom m" using Some by blast
  from sum.remove [OF assms this, of "\<lambda>k. image_mset unstamp (mset (mb_pending m k))"] other
  show ?thesis by (simp add: mb_bag_def)
qed

lemma mb_bag_update:
  assumes "finite (dom m)"
  shows "mb_bag (m(n \<mapsto> cs)) = image_mset unstamp (mset cs) + mb_bag (m(n := None))"
proof -
  have "finite (dom (m(n \<mapsto> cs)))" using assms by simp
  from mb_bag_split [OF this, of n] show ?thesis by (simp add: mb_pending_def)
qed

lemma mb_bag_empty [simp]: "mb_bag Map.empty = {#}"
  by (simp add: mb_bag_def)

lemma in_mb_bag:
  assumes "finite (dom m)" and "c \<in> set (mb_pending m n)"
  shows "unstamp c \<in># mb_bag m"
  using assms(2) unfolding mb_bag_split [OF assms(1), of n] by auto

section \<open>The operations of the pool\<close>

text \<open>Only the part of an id before its first NUL counts.\<close>

lemma strlcpy_cstr: "strlcpy n (cstr s) = strlcpy n s" "cstr (cstr s) = cstr s"
  by (simp_all add: strlcpy_def cstr_def)

lemma pool_pop_cstr: "pool_pop now p (cstr node) = pool_pop now p node"
  and pool_pushFront_cstr: "pool_pushFront now p (cstr node) c = pool_pushFront now p node c"
  unfolding pool_pop_def pool_pushFront_def pool_findSlot_def pool_findOrCreate_def strcmp_eq_def
    strlcpy_cstr by (rule refl)+

lemma pool_pop_bag:
  assumes "pool_inv p" and "pool_pop now p node = (r, p')"
  shows "pool_inv p'"
    and "r = None \<Longrightarrow> pool_cmds p' \<subseteq># pool_cmds p"
    and "r = Some c \<Longrightarrow> add_mset (unstamp c) (pool_cmds p') \<subseteq># pool_cmds p"
    and "r = Some c \<Longrightarrow> pool_inv (snd (pool_pushFront now' p' node c))
      \<and> pool_cmds (snd (pool_pushFront now' p' node c)) \<subseteq># pool_cmds p"
proof -
  let ?n = "cstr node"
  have pop: "pool_pop now p ?n = (r, p')" using assms(2) by (simp add: pool_pop_cstr)
  have fin: "finite (dom (pool_abs p))" by (rule pool.finite_abs [OF assms(1)])
  have all: "pool_inv p' \<and> (r = None \<longrightarrow> pool_cmds p' \<subseteq># pool_cmds p)
    \<and> (r = Some c \<longrightarrow> add_mset (unstamp c) (pool_cmds p') \<subseteq># pool_cmds p
        \<and> pool_inv (snd (pool_pushFront now' p' node c))
        \<and> pool_cmds (snd (pool_pushFront now' p' node c)) \<subseteq># pool_cmds p)" for c
  proof (cases "fits 18 ?n")
    case False
    then have "(r, p') = (None, p)" using pool_pop_unfit [OF assms(1)] pop by simp
    with assms(1) show ?thesis by simp
  next
    case True
    show ?thesis
    proof (cases r)
      case None
      note popD = pool.pop_NoneD [OF assms(1) True pop [unfolded None]]
      have "pool_cmds p' \<subseteq># pool_cmds p"
        unfolding pool_cmds_def popD(2) using mb_bag_split [OF fin, of ?n] by simp
      with None popD show ?thesis by simp
    next
      case (Some d)
      note popD = pool.pop_SomeD [OF assms(1) True pop [unfolded Some]]
      note again = pool.pop_pushFront(2) [OF assms(1) True pop [unfolded Some], of "now'"]
      obtain old cs where p: "pool_abs p ?n = Some (old @ d # cs)"
        and p': "pool_abs p' = (pool_abs p)(?n \<mapsto> cs)"
        using popD(3) by blast
      have bag: "pool_cmds p = image_mset unstamp (mset (old @ d # cs)) + mb_bag ((pool_abs p)(?n := None))"
        unfolding pool_cmds_def mb_bag_split [OF fin, of ?n] by (simp add: mb_pending_def p)
      have "pool_cmds p' = image_mset unstamp (mset cs) + mb_bag ((pool_abs p)(?n := None))"
        unfolding pool_cmds_def p' by (rule mb_bag_update [OF fin])
      then have "add_mset (unstamp d) (pool_cmds p') \<subseteq># pool_cmds p"
        by (simp add: bag)
      moreover have "pool_cmds (snd (pool_pushFront now' p' node d))
          = add_mset (unstamp d) (image_mset unstamp (mset cs)) + mb_bag ((pool_abs p)(?n := None))"
        unfolding pool_cmds_def again [unfolded pool_pushFront_cstr] mb_bag_update [OF fin] p' by (simp add: mb_pending_def)
      then have "pool_cmds (snd (pool_pushFront now' p' node d)) \<subseteq># pool_cmds p"
        by (simp add: bag)
      moreover have "pool_inv (snd (pool_pushFront now' p' node d))"
        using pool.inv_pushFront [OF popD(1) True, of now' d] by (simp add: pool_pushFront_cstr)
      ultimately show ?thesis using Some popD(1) by auto
    qed
  qed
  show "pool_inv p'" "r = None \<Longrightarrow> pool_cmds p' \<subseteq># pool_cmds p"
    "r = Some c \<Longrightarrow> add_mset (unstamp c) (pool_cmds p') \<subseteq># pool_cmds p"
    "r = Some c \<Longrightarrow> pool_inv (snd (pool_pushFront now' p' node c))
      \<and> pool_cmds (snd (pool_pushFront now' p' node c)) \<subseteq># pool_cmds p"
    using all by blast+
qed

lemma pool_push_bag:
  assumes "pool_inv p" and "fits 18 node"
  shows "pool_inv (snd (pool_push now p node c))"
    and "pool_cmds (snd (pool_push now p node c)) \<subseteq># add_mset (unstamp c) (pool_cmds p)"
proof -
  show "pool_inv (snd (pool_push now p node c))" by (rule pool.inv_push [OF assms])
  have fin: "finite (dom (pool_abs p))" by (rule pool.finite_abs [OF assms(1)])
  have "mb_bag ((pool_abs p)(node \<mapsto> mb_pending (pool_abs p) node @ [c\<lparr>mc_queued_at := now\<rparr>]))
      = add_mset (unstamp c) (mb_bag (pool_abs p))"
    unfolding mb_bag_update [OF fin] mb_bag_split [OF fin, of node] by simp
  then show "pool_cmds (snd (pool_push now p node c)) \<subseteq># add_mset (unstamp c) (pool_cmds p)"
    using pool.push_cases [OF assms, of now c] by (auto simp: pool_cmds_def split: if_splits)
qed

lemma pool_cmds_new [simp]: "pool_cmds (pool_new mem) = {#}"
  by (simp add: pool_cmds_def pool_abs_new)

end
