(* ===== verification/Ble_Reports.thy ===== *)
theory Ble_Reports
  imports Ble_Central
begin

text \<open>
  What the callbacks of \<^verbatim>\<open>ble/ble_data.cpp\<close> and \<^verbatim>\<open>ble/ble_connection.cpp\<close> promise the main loop: a
  sensor reading and an acknowledgement arrive in their queue with every field of the packet,
  messages that are no packet are ignored, a scan result is queued exactly when it should be, and
  a lost link frees exactly its slot.
\<close>

section \<open>Readings and acknowledgements\<close>

text \<open>The source's address, as the callback passes it to the handlers.\<close>

definition source_addr :: "('adr \<Rightarrow> string) \<Rightarrow> 'adr ble \<Rightarrow> nat option \<Rightarrow> string" where
  "source_addr toString b slot =
     cstr (case slot of Some i \<Rightarrow> toString (cn_addr (bl_nodes b ! i)) | None \<Rightarrow> ''??'')"

lemma cstr_idem: "cstr (cstr s) = cstr s"
  by (simp add: cstr_def)

lemma strlcpy_source: "strlcpy 18 (cstr s) = take 17 (cstr s)"
  by (simp add: strlcpy_def cstr_idem)

lemma enqueueReport_reports:
  assumes "ble_inv held b"
  shows "reports (enqueueReport r b) = (if length (reports b) < 8 then reports b @ [r] else reports b)"
proof -
  have q: "tsq_inv REPORT_QUEUE_MAX (bl_reportQueue b)"
    using assms by (simp add: ble_inv_def queues_ok_def)
  show ?thesis
    using tsq.push_items [OF q, of r] by (simp add: enqueueReport_def tsq_unsafe_same config_defs)
qed

lemma handleCmdAck_acks:
  assumes "ble_inv held b"
  shows "acks (handleCmdAck (bytes_CmdAck ca @ extra) s b)
    = (if length (acks b) < 4
       then acks b @ [\<lparr>ar_node_id = strlcpy 18 s, ar_cmd_id = ca_cmd_id ca, ar_success = (ca_success ca \<noteq> 0)\<rparr>]
       else acks b)"
proof -
  have q: "tsq_inv CMD_PENDING_PER_NODE (bl_ackQueue b)"
    using assms by (simp add: ble_inv_def queues_ok_def)
  show ?thesis
    using tsq.push_items [OF q] by (simp add: handleCmdAck_def tsq_unsafe_same config_defs
        CmdAckReport_init_def)
qed

lemma onDataNotify_packet:
  "sd_type sd = msg_code SENSOR_DATA \<Longrightarrow> onDataNotify toString src (bytes_SensorData sd @ extra) rssi b
     = (let slot = resolveSourceSlot b src
        in enqueueReport (buildReport b slot sd (source_addr toString b slot) rssi) b)"
  "ca_type ca = msg_code CMD_ACK \<Longrightarrow> onDataNotify toString src (bytes_CmdAck ca @ extra) rssi b
     = handleCmdAck (bytes_CmdAck ca @ extra) (source_addr toString b (resolveSourceSlot b src)) b"
  using read_bytes(1) [of sd extra]
  by (simp_all add: onDataNotify_def bytes_SensorData_def bytes_CmdAck_def handleSensorData_def
      source_addr_def)

lemma example_ble_queues: "reports example_ble = []" "acks example_ble = []" "found example_ble = []"
  "findSlotByClient example_ble 0 = Some 0" "cn_addr (bl_nodes example_ble ! 0) = ''aa''"
  by (simp_all add: example_ble_def setNode_def ble_boot_def findSlotByClient_def
      findSlotIndex_def config_defs numeral_eq_Suc)

text \<open>A notification that carries a sensor reading puts exactly one report at the end of the
  report queue, with the reading's values, the address of the node whose client sent it and its
  type, unless eight reports are waiting, in which case it is dropped; nothing else changes.\<close>

theorem sensor_report_queued:
  assumes "ble_inv held b" and "sd_type sd = msg_code SENSOR_DATA"
    and "resolveSourceSlot b src = Some i"
  shows "let n = bl_nodes b ! i;
             b' = onDataNotify toString src (bytes_SensorData sd @ extra) rssi b
         in bl_nodes b' = bl_nodes b \<and> acks b' = acks b \<and> found b' = found b
          \<and> (if length (reports b) < 8
             then \<exists>r. reports b' = reports b @ [r]
                \<and> sr_node_id r = take 17 (cstr (toString (cn_addr n)))
                \<and> sr_node_type_str r = (if cn_nodeType n = NT_IR then ''ir'' else ''sensor'')
                \<and> sr_temperature r = sd_temp sd \<and> sr_humidity r = sd_humidity sd
                \<and> sr_ldr r = sd_ldr sd \<and> sr_battery_mv r = sd_battery_mv sd \<and> sr_ble_rssi r = rssi
             else reports b' = reports b)"
proof -
  let ?r = "buildReport b (Some i) sd (source_addr toString b (Some i)) rssi"
  have b': "onDataNotify toString src (bytes_SensorData sd @ extra) rssi b = enqueueReport ?r b"
    using onDataNotify_packet(1) [OF assms(2), of toString src extra rssi b] assms(3) by (simp add: Let_def)
  have "bl_nodes (enqueueReport ?r b) = bl_nodes b \<and> acks (enqueueReport ?r b) = acks b
      \<and> found (enqueueReport ?r b) = found b"
    by (simp add: enqueueReport_def)
  moreover have "sr_node_id ?r = take 17 (cstr (toString (cn_addr (bl_nodes b ! i))))"
    by (simp add: buildReport_def source_addr_def strlcpy_source)
  moreover have "sr_node_type_str ?r = (if cn_nodeType (bl_nodes b ! i) = NT_IR then ''ir'' else ''sensor'')"
    by (simp add: buildReport_def strlcpy_def cstr_def)
  moreover have "sr_temperature ?r = sd_temp sd \<and> sr_humidity ?r = sd_humidity sd
      \<and> sr_ldr ?r = sd_ldr sd \<and> sr_battery_mv ?r = sd_battery_mv sd \<and> sr_ble_rssi ?r = rssi"
    by (simp add: buildReport_def)
  ultimately show ?thesis
    unfolding b' Let_def enqueueReport_reports [OF assms(1)] by auto
qed

theorem sensor_report_queued_witness:
  "\<exists>r. reports (onDataNotify id (Some 0) [1, 0, 0, 184, 65, 0, 0, 72, 66, 44, 1, 228, 12] 5 example_ble) = [r]
     \<and> sr_node_id r = ''aa'' \<and> sr_temperature r = 0x41B80000 \<and> sr_ldr r = 300 \<and> sr_battery_mv r = 3300"
proof -
  let ?sd = "\<lparr>sd_type = msg_code SENSOR_DATA, sd_temp = 0x41B80000, sd_humidity = 0x42480000,
      sd_ldr = 300, sd_battery_mv = 3300\<rparr>"
  have "bytes_SensorData ?sd = [1, 0, 0, 184, 65, 0, 0, 72, 66, 44, 1, 228, 12]"
    by (simp add: bytes_SensorData_def le16_def le32_def)
  then show ?thesis
    using sensor_report_queued [OF example_ble_inv(1), of ?sd "Some 0" 0 id "[]" 5]
    by (auto simp: example_ble_queues resolveSourceSlot_def Let_def cstr_def)
qed

text \<open>The same for an acknowledgement: one entry with the node's address, the command's id and
  the result, unless four are waiting.\<close>

theorem ack_report_queued:
  assumes "ble_inv held b" and "ca_type ca = msg_code CMD_ACK"
    and "resolveSourceSlot b src = Some i"
  shows "let b' = onDataNotify toString src (bytes_CmdAck ca @ extra) rssi b
         in bl_nodes b' = bl_nodes b \<and> reports b' = reports b \<and> found b' = found b
          \<and> acks b' = (if length (acks b) < 4
                       then acks b @ [\<lparr>ar_node_id = take 17 (cstr (toString (cn_addr (bl_nodes b ! i)))),
                              ar_cmd_id = ca_cmd_id ca, ar_success = (ca_success ca \<noteq> 0)\<rparr>]
                       else acks b)"
proof -
  let ?s = "source_addr toString b (Some i)"
  have b': "onDataNotify toString src (bytes_CmdAck ca @ extra) rssi b
      = handleCmdAck (bytes_CmdAck ca @ extra) ?s b"
    using onDataNotify_packet(2) [OF assms(2), of toString src extra rssi b] assms(3) by simp
  have "bl_nodes (handleCmdAck (bytes_CmdAck ca @ extra) ?s b) = bl_nodes b
      \<and> reports (handleCmdAck (bytes_CmdAck ca @ extra) ?s b) = reports b
      \<and> found (handleCmdAck (bytes_CmdAck ca @ extra) ?s b) = found b"
    by (simp add: handleCmdAck_def Let_def split: option.splits)
  then show ?thesis
    unfolding b' Let_def handleCmdAck_acks [OF assms(1)]
    by (simp add: source_addr_def strlcpy_source)
qed

theorem ack_report_queued_witness:
  "acks (onDataNotify id (Some 0) [0x21, 9, 1, 1] 5 example_ble)
   = [\<lparr>ar_node_id = ''aa'', ar_cmd_id = 265, ar_success = True\<rparr>]"
proof -
  let ?ca = "\<lparr>ca_type = msg_code CMD_ACK, ca_cmd_id = 265, ca_success = 1\<rparr>"
  have "bytes_CmdAck ?ca = [0x21, 9, 1, 1]"
    by (simp add: bytes_CmdAck_def le16_def)
  then show ?thesis
    using ack_report_queued [OF example_ble_inv(1), of ?ca "Some 0" 0 id "[]" 5]
    by (simp add: example_ble_queues resolveSourceSlot_def Let_def cstr_def)
qed

text \<open>A notification that is empty, of another type than the three a node sends, or too short
  for its type changes nothing.\<close>

theorem bad_notification_ignored:
  assumes "case data of [] \<Rightarrow> True | t # _ \<Rightarrow>
      (case msg_of_byte t of
         Some NODE_INFO \<Rightarrow> length data < 6
       | Some SENSOR_DATA \<Rightarrow> length data < 13
       | Some CMD_ACK \<Rightarrow> length data < 4
       | _ \<Rightarrow> True)"
  shows "onDataNotify toString src data rssi b = b"
proof (cases data)
  case Nil
  then show ?thesis by (simp add: onDataNotify_def)
next
  case (Cons t rest)
  have none: "length data < 13 \<Longrightarrow> read_SensorData data = None" "length data < 6 \<Longrightarrow> read_NodeInfo data = None"
    "length data < 4 \<Longrightarrow> read_CmdAck data = None"
    using read_defined(1-3) [of data] by auto
  show ?thesis
  proof (cases "msg_of_byte t")
    case None
    with Cons show ?thesis by (simp add: onDataNotify_def)
  next
    case (Some m)
    show ?thesis
      using assms none Some Cons
      by (cases m) (simp_all add: onDataNotify_def handleNodeInfo_def handleSensorData_def handleCmdAck_def)
  qed
qed

theorem bad_notification_ignored_witness:
  "onDataNotify id (Some 0) [0x21, 9, 0] 0 example_ble = example_ble"
  by (rule bad_notification_ignored) simp

section \<open>Scan results and lost links\<close>

text \<open>A scan result puts the node's address at the end of the queue of nodes to connect exactly
  if the node advertises the service, is in no used slot, is not queued already, a slot is free,
  and fewer than eight nodes are queued; it changes nothing else.\<close>

theorem scan_result_queued:
  assumes "ble_inv held b"
  shows "found (onResult services addr b) = found b @
           (if TEMPIO_SERVICE_UUID \<in> set services \<and> addr \<notin> set (map cn_addr (filter cn_used (bl_nodes b))) \<and> addr \<notin> set (found b)
               \<and> activeCount b < MAX_NODES \<and> length (found b) < 8
            then [addr] else [])
         \<and> bl_nodes (onResult services addr b) = bl_nodes b
         \<and> reports (onResult services addr b) = reports b \<and> acks (onResult services addr b) = acks b"
proof -
  have "findEmptySlot b \<noteq> None \<longleftrightarrow> (\<exists>n \<in> set (bl_nodes b). \<not> cn_used n)"
    by (auto simp: findEmptySlot_def findSlotIndex_def first_index_None)
  also have "\<dots> \<longleftrightarrow> activeCount b < MAX_NODES"
    using ble_inv_length [OF assms] length_filter_less [of _ "bl_nodes b" cn_used]
    by (metis activeCount_def filter_id_conv less_irrefl)
  finally have free: "findEmptySlot b \<noteq> None \<longleftrightarrow> activeCount b < MAX_NODES" .
  show ?thesis
    using onResult_found [OF ble_inv_queues [OF assms], of services addr] free
    by (simp add: onResult_def used_addrs_def table_keys_def)
qed

theorem scan_result_queued_witness:
  "found (onResult [TEMPIO_SERVICE_UUID] ''bb'' example_ble) = [''bb''] \<and> found (onResult [TEMPIO_SERVICE_UUID] ''aa'' example_ble) = []"
proof -
  have "map cn_addr (filter cn_used (bl_nodes example_ble)) = [''aa'']" "activeCount example_ble = 1"
    by (simp_all add: activeCount_def example_ble_def setNode_def ble_boot_def config_defs numeral_eq_Suc)
  then show ?thesis
    using scan_result_queued [OF example_ble_inv(1), of "[TEMPIO_SERVICE_UUID]" "''bb''"]
      scan_result_queued [OF example_ble_inv(1), of "[TEMPIO_SERVICE_UUID]" "''aa''"]
    by (simp add: example_ble_queues MAX_NODES_def)
qed

lemma clients_unique:
  assumes "distinct (clients ns)" and "i < length ns" and "j < length ns"
    and "cn_client (ns ! i) = Some c" and "cn_client (ns ! j) = Some c"
  shows "i = j"
proof -
  have mem: "c \<in> set (clients ns)" if "k < length ns" "cn_client (ns ! k) = Some c" for ns :: "'a ConnectedNode list" and k
    using that clients_split(1) [OF that(1)] by simp
  show ?thesis
    using assms
  proof (induction ns arbitrary: i j)
    case (Cons n ns)
    then show ?case
      using mem [of _ ns] by (cases i; cases j) auto
  qed simp
qed

text \<open>What the callback makes of one slot.\<close>

definition freed :: "nat \<Rightarrow> 'adr ConnectedNode \<Rightarrow> 'adr ConnectedNode" where
  "freed c n = (if cn_used n \<and> cn_client n = Some c then n\<lparr>cn_used := False, cn_configChar := None\<rparr> else n)"

lemma freed_simps [simp]:
  "cn_client (freed c n) = cn_client n"
  "cn_used (freed c n) \<longleftrightarrow> cn_used n \<and> cn_client n \<noteq> Some c"
  by (auto simp: freed_def)

lemma onDisconnect_nodes:
  assumes "ble_inv held b"
  shows "bl_nodes (onDisconnect c b) = map (freed c) (bl_nodes b)"
proof (cases "findSlotByClient b c")
  case None
  then have "map (freed c) (bl_nodes b) = bl_nodes b"
    by (intro map_idI) (auto simp: freed_def findSlotByClient_def findSlotIndex_def first_index_None)
  with None show ?thesis by (simp add: onDisconnect_def)
next
  case (Some i)
  note i = findSlotByClient_Some [OF Some]
  have dist: "distinct (clients (bl_nodes b))" using assms by (simp add: ble_inv_def)
  have nodes: "bl_nodes (onDisconnect c b)
      = (bl_nodes b)[i := (bl_nodes b ! i)\<lparr>cn_used := False, cn_configChar := None\<rparr>]"
    using Some by (simp add: onDisconnect_def setNode_def Let_def)
  show ?thesis
    unfolding nodes
  proof (rule nth_equalityI)
    fix j
    assume "j < length ((bl_nodes b)[i := (bl_nodes b ! i)\<lparr>cn_used := False, cn_configChar := None\<rparr>])"
    then have j: "j < length (bl_nodes b)" by simp
    show "(bl_nodes b)[i := (bl_nodes b ! i)\<lparr>cn_used := False, cn_configChar := None\<rparr>] ! j
        = map (freed c) (bl_nodes b) ! j"
    proof (cases "j = i")
      case True
      with i show ?thesis by (simp add: freed_def)
    next
      case False
      then have "cn_client (bl_nodes b ! j) \<noteq> Some c"
        using clients_unique [OF dist i(1) j i(3)] by blast
      with False j show ?thesis by (simp add: freed_def)
    qed
  qed simp
qed

text \<open>When a link is lost, the slot that its client serves, and no other, becomes free; the
  client stays in the slot for the next connection, no used slot has it any more, the next scan is
  requested and the LED says whether any node is left.\<close>

theorem disconnect_frees_slot:
  assumes "ble_inv held b"
  shows "let b' = onDisconnect c b
         in findSlotByClient b' c = None
          \<and> map cn_client (bl_nodes b') = map cn_client (bl_nodes b)
          \<and> (\<forall>i < length (bl_nodes b). bl_nodes b' ! i = (let n = bl_nodes b ! i in
               if cn_used n \<and> cn_client n = Some c then n\<lparr>cn_used := False, cn_configChar := None\<rparr> else n))
          \<and> bl_doScan b' \<and> bl_led b' = (activeCount b' > 0) \<and> found b' = found b"
proof -
  note nodes = onDisconnect_nodes [OF assms, of c]
  have "findSlotByClient (onDisconnect c b) c = None"
    by (simp add: findSlotByClient_def findSlotIndex_def first_index_None nodes)
  moreover have "map cn_client (bl_nodes (onDisconnect c b)) = map cn_client (bl_nodes b)"
    by (simp add: nodes comp_def)
  moreover have "bl_doScan (onDisconnect c b)" "found (onDisconnect c b) = found b"
      "bl_led (onDisconnect c b) = (activeCount (onDisconnect c b) > 0)"
    by (auto simp: onDisconnect_def setNode_def activeCount_def Let_def split: option.splits)
  ultimately show ?thesis
    by (simp add: Let_def nodes freed_def)
qed

theorem disconnect_frees_slot_witness:
  "findSlotByClient (onDisconnect 0 example_ble) 0 = None \<and> bl_doScan (onDisconnect 0 example_ble)"
  using disconnect_frees_slot [OF example_ble_inv(1), of 0] by (simp add: Let_def)

end
