(* ===== verification/Hub_Content.thy ===== *)
theory Hub_Content
  imports Hub_Monitor Pool_Bag Ble_Reports
begin

text \<open>
  What flows through the hub: properties of the commands in the pool, of the packets that have been
  written, and of the reports and acknowledgements in the queues.  \<open>hub_content\<close> says what each has to
  satisfy when it comes into being; the \<open>sublocale\<close> shows that then every operation keeps it.
\<close>

section \<open>Content\<close>

definition traffic_queues :: "'adr ble \<Rightarrow> bool" where
  "traffic_queues b \<longleftrightarrow> tsq_inv REPORT_QUEUE_MAX (bl_reportQueue b)
     \<and> tsq_inv CMD_PENDING_PER_NODE (bl_ackQueue b)"

definition carries ::
  "(MqttCommand \<Rightarrow> bool) \<Rightarrow> (byte list \<Rightarrow> bool) \<Rightarrow> (SensorReport \<Rightarrow> bool) \<Rightarrow> (CmdAckReport \<Rightarrow> bool)
   \<Rightarrow> 'adr hub \<Rightarrow> bool" where
  "carries C W R A h \<longleftrightarrow> pool_inv (hb_pool h) \<and> traffic_queues (hb_ble h)
     \<and> (\<forall>c \<in># pool_cmds (hb_pool h). C c)
     \<and> list_all (\<lambda>(ch, pkt, ok). W pkt) (bl_writes (hb_ble h))
     \<and> list_all R (reports (hb_ble h)) \<and> list_all A (acks (hb_ble h))"

lemma packet_of_unstamp [simp]: "packet_of js (unstamp c) = packet_of js c"
  by (simp add: unstamp_def)

lemma carries_reads [simp]: "carries C W R A (h\<lparr>hb_reads := k\<rparr>) = carries C W R A h"
  and carries_mqtt [simp]: "carries C W R A (h\<lparr>hb_mqtt := m\<rparr>) = carries C W R A h"
  by (simp_all add: carries_def)

lemma carries_wrote:
  "carries C W R A (on_ble (wrote ch pkt ok) h) \<longleftrightarrow> carries C W R A h \<and> W pkt"
  by (auto simp: carries_def on_ble_def wrote_def traffic_queues_def)

lemma carries_pool:
  assumes "carries C W R A h" and "pool_inv p" and "pool_cmds p \<subseteq># pool_cmds (hb_pool h)"
  shows "carries C W R A (h\<lparr>hb_pool := p\<rparr>)"
  using assms by (auto simp: carries_def dest: mset_subset_eqD)

lemma carries_same_traffic:
  "carries C W R A h \<Longrightarrow> same_traffic (hb_ble h) b \<Longrightarrow> carries C W R A (h\<lparr>hb_ble := b\<rparr>)"
  by (simp add: carries_def same_traffic_def traffic_queues_def)

lemma carries_mono:
  assumes "carries C W R A h" and "\<And>c. C c \<Longrightarrow> C' c" and "\<And>pkt. W pkt \<Longrightarrow> W' pkt"
    and "\<And>r. R r \<Longrightarrow> R' r" and "\<And>a. A a \<Longrightarrow> A' a"
  shows "carries C' W' R' A' h"
  using assms by (auto simp: carries_def list_all_iff)

text \<open>Both queues lose their first item, or gain one at the end if there is room.\<close>

lemma carries_got:
  assumes "carries C W R A h"
  shows "carries C W R A (on_ble (\<lambda>b. snd (bleGetPendingReport b)) h)"
    and "carries C W R A (on_ble (\<lambda>b. snd (bleGetPendingAck b)) h)"
proof -
  have q: "tsq_inv REPORT_QUEUE_MAX (bl_reportQueue (hb_ble h))"
      "tsq_inv CMD_PENDING_PER_NODE (bl_ackQueue (hb_ble h))"
    using assms by (simp_all add: carries_def traffic_queues_def)
  have tl: "list_all Q (tl xs)" if "list_all Q xs" for Q and xs :: "'b list"
    using that by (cases xs) simp_all
  have "snd (bleGetPendingReport (hb_ble h))
      = (hb_ble h)\<lparr>bl_reportQueue := snd (tsq_popUnsafe REPORT_QUEUE_MAX (bl_reportQueue (hb_ble h)))\<rparr>"
    by (simp add: bleGetPendingReport_def tsq_unsafe_same Let_def split_beta)
  then show "carries C W R A (on_ble (\<lambda>b. snd (bleGetPendingReport b)) h)"
    using assms tsq.pop_items [OF q(1)] tsq.inv_pop [OF q(1)]
    by (simp add: carries_def on_ble_def traffic_queues_def tl)
  have "snd (bleGetPendingAck (hb_ble h))
      = (hb_ble h)\<lparr>bl_ackQueue := snd (tsq_popUnsafe CMD_PENDING_PER_NODE (bl_ackQueue (hb_ble h)))\<rparr>"
    by (simp add: bleGetPendingAck_def tsq_unsafe_same Let_def split_beta)
  then show "carries C W R A (on_ble (\<lambda>b. snd (bleGetPendingAck b)) h)"
    using assms tsq.pop_items [OF q(2)] tsq.inv_pop [OF q(2)]
    by (simp add: carries_def on_ble_def traffic_queues_def tl)
qed

lemma carries_report:
  assumes "carries C W R A h" and "R r"
  shows "carries C W R A (on_ble (enqueueReport r) h)"
proof -
  have q: "tsq_inv REPORT_QUEUE_MAX (bl_reportQueue (hb_ble h))"
    using assms(1) by (simp add: carries_def traffic_queues_def)
  show ?thesis
    using assms tsq.push_items [OF q, of r] tsq.inv_push [OF q, of r]
    by (simp add: carries_def on_ble_def traffic_queues_def enqueueReport_def tsq_unsafe_same)
qed

lemma carries_ack:
  assumes "carries C W R A h"
    and "\<And>ack. read_CmdAck data = Some ack \<Longrightarrow> A \<lparr>ar_node_id = strlcpy 18 s, ar_cmd_id = ca_cmd_id ack,
      ar_success = (ca_success ack \<noteq> 0)\<rparr>"
  shows "carries C W R A (on_ble (handleCmdAck data s) h)"
proof (cases "read_CmdAck data")
  case None
  with assms(1) show ?thesis by (simp add: handleCmdAck_def on_ble_def)
next
  case (Some ack)
  let ?a = "\<lparr>ar_node_id = strlcpy 18 s, ar_cmd_id = ca_cmd_id ack, ar_success = (ca_success ack \<noteq> 0)\<rparr>"
  have q: "tsq_inv CMD_PENDING_PER_NODE (bl_ackQueue (hb_ble h))"
    using assms(1) by (simp add: carries_def traffic_queues_def)
  have "handleCmdAck data s b = b\<lparr>bl_ackQueue := snd (tsq_pushUnsafe CMD_PENDING_PER_NODE (bl_ackQueue b) ?a)\<rparr>"
    for b :: "'a ble"
    using Some by (simp add: handleCmdAck_def CmdAckReport_init_def tsq_unsafe_same)
  then show ?thesis
    using assms(1) assms(2) [OF Some] tsq.push_items [OF q, of ?a] tsq.inv_push [OF q, of ?a]
    by (simp add: carries_def on_ble_def traffic_queues_def)
qed

section \<open>The interface\<close>

locale hub_content =
  fixes env :: "('adr, 'j) hub_env"
    and ev_ok :: "'adr ble_event \<Rightarrow> bool"
    and C :: "MqttCommand \<Rightarrow> bool" and W :: "byte list \<Rightarrow> bool"
    and R :: "SensorReport \<Rightarrow> bool" and A :: "CmdAckReport \<Rightarrow> bool"
  assumes content_events: "e \<in> set (be_events (he_ble env) n) \<Longrightarrow> ev_ok e"
    and content_ready: "W ready_packet"
    and content_packet: "C c \<Longrightarrow> packet_of (he_json env) c = Some pkt \<Longrightarrow> W pkt"
    and content_report: "ev_ok (Notified src data rssi) \<Longrightarrow> read_SensorData data = Some sd
      \<Longrightarrow> msg_of_byte (hd data) = Some SENSOR_DATA \<Longrightarrow> R (buildReport (b :: 'adr ble) slot sd s rssi)"
    and content_ack: "ev_ok (Notified src data rssi) \<Longrightarrow> read_CmdAck data = Some ack
      \<Longrightarrow> msg_of_byte (hd data) = Some CMD_ACK
      \<Longrightarrow> A \<lparr>ar_node_id = strlcpy 18 s, ar_cmd_id = ca_cmd_id ack, ar_success = (ca_success ack \<noteq> 0)\<rparr>"
begin

lemma notification:
  fixes h :: "'adr hub"
  assumes "carries C W R A h" and "ev_ok (Notified src data rssi)"
  shows "carries C W R A (on_ble (onDataNotify ts src data rssi) h)"
proof (cases data)
  case Nil
  with assms(1) show ?thesis by (simp add: onDataNotify_def on_ble_def)
next
  case (Cons t rest)
  let ?slot = "resolveSourceSlot (hb_ble h) src"
  let ?s = "source_addr ts (hb_ble h) ?slot"
  show ?thesis
  proof (cases "msg_of_byte t")
    case None
    with Cons assms(1) show ?thesis by (simp add: onDataNotify_def on_ble_def)
  next
    case (Some m)
    have info: "carries C W R A (on_ble (handleNodeInfo ?slot data) h)"
      using assms(1) unfolding on_ble_def
      by (rule carries_same_traffic)
        (auto simp: same_traffic_def handleNodeInfo_def setNode_def split: option.splits)
    have sensor: "carries C W R A (on_ble (handleSensorData ?slot data ?s rssi) h)" if "m = SENSOR_DATA"
    proof (cases "read_SensorData data")
      case None
      with assms(1) show ?thesis by (simp add: handleSensorData_def on_ble_def)
    next
      case sd: (Some sd)
      have "R (buildReport (hb_ble h) ?slot sd ?s rssi)"
        using content_report [OF assms(2) sd, of "hb_ble h" ?slot ?s] Some Cons that by simp
      from carries_report [OF assms(1) this] sd show ?thesis
        by (simp add: handleSensorData_def on_ble_def)
    qed
    have ack: "carries C W R A (on_ble (handleCmdAck data ?s) h)" if "m = CMD_ACK"
      using Some Cons that by (intro carries_ack [OF assms(1)] content_ack [OF assms(2)]) simp_all
    have "on_ble (onDataNotify ts src data rssi) h =
        (case m of NODE_INFO \<Rightarrow> on_ble (handleNodeInfo ?slot data) h
         | SENSOR_DATA \<Rightarrow> on_ble (handleSensorData ?slot data ?s rssi) h
         | CMD_ACK \<Rightarrow> on_ble (handleCmdAck data ?s) h | _ \<Rightarrow> h)"
      using Cons Some by (cases m) (simp_all add: onDataNotify_def on_ble_def source_addr_def Let_def)
    with info sensor ack assms(1) show ?thesis by (cases m) simp_all
  qed
qed

lemma popped:
  assumes "carries C W R A h" and "pool_pop now (hb_pool h) node = (Some c, p)"
    and "packet_of (he_json env) c = Some pkt"
  shows "W pkt"
proof -
  have "pool_inv (hb_pool h)" using assms(1) by (simp add: carries_def)
  from mset_subset_eqD [OF pool_pop_bag(3) [OF this assms(2) refl]] assms(1) have "C (unstamp c)"
    by (auto simp: carries_def)
  with assms(3) show ?thesis using content_packet [of "unstamp c" pkt] by simp
qed

end

sublocale hub_content \<subseteq> hub_monitor env ev_ok "carries C W R A"
proof
  fix h :: "'adr hub" and b :: "'adr ble" and k m src data rssi ch ok now node p c pkt now'
  assume h: "carries C W R A h"
  then have inv: "pool_inv (hb_pool h)" by (simp add: carries_def)
  show "carries C W R A (h\<lparr>hb_reads := k\<rparr>)" "carries C W R A (h\<lparr>hb_mqtt := m\<rparr>)" using h by simp_all
  show "same_traffic (hb_ble h) b \<Longrightarrow> carries C W R A (h\<lparr>hb_ble := b\<rparr>)"
    using h by (rule carries_same_traffic)
  show "ev_ok (Notified src data rssi)
      \<Longrightarrow> carries C W R A (on_ble (onDataNotify (be_toString (he_ble env)) src data rssi) h)"
    using h by (rule notification)
  show "carries C W R A (on_ble (\<lambda>b. snd (bleGetPendingReport b)) h)"
    "carries C W R A (on_ble (\<lambda>b. snd (bleGetPendingAck b)) h)" using h by (rule carries_got)+
  show "carries C W R A (on_ble (wrote ch ready_packet ok) h)"
    using h by (simp add: carries_wrote content_ready)
  show "pool_pop now (hb_pool h) node = (None, p) \<Longrightarrow> carries C W R A (h\<lparr>hb_pool := p\<rparr>)"
    using pool_pop_bag(1,2) [OF inv] by (auto intro: carries_pool [OF h])
  show "carries C W R A (on_ble (wrote ch pkt True) (h\<lparr>hb_pool := p\<rparr>))"
    if pop: "pool_pop now (hb_pool h) node = (Some c, p)" and pkt: "packet_of (he_json env) c = Some pkt"
  proof -
    have "pool_cmds p \<subseteq># pool_cmds (hb_pool h)"
      using subset_mset.order_trans [OF subset_mset.less_imp_le [OF multi_psub_of_add_self]
          pool_pop_bag(3) [OF inv pop refl]] .
    with popped [OF h pop pkt] carries_pool [OF h pool_pop_bag(1) [OF inv pop]] show ?thesis
      by (simp add: carries_wrote)
  qed
  show "pool_pop now (hb_pool h) node = (Some c, p) \<Longrightarrow> packet_of (he_json env) c = Some pkt
      \<Longrightarrow> carries C W R A (on_ble (wrote ch pkt False) h)"
    using popped [OF h] h by (simp add: carries_wrote)
  show "carries C W R A (h\<lparr>hb_pool := snd (pool_pushFront now' p node c)\<rparr>)"
    if "pool_pop now (hb_pool h) node = (Some c, p)"
    using pool_pop_bag(4) [OF inv that refl] by (intro carries_pool [OF h]) simp_all
next
  show "e \<in> set (be_events (he_ble env) n) \<Longrightarrow> ev_ok e" for e n by (rule content_events)
qed

end
