(* ===== verification/Hub_Traffic.thy ===== *)
theory Hub_Traffic
  imports Hub_Content
begin

text \<open>
  Two invariants of all reachable states of the hub, as interpretations of the interfaces of
  \<open>Hub_Monitor\<close> and \<open>Hub_Content\<close>: every string fits the buffer that the source declares for it, and no
  command is written more often than it has been received.
\<close>

section \<open>Runs with the commands received\<close>

text \<open>A run as in \<open>hub_reach\<close>, with the list of the commands of all MQTT messages so far.\<close>

definition event_commands :: "('adr, 'j) hub_env \<Rightarrow> mqtt_event_id \<Rightarrow> mqtt_event \<Rightarrow> MqttCommand list" where
  "event_commands env i ev =
     (if i = MQTT_EVENT_DATA \<and> ev_topic_len ev > 0 \<and> ev_data_len ev > 0
         \<and> ev_data_len ev = ev_total_data_len ev
      then message_commands (he_json env) (take (nat (ev_data_len ev)) (ev_data ev)) else [])"

datatype 'adr hub_action =
  Pass "string option" bool
| Callback "'adr ble_event"
| Mqtt mqtt_event_id mqtt_event

fun hub_do ::
  "('adr, 'j) hub_env \<Rightarrow> 'nvs wifi_api \<Rightarrow> 'adr hub_action \<Rightarrow> ('adr, 'nvs) hub_sys
   \<Rightarrow> ('adr, 'nvs) hub_sys" where
  "hub_do env api (Pass serial wifiUp) s = hub_loop env api serial wifiUp s"
| "hub_do env api (Callback e) s = s\<lparr>hs_hub := on_ble (run_event (he_ble env) e) (hs_hub s)\<rparr>"
| "hub_do env api (Mqtt i ev) s = s\<lparr>hs_hub := mqttEventDispatch env i ev (hs_hub s)\<rparr>"

fun action_commands :: "('adr, 'j) hub_env \<Rightarrow> 'adr hub_action \<Rightarrow> MqttCommand list" where
  "action_commands env (Mqtt i ev) = event_commands env i ev"
| "action_commands env _ = []"

inductive hub_run ::
  "('adr, 'j) hub_env \<Rightarrow> 'nvs wifi_api \<Rightarrow> ('adr, 'nvs) hub_sys \<Rightarrow> MqttCommand list
   \<Rightarrow> ('adr, 'nvs) hub_sys \<Rightarrow> bool"
  for env api s0 where
  start: "hub_run env api s0 [] s0"
| act: "hub_run env api s0 cs s \<Longrightarrow> hub_run env api s0 (cs @ action_commands env a) (hub_do env api a s)"

lemma hub_do_step: "hub_step env api s (hub_do env api a s)"
  by (cases a) (auto simp: on_ble_def intro: hub_step.intros)

lemma hub_run_reach: "hub_run env api s0 cs s \<Longrightarrow> hub_reach env api s0 s"
  by (induction rule: hub_run.induct) (auto intro: hub_reach.intros hub_do_step)

lemma hub_step_do: "hub_step env api s s' \<Longrightarrow> \<exists>a. s' = hub_do env api a s"
proof (induction rule: hub_step.induct)
  case (loop s serial wifiUp)
  then show ?case by (intro exI [of _ "Pass serial wifiUp"]) simp
next
  case (callback s e)
  then show ?case by (intro exI [of _ "Callback e"]) (simp add: on_ble_def)
next
  case (mqtt_event s i ev)
  then show ?case by (intro exI [of _ "Mqtt i ev"]) simp
qed

lemma hub_reach_run: "hub_reach env api s0 s \<Longrightarrow> \<exists>cs. hub_run env api s0 cs s"
  by (induction rule: hub_reach.induct) (blast dest: hub_step_do intro: hub_run.intros)+

lemma dispatch_event:
  "mqttEventDispatch env i ev h =
     (case i of
        MQTT_EVENT_CONNECTED \<Rightarrow> h\<lparr>hb_mqtt := onConnected (hb_mqtt h)\<rparr>
      | MQTT_EVENT_DISCONNECTED \<Rightarrow> h\<lparr>hb_mqtt := onDisconnected (hb_mqtt h)\<rparr>
      | _ \<Rightarrow> foldl (\<lambda>h c. dispatchCommand env c h) h (event_commands env i ev))"
  by (cases i) (simp_all add: onData_def parseAndDispatch_commands on_mqtt_def event_commands_def)

lemma event_commands_fit: "c \<in> set (event_commands env i ev) \<Longrightarrow> fits 18 (mc_target c) \<and> fits 16 (mc_type c)"
  by (auto simp: event_commands_def dest: message_commands_fit split: if_splits)

lemma action_commands_fit: "c \<in> set (action_commands env a) \<Longrightarrow> fits 18 (mc_target c) \<and> fits 16 (mc_type c)"
  by (cases a) (simp_all add: event_commands_fit)

text \<open>An invariant that does not change when a command is received survives every action.\<close>

locale hub_keeper = hub_receiver env ev_ok P recv "\<lambda>_. P"
  for env :: "('adr, 'j) hub_env" and ev_ok and P :: "'adr hub \<Rightarrow> bool" and recv
begin

lemma dispatch_all:
  "\<forall>c \<in> set cs. recv c \<Longrightarrow> P h \<Longrightarrow> P (foldl (\<lambda>h c. dispatchCommand env c h) h cs)"
  by (induction cs arbitrary: h) (simp_all add: dispatch)

lemma action:
  assumes "P (hs_hub s)" and "\<forall>c \<in> set (action_commands env a). recv c"
    and "\<And>e. a = Callback e \<Longrightarrow> ev_ok e"
  shows "P (hs_hub (hub_do env api a s))"
proof (cases a)
  case (Pass serial wifiUp)
  with loop [OF assms(1)] show ?thesis by simp
next
  case (Callback e)
  have "P ((hs_hub s)\<lparr>hb_ble := hb_ble (hs_hub s)\<rparr>)" using assms(1) by simp
  from event [OF this assms(3) [OF Callback]] Callback show ?thesis by (simp add: on_ble_def)
next
  case (Mqtt i ev)
  with assms(1,2) dispatch_all show ?thesis
    by (simp add: dispatch_event mqtt split: mqtt_event_id.split)
qed

end

section \<open>Every string fits its buffer\<close>

definition cmd_fits :: "MqttCommand \<Rightarrow> bool" where
  "cmd_fits c \<longleftrightarrow> fits 18 (mc_target c) \<and> fits 16 (mc_type c) \<and> length (mc_payload c) \<le> 256"

definition report_fits :: "SensorReport \<Rightarrow> bool" where
  "report_fits r \<longleftrightarrow> fits 18 (sr_node_id r) \<and> fits 8 (sr_node_type_str r)"

definition ack_fits :: "CmdAckReport \<Rightarrow> bool" where
  "ack_fits a \<longleftrightarrow> fits 18 (ar_node_id a)"

abbreviation strings_fit :: "'adr hub \<Rightarrow> bool" where
  "strings_fit \<equiv> carries cmd_fits (\<lambda>_. True) report_fits ack_fits"

text \<open>\<open>serializeJson\<close> into a buffer of \<open>n\<close> bytes writes at most \<open>n\<close> bytes.\<close>

definition json_bounded :: "'j json_api \<Rightarrow> bool" where
  "json_bounded js \<longleftrightarrow> (\<forall>obj k n. length (js_child js obj k n) \<le> n)"

lemma message_commands_cmd_fits:
  assumes "json_bounded js" and "c \<in> set (message_commands js text)"
  shows "cmd_fits c"
proof -
  have "length (js_child js obj ''payload'' 256) \<le> 256" for obj
    using assms(1) by (simp add: json_bounded_def)
  moreover have "length (strlcpy 256 s) \<le> 256" for s
    using strlcpy_length [of 256 s] by simp
  ultimately show ?thesis
    using assms(2)
    by (auto simp: cmd_fits_def message_commands_def parseCommand_def Let_def
        split: prod.splits option.splits if_splits)
qed

interpretation strings: hub_content env "\<lambda>_. True" cmd_fits "\<lambda>_. True" report_fits ack_fits
  for env :: "('adr, 'j) hub_env"
  by unfold_locales (simp_all add: report_fits_def ack_fits_def buildReport_def)

lemma carries_pushed:
  assumes "carries C W R A h" and "fits 18 (mc_target c)" and "C (unstamp c)"
  shows "carries C W R A (h\<lparr>hb_pool := snd (pool_push now (hb_pool h) (mc_target c) c)\<rparr>)"
proof -
  have "pool_inv (hb_pool h)" using assms(1) by (simp add: carries_def)
  note push = pool_push_bag [OF this assms(2), of now c]
  have "C d" if "d \<in># pool_cmds (snd (pool_push now (hb_pool h) (mc_target c) c))" for d
    using mset_subset_eqD [OF push(2) that] assms(1,3) by (auto simp: carries_def)
  with push(1) assms(1) show ?thesis by (simp add: carries_def)
qed

text \<open>Every content property is kept by every action, if the commands that come in have it.\<close>

context hub_content
begin

lemma monitor: "hub_monitor env ev_ok (carries C W R A)"
  by (rule hub_monitor_axioms)

lemma keeper:
  assumes "\<And>c. recv c \<Longrightarrow> fits 18 (mc_target c) \<and> C (unstamp c)"
  shows "hub_keeper env ev_ok (carries C W R A) recv"
proof unfold_locales
  fix c and h :: "'a hub" and pkt ch now
  assume c: "recv c" and h: "carries C W R A h"
  show "packet_of (he_json env) c = Some pkt \<Longrightarrow> carries C W R A (on_ble (wrote ch pkt True) h)"
    "packet_of (he_json env) c = Some pkt \<Longrightarrow> carries C W R A (on_ble (wrote ch pkt False) h)"
    using assms [OF c] h content_packet [of "unstamp c" pkt] by (simp_all add: carries_wrote)
  show "carries C W R A (h\<lparr>hb_pool := snd (pool_push now (hb_pool h) (mc_target c) c)\<rparr>)"
    using assms [OF c] by (simp add: carries_pushed h)
qed

end

interpretation strings: hub_keeper env "\<lambda>_. True" strings_fit cmd_fits
  for env :: "('adr, 'j) hub_env"
  by (rule strings.keeper) (simp add: cmd_fits_def unstamp_def)

lemma strings_run:
  assumes "hub_run env api s0 cs s" and "json_bounded (he_json env)" and "strings_fit (hs_hub s0)"
  shows "strings_fit (hs_hub s)"
  using assms(1)
proof induction
  case (act cs s a)
  have "\<forall>c \<in> set (action_commands env a). cmd_fits c"
    using message_commands_cmd_fits [OF assms(2)] by (cases a) (auto simp: event_commands_def)
  from strings.action [OF act.IH this] show ?case by simp
qed (rule assms(3))

section \<open>The state after power-on\<close>

text \<open>
  \<open>setup\<close> only starts the scanner; callbacks run from then on.  What holds of the boot state and survives
  quiet changes holds after it.
\<close>

definition boot_hub :: "'adr \<Rightarrow> 'adr list \<Rightarrow> SensorReport list \<Rightarrow> CmdAckReport list \<Rightarrow> Slot list \<Rightarrow> 'adr hub" where
  "boot_hub addr0 pmem rmem amem mem =
     \<lparr>hb_ble = ble_boot addr0 pmem rmem amem, hb_pool = pool_new mem, hb_mqtt = mqtt_boot, hb_reads = 0\<rparr>"

context hub_monitor
begin

lemma power_on:
  assumes "P (boot_hub addr0 pmem rmem amem mem)"
  shows "P (hs_hub (hub_power_on env api root_ca mac wifiUp addr0 pmem rmem amem mem nvs))"
proof -
  let ?h = "boot_hub addr0 pmem rmem amem mem"
  have "P (?h\<lparr>hb_ble := (hb_ble ?h)\<lparr>bl_led := False\<rparr>\<rparr>)"
    using assms by (rule quiet) (simp add: same_traffic_def)
  from mqtt [OF scan_set [OF this]] show ?thesis
    by (simp add: hub_power_on_def hub_setup_def bleCentralInit_def boot_hub_def Let_def)
qed

end

lemma carries_boot:
  assumes "boot_mem pmem rmem amem" and "pool_mem mem"
  shows "carries C W R A (boot_hub addr0 pmem rmem amem mem)"
  using assms pool_inv_new [OF assms(2)]
  by (simp add: carries_def boot_hub_def traffic_queues_def ble_boot_def boot_mem_def
      config_defs tsq_inv_new)

section \<open>Sent no more often than received\<close>

lemma multi_add_le: "M \<subseteq># add_mset x M"
  by (rule subset_mset.less_imp_le) (rule multi_psub_of_add_self)

text \<open>The packets of a multiset of commands, and the packets whose write has succeeded.\<close>

definition packets :: "'j json_api \<Rightarrow> MqttCommand multiset \<Rightarrow> byte list multiset" where
  "packets js M = {#the (packet_of js c). c \<in># filter_mset (\<lambda>c. packet_of js c \<noteq> None) M#}"

definition delivered :: "'adr ble \<Rightarrow> byte list multiset" where
  "delivered b = mset (map (fst \<circ> snd) (filter (\<lambda>(ch, pkt, ok). ok \<and> pkt \<noteq> ready_packet) (bl_writes b)))"

definition sent_within :: "'j json_api \<Rightarrow> byte list multiset \<Rightarrow> 'adr hub \<Rightarrow> bool" where
  "sent_within js K h \<longleftrightarrow> pool_inv (hb_pool h)
     \<and> delivered (hb_ble h) + packets js (pool_cmds (hb_pool h)) \<subseteq># K"

abbreviation sent_once :: "'j json_api \<Rightarrow> MqttCommand multiset \<Rightarrow> 'adr hub \<Rightarrow> bool" where
  "sent_once js M \<equiv> sent_within js (packets js M)"

lemma packets_add [simp]:
  "packets js (add_mset c M) = (case packet_of js c of None \<Rightarrow> packets js M
     | Some pkt \<Rightarrow> add_mset pkt (packets js M))"
  by (simp add: packets_def split: option.splits)

lemma packets_empty [simp]: "packets js {#} = {#}"
  by (simp add: packets_def)

lemma packets_mono: "M \<subseteq># M' \<Longrightarrow> packets js M \<subseteq># packets js M'"
  by (simp add: packets_def image_mset_subseteq_mono multiset_filter_mono)

lemma delivered_wrote:
  "delivered (wrote ch pkt ok b) =
     (if ok \<and> pkt \<noteq> ready_packet then add_mset pkt (delivered b) else delivered b)"
  by (simp add: delivered_def wrote_def)

lemma delivered_same: "same_traffic b b' \<Longrightarrow> delivered b' = delivered b"
  by (simp add: same_traffic_def delivered_def)

lemma sent_once_step:
  assumes "sent_within js K h" and "pool_inv (hb_pool h')"
    and "delivered (hb_ble h') + packets js (pool_cmds (hb_pool h'))
      \<subseteq># delivered (hb_ble h) + packets js (pool_cmds (hb_pool h)) + D"
    and "K + D \<subseteq># K'"
  shows "sent_within js K' h'"
proof -
  have "delivered (hb_ble h) + packets js (pool_cmds (hb_pool h)) + D \<subseteq># K + D"
    using assms(1) by (simp add: sent_within_def)
  from subset_mset.order_trans [OF assms(3) subset_mset.order_trans [OF this assms(4)]] assms(2)
  show ?thesis by (simp add: sent_within_def)
qed

text \<open>The changes that send nothing.\<close>

lemma sent_once_quiet:
  assumes "sent_within js K h" and "delivered b = delivered (hb_ble h)"
  shows "sent_within js K (h\<lparr>hb_ble := b\<rparr>)"
  using assms by (simp add: sent_within_def)

lemma sent_once_pool:
  assumes "sent_within js K h" and "pool_inv p" and "pool_cmds p \<subseteq># pool_cmds (hb_pool h)"
  shows "sent_within js K (h\<lparr>hb_pool := p\<rparr>)"
  using assms by (intro sent_once_step [OF assms(1), where D = "{#}"]) (simp_all add: packets_mono)

lemma delivered_same_writes: "bl_writes b' = bl_writes b \<Longrightarrow> delivered b' = delivered b"
  by (simp add: delivered_def)

interpretation once: hub_monitor env "\<lambda>_. True" "sent_within (he_json env) K"
  for env :: "('adr, 'j) hub_env" and K
proof
  fix h :: "'adr hub" and b :: "'adr ble" and k m src data rssi ch ok now node p c pkt now'
  assume h: "sent_within (he_json env) K h"
  then have inv: "pool_inv (hb_pool h)" by (simp add: sent_within_def)
  show "sent_within (he_json env) K (h\<lparr>hb_reads := k\<rparr>)" "sent_within (he_json env) K (h\<lparr>hb_mqtt := m\<rparr>)"
    using h by (simp_all add: sent_within_def)
  show "same_traffic (hb_ble h) b \<Longrightarrow> sent_within (he_json env) K (h\<lparr>hb_ble := b\<rparr>)"
    by (rule sent_once_quiet [OF h delivered_same])
  show "sent_within (he_json env) K (on_ble (onDataNotify (be_toString (he_ble env)) src data rssi) h)"
    unfolding on_ble_def by (intro sent_once_quiet [OF h] delivered_same_writes) (rule onDataNotify_frame(2))
  show "sent_within (he_json env) K (on_ble (\<lambda>b. snd (bleGetPendingReport b)) h)"
    "sent_within (he_json env) K (on_ble (\<lambda>b. snd (bleGetPendingAck b)) h)"
    unfolding on_ble_def by (intro sent_once_quiet [OF h] delivered_same_writes,
      simp add: bleGetPendingReport_def bleGetPendingAck_def Let_def split_beta)+
  show "sent_within (he_json env) K (on_ble (wrote ch ready_packet ok) h)"
    unfolding on_ble_def by (intro sent_once_quiet [OF h]) (simp add: delivered_wrote)
  show "pool_pop now (hb_pool h) node = (None, p) \<Longrightarrow> sent_within (he_json env) K (h\<lparr>hb_pool := p\<rparr>)"
    using pool_pop_bag(1,2) [OF inv] by (auto intro: sent_once_pool [OF h])
  show "sent_within (he_json env) K (on_ble (wrote ch pkt True) (h\<lparr>hb_pool := p\<rparr>))"
    if pop: "pool_pop now (hb_pool h) node = (Some c, p)" and pkt: "packet_of (he_json env) c = Some pkt"
  proof -
    have taken: "add_mset pkt (packets (he_json env) (pool_cmds p))
        \<subseteq># packets (he_json env) (pool_cmds (hb_pool h))"
      using packets_mono [OF pool_pop_bag(3) [OF inv pop refl], of "he_json env"] pkt by simp
    have "packets (he_json env) (pool_cmds p) \<subseteq># packets (he_json env) (pool_cmds (hb_pool h))"
      by (rule subset_mset.order_trans [OF multi_add_le taken])
    with taken pool_pop_bag(1) [OF inv pop] show ?thesis
      by (intro sent_once_step [OF h, where D = "{#}"]) (simp_all add: on_ble_def delivered_wrote)
  qed
  show "sent_within (he_json env) K (on_ble (wrote ch pkt False) h)"
    unfolding on_ble_def by (intro sent_once_quiet [OF h]) (simp add: delivered_wrote)
  show "sent_within (he_json env) K (h\<lparr>hb_pool := snd (pool_pushFront now' p node c)\<rparr>)"
    if "pool_pop now (hb_pool h) node = (Some c, p)"
    using pool_pop_bag(4) [OF inv that refl] by (intro sent_once_pool [OF h]) simp_all
qed simp

interpretation once: hub_receiver env "\<lambda>_. True" "sent_once (he_json env) M"
  "\<lambda>c. fits 18 (mc_target c)" "\<lambda>c. sent_once (he_json env) (add_mset c M)"
  for env :: "('adr, 'j) hub_env" and M
proof
  fix c :: MqttCommand and h :: "'adr hub" and pkt ch now
  assume c: "fits 18 (mc_target c)" and h: "sent_once (he_json env) M h"
  then have inv: "pool_inv (hb_pool h)" by (simp add: sent_within_def)
  have more: "packets (he_json env) M \<subseteq># packets (he_json env) (add_mset c M)"
    by (rule packets_mono) (rule multi_add_le)
  show "sent_once (he_json env) (add_mset c M) h"
    using inv more by (intro sent_once_step [OF h, where D = "{#}"]) simp_all
  show "sent_once (he_json env) (add_mset c M) (on_ble (wrote ch pkt True) h)"
    if "packet_of (he_json env) c = Some pkt"
    using inv that by (intro sent_once_step [OF h, where D = "{#pkt#}"])
      (simp_all add: on_ble_def delivered_wrote)
  show "sent_once (he_json env) M (on_ble (wrote ch pkt False) h)"
    unfolding on_ble_def by (intro sent_once_quiet [OF h]) (simp add: delivered_wrote)
  show "sent_once (he_json env) (add_mset c M)
      (h\<lparr>hb_pool := snd (pool_push now (hb_pool h) (mc_target c) c)\<rparr>)"
    using packets_mono [OF pool_push_bag(2) [OF inv c, of now c], of "he_json env"] pool_push_bag(1) [OF inv c]
    by (intro sent_once_step [OF h, where D = "packets (he_json env) {#c#}"])
      (simp_all split: option.splits)
qed

lemma once_dispatch_all:
  assumes "\<forall>d \<in> set ds. fits 18 (mc_target d)" and "sent_once (he_json env) M h"
  shows "sent_once (he_json env) (M + mset ds) (foldl (\<lambda>h c. dispatchCommand env c h) h ds)"
  using assms
proof (induction ds arbitrary: M h)
  case (Cons d ds)
  then have "sent_once (he_json env) (add_mset d M) (dispatchCommand env d h)"
    by (intro once.dispatch) simp_all
  from Cons.IH [OF _ this] Cons.prems(1) show ?case by simp
qed simp

lemma once_run:
  assumes "hub_run env api s0 cs s" and "sent_once (he_json env) {#} (hs_hub s0)"
  shows "sent_once (he_json env) (mset cs) (hs_hub s)"
  using assms(1)
proof induction
  case start
  then show ?case using assms(2) by simp
next
  case (act cs s a)
  show ?case
  proof (cases a)
    case (Pass serial wifiUp)
    with once.loop [OF act.IH] show ?thesis by simp
  next
    case (Callback e)
    have "sent_once (he_json env) (mset cs) ((hs_hub s)\<lparr>hb_ble := hb_ble (hs_hub s)\<rparr>)"
      using act.IH by simp
    from once.event [OF this] Callback show ?thesis by (simp add: on_ble_def)
  next
    case (Mqtt i ev)
    have "\<forall>d \<in> set (event_commands env i ev). fits 18 (mc_target d)"
      using event_commands_fit by blast
    note all = once_dispatch_all [OF this act.IH]
    show ?thesis
    proof (cases "i = MQTT_EVENT_DATA")
      case True
      with all Mqtt show ?thesis by (simp add: dispatch_event)
    next
      case False
      then have "event_commands env i ev = []" by (simp add: event_commands_def)
      with all act.IH Mqtt False show ?thesis by (cases i) (simp_all add: dispatch_event once.mqtt)
    qed
  qed
qed

lemma count_delivered:
  "pkt \<noteq> ready_packet \<Longrightarrow> count (delivered b) pkt
     = length (filter (\<lambda>(ch, p, ok). ok \<and> p = pkt) (bl_writes b))"
proof -
  assume "pkt \<noteq> ready_packet"
  then have "count (mset (map (fst \<circ> snd) (filter (\<lambda>(ch, p, ok). ok \<and> p \<noteq> ready_packet) ws))) pkt
      = length (filter (\<lambda>(ch, p, ok). ok \<and> p = pkt) ws)" for ws :: "(nat \<times> byte list \<times> bool) list"
    by (induction ws) auto
  then show ?thesis unfolding delivered_def .
qed

lemma count_packets: "count (packets js (mset cs)) pkt = length (filter (\<lambda>c. packet_of js c = Some pkt) cs)"
  by (induction cs) (auto split: option.splits)

lemma count_packets_mono:
  assumes "image_mset unstamp (mset cs) \<subseteq># M"
  shows "length (filter (\<lambda>c. packet_of js c = Some pkt) cs) \<le> count (packets js M) pkt"
proof -
  have "count (packets js (mset (map unstamp cs))) pkt \<le> count (packets js M) pkt"
    using assms by (intro mset_subset_eq_count packets_mono) simp
  then show ?thesis unfolding count_packets by (simp add: filter_map comp_def)
qed

section \<open>Properties\<close>

lemma in_mb_pending:
  assumes "pool_inv p" and "\<And>c. c \<in># pool_cmds p \<Longrightarrow> C c" and "c \<in> set (mb_pending (pool_abs p) n)"
  shows "C (unstamp c)"
  using in_mb_bag [OF pool.finite_abs [OF assms(1)] assms(3)] assms(2) by (simp add: pool_cmds_def)

text \<open>
  In every reachable state every string fits the buffer that the source declares for it: target,
  type and payload of the pending commands, node id and type of the queued reports, node id of the
  queued acknowledgements, whatever the messages, the packets and the addresses are.
\<close>

theorem hub_strings_fit:
  assumes "boot_mem pmem rmem amem" and "pool_mem mem" and "json_bounded (he_json env)"
    and "hub_reach env api (hub_power_on env api root_ca mac wifiUp addr0 pmem rmem amem mem nvs) s"
  shows "(\<forall>c \<in> set (mb_pending (pool_abs (hb_pool (hs_hub s))) n).
            fits 18 (mc_target c) \<and> fits 16 (mc_type c) \<and> length (mc_payload c) \<le> 256)
    \<and> (\<forall>r \<in> set (reports (hb_ble (hs_hub s))). fits 18 (sr_node_id r) \<and> fits 8 (sr_node_type_str r))
    \<and> (\<forall>a \<in> set (acks (hb_ble (hs_hub s))). fits 18 (ar_node_id a))"
proof -
  obtain cs where run:
    "hub_run env api (hub_power_on env api root_ca mac wifiUp addr0 pmem rmem amem mem nvs) cs s"
    using hub_reach_run [OF assms(4)] by blast
  from strings_run [OF run assms(3) strings.power_on [OF carries_boot [OF assms(1,2)]]]
  have fit: "strings_fit (hs_hub s)" .
  then have pool: "pool_inv (hb_pool (hs_hub s))" "\<And>c. c \<in># pool_cmds (hb_pool (hs_hub s)) \<Longrightarrow> cmd_fits c"
    by (simp_all add: carries_def)
  have "cmd_fits (unstamp c)" if "c \<in> set (mb_pending (pool_abs (hb_pool (hs_hub s))) n)" for c
    by (rule in_mb_pending [OF pool that])
  with fit show ?thesis
    by (auto simp: carries_def list_all_iff cmd_fits_def unstamp_def report_fits_def ack_fits_def)
qed

text \<open>
  A command is never sent twice: in every run the packet of a command is written with success at
  most as often as commands with this packet have been received, and the copies that are still
  pending count as well.  This holds whatever NimBLE answers, and with the command taken out of the
  pool and put back any number of times.
\<close>

theorem written_at_most_once:
  assumes "boot_mem pmem rmem amem" and "pool_mem mem"
    and "hub_run env api (hub_power_on env api root_ca mac wifiUp addr0 pmem rmem amem mem nvs) cs s"
    and "pkt \<noteq> ready_packet"
  shows "length (filter (\<lambda>(ch, p, ok). ok \<and> p = pkt) (bl_writes (hb_ble (hs_hub s))))
      + length (filter (\<lambda>c. packet_of (he_json env) c = Some pkt) (mb_pending (pool_abs (hb_pool (hs_hub s))) n))
    \<le> length (filter (\<lambda>c. packet_of (he_json env) c = Some pkt) cs)"
proof -
  let ?js = "he_json env" and ?h = "hs_hub s"
  have "sent_once ?js {#} (boot_hub addr0 pmem rmem amem mem)"
    using pool_inv_new [OF assms(2)] by (simp add: sent_within_def boot_hub_def delivered_def ble_boot_def)
  from once_run [OF assms(3) once.power_on [OF this]] have inv: "sent_once ?js (mset cs) ?h" .
  have "image_mset unstamp (mset (mb_pending (pool_abs (hb_pool ?h)) n)) \<subseteq># pool_cmds (hb_pool ?h)"
    using mb_bag_split [OF pool.finite_abs, of "hb_pool ?h" n] inv
    by (simp add: sent_within_def pool_cmds_def)
  from count_packets_mono [OF this]
  have "length (filter (\<lambda>c. packet_of ?js c = Some pkt) (mb_pending (pool_abs (hb_pool ?h)) n))
      \<le> count (packets ?js (pool_cmds (hb_pool ?h))) pkt" .
  moreover have "count (delivered (hb_ble ?h)) pkt + count (packets ?js (pool_cmds (hb_pool ?h))) pkt
      \<le> count (packets ?js (mset cs)) pkt"
    using inv mset_subset_eq_count by (fastforce simp: sent_within_def)
  ultimately show ?thesis
    by (simp add: count_delivered [OF assms(4)] count_packets)
qed

definition one_json :: "unit json_api" where
  "one_json = example_json\<lparr>js_parse := (\<lambda>_. (False, ())), js_array := (\<lambda>_ _. Some [()]),
     js_int := (\<lambda>_ k d. if k = ''interval_sec'' then 90 else if k = ''cmd_id'' then 9 else d),
     js_str := (\<lambda>_ k d. if k = ''target'' then ''aa'' else if k = ''type'' then ''SET_INTERVAL'' else d)\<rparr>"

definition one_env :: "(string, unit) hub_env" where
  "one_env = example_hub_env\<lparr>he_json := one_json\<rparr>"

definition one_message :: "string hub_action" where
  "one_message = Mqtt MQTT_EVENT_DATA
     \<lparr>ev_topic_len = 5, ev_data = ''{}'', ev_data_len = 2, ev_total_data_len = 2\<rparr>"

definition one_start :: "(string, string \<rightharpoonup> string) hub_sys" where
  "one_start = hub_power_on one_env (map_wifi True) [] ''AA:BB'' True [] (replicate 8 [])
     (replicate 8 SensorReport_init) (replicate 4 CmdAckReport_init) example_mem Map.empty"

lemma one_received:
  "action_commands one_env one_message =
     [\<lparr>mc_target = ''aa'', mc_type = ''SET_INTERVAL'', mc_payload = [], mc_cmd_id = 9, mc_queued_at = 0\<rparr>]"
  by (simp add: one_message_def event_commands_def message_commands_def parseCommand_def one_env_def
      one_json_def example_hub_env_def example_json_def strlcpy_def cstr_def)

lemma one_run:
  "hub_run one_env (map_wifi True) one_start (action_commands one_env one_message)
     (hub_do one_env (map_wifi True) one_message one_start)"
  using hub_run.act [OF hub_run.start, of one_env "map_wifi True" one_start one_message] by simp

theorem written_at_most_once_witness:
  "let h = hs_hub (hub_do one_env (map_wifi True) one_message one_start); pkt = [0x12, 9, 0, 90, 0]
   in length (filter (\<lambda>(ch, p, ok). ok \<and> p = pkt) (bl_writes (hb_ble h)))
    + length (filter (\<lambda>c. packet_of one_json c = Some pkt) (mb_pending (pool_abs (hb_pool h)) ''aa'')) \<le> 1"
proof -
  have "[0x12, 9, 0, 90, 0] \<noteq> ready_packet"
    by (simp add: ready_packet_def bytes_HubReady_def)
  note once = written_at_most_once [OF example_boot_mem example_mem_ok one_run [unfolded one_start_def] this]
  have "he_json one_env = one_json" by (simp add: one_env_def)
  with once [of "''aa''"] show ?thesis
    unfolding one_received one_start_def Let_def by (simp split: if_splits)
qed

lemma one_pending:
  "mb_pending (pool_abs (hb_pool (hs_hub (hub_do one_env (map_wifi True) one_message one_start)))) ''aa'' =
     [\<lparr>mc_target = ''aa'', mc_type = ''SET_INTERVAL'', mc_payload = [], mc_cmd_id = 9, mc_queued_at = 200000\<rparr>]"
  by code_simp

theorem hub_strings_fit_witness:
  "let c = hd (mb_pending (pool_abs (hb_pool (hs_hub (hub_do one_env (map_wifi True) one_message one_start)))) ''aa'')
   in mc_type c = ''SET_INTERVAL'' \<and> fits 18 (mc_target c) \<and> fits 16 (mc_type c)"
proof -
  have "json_bounded (he_json one_env)"
    by (simp add: json_bounded_def one_env_def one_json_def example_hub_env_def example_json_def)
  from hub_strings_fit [OF example_boot_mem example_mem_ok this hub_run_reach [OF one_run [unfolded one_start_def]],
      of "''aa''", folded one_start_def]
  show ?thesis by (simp add: one_pending Let_def)
qed

end
