(* ===== verification/Node_State.thy ===== *)
theory Node_State
  imports Prelude
begin

text \<open>
  The persistent state of a node, class \<^verbatim>\<open>NodeState\<close> of \<^verbatim>\<open>lib/storage/node_state.cpp\<close>.  The flash
  store \<^verbatim>\<open>Preferences\<close> is not part of the repository: its three calls are the fields of a
  parameter \<open>prefs_api\<close> over an unknown store type, and what the code relies on (a value put is
  the value got; a cleared store answers with the default) is the predicate \<open>prefs_laws\<close>.
\<close>

section \<open>State and operations\<close>

definition MIN_INTERVAL :: u16 where "MIN_INTERVAL = 10"
definition MAX_INTERVAL :: u16 where "MAX_INTERVAL = 3600"
definition DEFAULT_INTERVAL :: u16 where "DEFAULT_INTERVAL = 60"

record 'nvs prefs_api =
  getUShort :: "'nvs \<Rightarrow> string \<Rightarrow> u16 \<Rightarrow> u16"
  putUShort :: "'nvs \<Rightarrow> string \<Rightarrow> u16 \<Rightarrow> 'nvs"
  clearAll :: "'nvs \<Rightarrow> 'nvs"

record 'nvs NodeState =
  ns_sleepInterval :: u16
  ns_opened :: bool
  ns_prefs :: 'nvs

text \<open>A freshly booted node: the member initialisers, over the flash it finds.\<close>

definition ns_boot :: "'nvs \<Rightarrow> 'nvs NodeState" where
  "ns_boot nvs = \<lparr>ns_sleepInterval = 60, ns_opened = False, ns_prefs = nvs\<rparr>"

definition ns_begin :: "'nvs prefs_api \<Rightarrow> 'nvs NodeState \<Rightarrow> 'nvs NodeState" where
  "ns_begin api s =
     (let i = getUShort api (ns_prefs s) ''interval'' DEFAULT_INTERVAL;
          i' = (if i < MIN_INTERVAL \<or> i > MAX_INTERVAL then DEFAULT_INTERVAL else i)
      in s\<lparr>ns_sleepInterval := i', ns_opened := True\<rparr>)"

definition ns_end :: "'nvs NodeState \<Rightarrow> 'nvs NodeState" where
  "ns_end s = (if ns_opened s then s\<lparr>ns_opened := False\<rparr> else s)"

definition ns_clear :: "'nvs prefs_api \<Rightarrow> 'nvs NodeState \<Rightarrow> 'nvs NodeState" where
  "ns_clear api s =
     (let s1 = (if ns_opened s then s\<lparr>ns_prefs := clearAll api (ns_prefs s)\<rparr> else s)
      in s1\<lparr>ns_sleepInterval := DEFAULT_INTERVAL\<rparr>)"

definition ns_setSleepInterval :: "'nvs prefs_api \<Rightarrow> 'nvs NodeState \<Rightarrow> u16 \<Rightarrow> 'nvs NodeState" where
  "ns_setSleepInterval api s sec0 =
     (let sec1 = (if sec0 < MIN_INTERVAL then MIN_INTERVAL else sec0);
          sec = (if sec1 > MAX_INTERVAL then MAX_INTERVAL else sec1);
          s1 = s\<lparr>ns_sleepInterval := sec\<rparr>
      in if ns_opened s then s1\<lparr>ns_prefs := putUShort api (ns_prefs s) ''interval'' sec\<rparr> else s1)"

section \<open>The flash store\<close>

definition prefs_laws :: "'nvs prefs_api \<Rightarrow> bool" where
  "prefs_laws api \<longleftrightarrow>
     (\<forall>m k v d. getUShort api (putUShort api m k v) k d = v)
     \<and> (\<forall>m k d. getUShort api (clearAll api m) k d = d)"

definition map_prefs :: "(string \<rightharpoonup> u16) prefs_api" where
  "map_prefs = \<lparr>getUShort = (\<lambda>m k d. case m k of None \<Rightarrow> d | Some v \<Rightarrow> v),
     putUShort = (\<lambda>m k v. m(k \<mapsto> v)), clearAll = (\<lambda>m. Map.empty)\<rparr>"

lemma map_prefs_laws: "prefs_laws map_prefs"
  by (simp add: prefs_laws_def map_prefs_def)

section \<open>The interval stays in range\<close>

definition ns_ok :: "'nvs NodeState \<Rightarrow> bool" where
  "ns_ok s \<longleftrightarrow> 10 \<le> ns_sleepInterval s \<and> ns_sleepInterval s \<le> 3600"

definition clamp_interval :: "u16 \<Rightarrow> u16" where
  "clamp_interval v = max 10 (min 3600 v)"

lemma clamp_interval_range: "10 \<le> clamp_interval v" "clamp_interval v \<le> 3600"
  by (auto simp: clamp_interval_def max_def min_def word_le_nat_alt)

lemma clamp_interval_id [simp]: "10 \<le> v \<Longrightarrow> v \<le> 3600 \<Longrightarrow> clamp_interval v = v"
  by (simp add: clamp_interval_def)

lemma ns_set_interval [simp]: "ns_sleepInterval (ns_setSleepInterval api s v) = clamp_interval v"
  by (auto simp: ns_setSleepInterval_def clamp_interval_def MIN_INTERVAL_def MAX_INTERVAL_def
      max_def min_def Let_def) unat_arith

lemma ns_set_frame [simp]:
  "ns_opened (ns_setSleepInterval api s v) = ns_opened s"
  "ns_prefs (ns_setSleepInterval api s v)
   = (if ns_opened s then putUShort api (ns_prefs s) ''interval'' (clamp_interval v) else ns_prefs s)"
  using ns_set_interval [of api s v] by (auto simp: ns_setSleepInterval_def Let_def)

lemma ns_ok_intros [intro, tempio_inv]:
  "ns_ok (ns_boot nvs)" "ns_ok (ns_begin api s)" "ns_ok (ns_clear api s)"
  "ns_ok (ns_setSleepInterval api s v)" "ns_ok s \<Longrightarrow> ns_ok (ns_end s)"
  by (auto simp: ns_ok_def ns_boot_def ns_begin_def ns_clear_def ns_end_def Let_def
      clamp_interval_range MIN_INTERVAL_def MAX_INTERVAL_def DEFAULT_INTERVAL_def not_less)

section \<open>Sessions of calls\<close>

datatype ns_method = NsBegin | NsEnd | NsClear | NsSet u16

fun ns_call :: "'nvs prefs_api \<Rightarrow> 'nvs NodeState \<Rightarrow> ns_method \<Rightarrow> 'nvs NodeState" where
  "ns_call api s NsBegin = ns_begin api s"
| "ns_call api s NsEnd = ns_end s"
| "ns_call api s NsClear = ns_clear api s"
| "ns_call api s (NsSet v) = ns_setSleepInterval api s v"

lemma ns_call_ok: "ns_ok s \<Longrightarrow> ns_ok (ns_call api s c)"
  by (cases c) auto

lemma ns_calls_ok: "ns_ok s \<Longrightarrow> ns_ok (foldl (ns_call api) s cs)"
  by (induction cs arbitrary: s) (simp_all add: ns_call_ok)

text \<open>
  C35: whatever the flash contains and in whatever order the methods are called, the sleep
  interval of a node is between 10 and 3600 seconds.
\<close>

theorem interval_in_range:
  "10 \<le> ns_sleepInterval (foldl (ns_call api) (ns_boot nvs) cs)
   \<and> ns_sleepInterval (foldl (ns_call api) (ns_boot nvs) cs) \<le> 3600"
  using ns_calls_ok [OF ns_ok_intros(1), of api nvs cs] by (simp add: ns_ok_def)

lemma interval_in_flash:
  assumes "prefs_laws api" and "ns_opened s"
  shows "ns_sleepInterval (ns_begin api (ns_boot (ns_prefs (ns_setSleepInterval api s v)))) = clamp_interval v"
  using assms clamp_interval_range [THEN leD, of v]
  by (simp add: prefs_laws_def ns_begin_def ns_boot_def MIN_INTERVAL_def MAX_INTERVAL_def DEFAULT_INTERVAL_def Let_def)

text \<open>
  An interval that is set while the store is open survives a reboot: the next \<open>begin\<close> on the
  same flash restores the clamped value.  After \<open>clear\<close>, the next boot starts with 60 seconds.
\<close>

theorem interval_persists:
  assumes "prefs_laws api" and "ns_opened s"
  shows "ns_sleepInterval
           (ns_begin api (ns_boot (ns_prefs (ns_end (ns_setSleepInterval api s v))))) = clamp_interval v
    \<and> ns_sleepInterval (ns_begin api (ns_boot (ns_prefs (ns_end (ns_clear api s))))) = 60"
  using assms clamp_interval_range [THEN leD, of v]
  by (simp add: prefs_laws_def ns_begin_def ns_boot_def ns_end_def ns_clear_def MIN_INTERVAL_def
      MAX_INTERVAL_def DEFAULT_INTERVAL_def Let_def)

theorem interval_persists_witness:
  "ns_sleepInterval (ns_begin map_prefs (ns_boot (ns_prefs (ns_end
     (ns_setSleepInterval map_prefs (ns_begin map_prefs (ns_boot Map.empty)) 9000))))) = 3600"
  using interval_persists [OF map_prefs_laws, of "ns_begin map_prefs (ns_boot Map.empty)" 9000]
  by (simp add: ns_begin_def clamp_interval_def Let_def)

end
