(* ===== verification/Sensor_Node.thy ===== *)
theory Sensor_Node
  imports Protocol Node_State "HOL-Library.Monad_Syntax"
begin

text \<open>
  The sensor node, \<^verbatim>\<open>sensor/ble_peripheral.cpp\<close> and \<^verbatim>\<open>sensor/main.cpp\<close>: it wakes up, waits for the hub,
  sends its data, and goes to deep sleep.  NimBLE's callbacks run while the main task is in a
  delay; the environment says which ones run in the \<open>n\<close>-th delay and what \<open>millis()\<close> returns at the
  \<open>n\<close>-th reading.  A wait loop may in principle run for ever, so the loops and \<open>setup\<close> return an
  option; that they return is a theorem about clocks.
\<close>

section \<open>State and callbacks\<close>

datatype sensor_event = HubConnected u16 | HubDisconnected | ConfigWritten "byte list"

text \<open>
  \<open>se_temp\<close> and \<open>se_humidity\<close> are the raw bits of the two float expressions, \<open>se_ldr\<close> and \<open>se_bat\<close> the
  results of the two integer calls of \<open>random\<close>.
\<close>

record 'nvs sensor_env =
  se_prefs :: "'nvs prefs_api"
  se_millis :: "nat \<Rightarrow> u32"
  se_events :: "nat \<Rightarrow> sensor_event list"
  se_temp :: u32
  se_humidity :: u32
  se_ldr :: int
  se_bat :: int

text \<open>
  \<open>sn_dataChar\<close> says whether \<open>pDataChar\<close> is set; \<open>sn_lit\<close> is the LED; \<open>sn_notifies\<close> logs the notifications;
  \<open>sn_restarted\<close> is set by \<open>ESP.restart()\<close>, after which nothing runs any more; \<open>sn_sleep\<close> is the time
  given to the wake-up timer, in microseconds, once the node sleeps.
\<close>

record 'nvs sensor =
  sn_state :: "'nvs NodeState"
  sn_dataChar :: bool
  sn_deviceConnected :: bool
  sn_hubReady :: bool
  sn_hubConnHandle :: u16
  sn_lit :: bool
  sn_notifies :: "byte list list"
  sn_restarted :: bool
  sn_sleep :: "nat option"
  sn_reads :: nat
  sn_delays :: nat

definition sensor_boot :: "'nvs \<Rightarrow> 'nvs sensor" where
  "sensor_boot nvs = \<lparr>sn_state = ns_boot nvs, sn_dataChar = False, sn_deviceConnected = False,
     sn_hubReady = False, sn_hubConnHandle = 0, sn_lit = False, sn_notifies = [],
     sn_restarted = False, sn_sleep = None, sn_reads = 0, sn_delays = 0\<rparr>"

definition notify :: "byte list \<Rightarrow> 'nvs sensor \<Rightarrow> 'nvs sensor" where
  "notify data s = s\<lparr>sn_notifies := sn_notifies s @ [data]\<rparr>"

definition onHubConnect :: "u16 \<Rightarrow> 'nvs sensor \<Rightarrow> 'nvs sensor" where
  "onHubConnect connHandle s =
     s\<lparr>sn_deviceConnected := True, sn_hubConnHandle := connHandle, sn_lit := True\<rparr>"

definition onHubDisconnect :: "'nvs sensor \<Rightarrow> 'nvs sensor" where
  "onHubDisconnect s = s\<lparr>sn_deviceConnected := False, sn_lit := False\<rparr>"

definition send_ack :: "u16 \<Rightarrow> 'nvs sensor \<Rightarrow> 'nvs sensor" where
  "send_ack cmd_id s =
     notify (bytes_CmdAck \<lparr>ca_type = msg_code CMD_ACK, ca_cmd_id = cmd_id, ca_success = 1\<rparr>) s"

definition onWrite :: "'nvs prefs_api \<Rightarrow> byte list \<Rightarrow> 'nvs sensor \<Rightarrow> 'nvs sensor" where
  "onWrite api val s =
     (case val of
        [] \<Rightarrow> s
      | t # _ \<Rightarrow>
          (case msg_of_byte t of
             Some HUB_READY \<Rightarrow> s\<lparr>sn_hubReady := True\<rparr>
           | Some SET_INTERVAL \<Rightarrow>
               (case read_SetInterval val of
                  None \<Rightarrow> s
                | Some cmd \<Rightarrow>
                    (let s1 = s\<lparr>sn_state := ns_setSleepInterval api (sn_state s) (si_interval_sec cmd)\<rparr>
                     in if si_cmd_id cmd \<noteq> 0 \<and> sn_dataChar s1 \<and> sn_deviceConnected s1
                        then send_ack (si_cmd_id cmd) s1 else s1))
           | Some RESET_NODE \<Rightarrow>
               (case read_ResetNode val of
                  None \<Rightarrow> s
                | Some cmd \<Rightarrow>
                    (let st1 = (if rn_level cmd \<ge> 1 then ns_clear api (sn_state s) else sn_state s)
                     in s\<lparr>sn_state := ns_end st1, sn_restarted := True\<rparr>))
           | Some TEST_CMD \<Rightarrow>
               (case read_TestCmd val of
                  None \<Rightarrow> s
                | Some cmd \<Rightarrow>
                    (let s1 = (if tc_led cmd \<noteq> 0 \<and> sn_dataChar s then s\<lparr>sn_lit := False\<rparr> else s)
                     in if sn_dataChar s1 \<and> sn_deviceConnected s1
                        then send_ack (tc_cmd_id cmd) s1 else s1))
           | _ \<Rightarrow> s))"

fun sensor_callback :: "'nvs prefs_api \<Rightarrow> sensor_event \<Rightarrow> 'nvs sensor \<Rightarrow> 'nvs sensor" where
  "sensor_callback api (HubConnected connHandle) s = onHubConnect connHandle s"
| "sensor_callback api HubDisconnected s = onHubDisconnect s"
| "sensor_callback api (ConfigWritten val) s = onWrite api val s"

text \<open>Callbacks in a delay; after a restart there are none.\<close>

definition sensor_delay :: "'nvs sensor_env \<Rightarrow> 'nvs sensor \<Rightarrow> 'nvs sensor" where
  "sensor_delay env s =
     foldl (\<lambda>s e. if sn_restarted s then s else sensor_callback (se_prefs env) e s)
       (s\<lparr>sn_delays := Suc (sn_delays s)\<rparr>) (se_events env (sn_delays s))"

section \<open>The main task\<close>

definition ble_peripheral_init :: "'nvs sensor_env \<Rightarrow> 'nvs sensor \<Rightarrow> 'nvs sensor" where
  "ble_peripheral_init env s =
     s\<lparr>sn_lit := False, sn_state := ns_begin (se_prefs env) (sn_state s), sn_dataChar := True\<rparr>"

text \<open>
  The shape of the three wait loops: \<open>stop\<close> is the test before the clock is read, with the value to
  return; the loop gives up with \<open>False\<close> when the time is over (or the node restarts).
\<close>

partial_function (option) wait_loop ::
  "'nvs sensor_env \<Rightarrow> ('nvs sensor \<Rightarrow> bool option) \<Rightarrow> u32 \<Rightarrow> u32 \<Rightarrow> 'nvs sensor
   \<Rightarrow> (bool \<times> 'nvs sensor) option" where
  "wait_loop env stop start timeout s =
     (if sn_restarted s then Some (False, s)
      else (case stop s of
              Some r \<Rightarrow> Some (r, s)
            | None \<Rightarrow>
                (let s1 = s\<lparr>sn_reads := Suc (sn_reads s)\<rparr>
                 in if se_millis env (sn_reads s) - start \<ge> timeout then Some (False, s1)
                    else wait_loop env stop start timeout (sensor_delay env s1))))"

definition start_timer :: "'nvs sensor_env \<Rightarrow> 'nvs sensor \<Rightarrow> u32 \<times> 'nvs sensor" where
  "start_timer env s = (se_millis env (sn_reads s), s\<lparr>sn_reads := Suc (sn_reads s)\<rparr>)"

definition ble_wait_connect ::
  "'nvs sensor_env \<Rightarrow> u32 \<Rightarrow> 'nvs sensor \<Rightarrow> (bool \<times> 'nvs sensor) option" where
  "ble_wait_connect env timeout_ms s =
     (let (start, s1) = start_timer env s
      in wait_loop env (\<lambda>s. if sn_deviceConnected s then Some True else None) start timeout_ms s1)"

definition ble_wait_hub_ready ::
  "'nvs sensor_env \<Rightarrow> u32 \<Rightarrow> 'nvs sensor \<Rightarrow> (bool \<times> 'nvs sensor) option" where
  "ble_wait_hub_ready env timeout_ms s =
     (let (start, s1) = start_timer env s
      in wait_loop env
           (\<lambda>s. if sn_hubReady s then Some True else if \<not> sn_deviceConnected s then Some False else None)
           start timeout_ms s1)"

definition ble_send_node_info :: "'nvs sensor \<Rightarrow> 'nvs sensor" where
  "ble_send_node_info s =
     (if \<not> sn_dataChar s \<or> \<not> sn_deviceConnected s then s
      else notify (bytes_NodeInfo \<lparr>ni_type = msg_code NODE_INFO, ni_node_type = NT_SENSOR,
                     ni_battery_mv = 3100, ni_fw_major = 0, ni_fw_minor = 1\<rparr>) s)"

definition sensor_data :: "'nvs sensor_env \<Rightarrow> SensorData" where
  "sensor_data env = \<lparr>sd_type = msg_code SENSOR_DATA, sd_temp = se_temp env,
     sd_humidity = se_humidity env, sd_ldr = word_of_int (se_ldr env),
     sd_battery_mv = word_of_int (2900 + se_bat env)\<rparr>"

definition ble_send_sensor_data :: "'nvs sensor_env \<Rightarrow> 'nvs sensor \<Rightarrow> 'nvs sensor" where
  "ble_send_sensor_data env s =
     (if \<not> sn_dataChar s \<or> \<not> sn_deviceConnected s then s
      else notify (bytes_SensorData (sensor_data env)) s)"

text \<open>After \<open>NimBLEDevice::deinit\<close> there are no callbacks, so the last delay does nothing.\<close>

definition ble_disconnect :: "'nvs sensor_env \<Rightarrow> 'nvs sensor \<Rightarrow> 'nvs sensor option" where
  "ble_disconnect env s =
     do {
       s1 \<leftarrow> (if sn_deviceConnected s
              then (let (start, s1) = start_timer env s
                    in map_option snd
                         (wait_loop env (\<lambda>s. if \<not> sn_deviceConnected s then Some True else None)
                            start 500 s1))
              else Some s);
       Some (if sn_restarted s1 then s1 else s1\<lparr>sn_state := ns_end (sn_state s1)\<rparr>)
     }"

definition ble_is_connected :: "'nvs sensor \<Rightarrow> bool" where
  "ble_is_connected s = sn_deviceConnected s"

definition ble_get_sleep_interval :: "'nvs sensor \<Rightarrow> u16" where
  "ble_get_sleep_interval s = ns_sleepInterval (sn_state s)"

text \<open>A step of \<open>setup\<close> that does not happen after a restart.\<close>

definition alive :: "('nvs sensor \<Rightarrow> 'nvs sensor) \<Rightarrow> 'nvs sensor \<Rightarrow> 'nvs sensor" where
  "alive f s = (if sn_restarted s then s else f s)"

definition send_all :: "'nvs sensor_env \<Rightarrow> 'nvs sensor \<Rightarrow> 'nvs sensor" where
  "send_all env s =
     alive (sensor_delay env) (alive (ble_send_sensor_data env)
       (alive (sensor_delay env) (alive ble_send_node_info s)))"

definition talk_to_hub :: "'nvs sensor_env \<Rightarrow> 'nvs sensor \<Rightarrow> 'nvs sensor option" where
  "talk_to_hub env s =
     do {
       (ready, s1) \<leftarrow> ble_wait_hub_ready env 3000 s;
       Some (if ready then send_all env s1 else s1)
     }"

definition deep_sleep :: "'nvs sensor \<Rightarrow> 'nvs sensor" where
  "deep_sleep s = s\<lparr>sn_sleep := Some (unat (ble_get_sleep_interval s) * 1000000)\<rparr>"

text \<open>There are no callbacks before NimBLE is initialised, so the delay at the start does nothing.\<close>

definition sensor_setup :: "'nvs sensor_env \<Rightarrow> 'nvs sensor \<Rightarrow> 'nvs sensor option" where
  "sensor_setup env s =
     do {
       (connected, s2) \<leftarrow> ble_wait_connect env 5000 (ble_peripheral_init env s);
       s3 \<leftarrow> (if connected then talk_to_hub env s2 else Some s2);
       s4 \<leftarrow> (if sn_restarted s3 then Some s3 else ble_disconnect env s3);
       Some (alive deep_sleep s4)
     }"

section \<open>What delays and wait loops keep\<close>

lemma sensor_delay_keeps:
  assumes "\<And>e s. P s \<Longrightarrow> P (sensor_callback (se_prefs env) e s)"
    and "\<And>s n. P s \<Longrightarrow> P (s\<lparr>sn_delays := n\<rparr>)" and "P s"
  shows "P (sensor_delay env s)"
proof -
  have "P (foldl (\<lambda>s e. if sn_restarted s then s else sensor_callback (se_prefs env) e s) s es)"
    if "P s" for es s
    using that assms(1) by (induction es arbitrary: s) auto
  with assms(2,3) show ?thesis by (simp add: sensor_delay_def)
qed

lemma wait_loop_keeps:
  assumes "wait_loop env stop start timeout s = Some (r, s')"
    and "\<And>s. P s \<Longrightarrow> P (sensor_delay env s)" and "\<And>s n. P s \<Longrightarrow> P (s\<lparr>sn_reads := n\<rparr>)" and "P s"
  shows "P s'"
proof -
  have "(\<forall>s. P s \<longrightarrow> P (sensor_delay env s)) \<longrightarrow> P s \<longrightarrow> P (snd (r, s'))"
  proof (rule wait_loop.raw_induct [OF _ assms(1)])
    fix wl :: "'a sensor_env \<Rightarrow> ('a sensor \<Rightarrow> bool option) \<Rightarrow> u32 \<Rightarrow> u32 \<Rightarrow> 'a sensor \<Rightarrow> (bool \<times> 'a sensor) option"
      and env stop start timeout s y
    assume ih: "\<And>env stop start timeout s y. wl env stop start timeout s = Some y
        \<Longrightarrow> (\<forall>s. P s \<longrightarrow> P (sensor_delay env s)) \<longrightarrow> P s \<longrightarrow> P (snd y)"
      and body: "(if sn_restarted s then Some (False, s)
        else case stop s of Some r \<Rightarrow> Some (r, s)
          | None \<Rightarrow> let s1 = s\<lparr>sn_reads := Suc (sn_reads s)\<rparr>
              in if timeout \<le> se_millis env (sn_reads s) - start then Some (False, s1)
                 else wl env stop start timeout (sensor_delay env s1)) = Some y"
    show "(\<forall>s. P s \<longrightarrow> P (sensor_delay env s)) \<longrightarrow> P s \<longrightarrow> P (snd y)"
      using body assms(3) ih [of env stop start timeout "sensor_delay env (s\<lparr>sn_reads := Suc (sn_reads s)\<rparr>)" y]
      by (auto simp: Let_def split: if_splits option.splits)
  qed
  with assms(2,4) show ?thesis by simp
qed

section \<open>The wait loops end\<close>

text \<open>
  What is assumed of the clock: it shows the milliseconds of a true time \<open>T\<close> modulo \<open>2 ^ 32\<close>; the true
  time does not go back, exceeds every bound, and advances by at most \<open>D\<close> between two readings.
\<close>

definition clock_law :: "'nvs sensor_env \<Rightarrow> (nat \<Rightarrow> nat) \<Rightarrow> nat \<Rightarrow> bool" where
  "clock_law env T D \<longleftrightarrow> (\<forall>k. se_millis env k = word_of_nat (T k))
     \<and> (\<forall>k. T k \<le> T (Suc k) \<and> T (Suc k) \<le> T k + D) \<and> (\<forall>t. \<exists>k. t \<le> T k)"

lemma clock_mono: "clock_law env T D \<Longrightarrow> j \<le> k \<Longrightarrow> T j \<le> T k"
  by (auto simp: clock_law_def intro: lift_Suc_mono_le [of T])

text \<open>The first reading at which the time is over is a reading that shows it.\<close>

lemma clock_expires:
  assumes "clock_law env T D" and "timeout + D < 2 ^ 32"
  shows "\<exists>k > r. se_millis env k - se_millis env r \<ge> word_of_nat timeout"
proof -
  have "\<exists>k. T r + timeout \<le> T k" using assms(1) unfolding clock_law_def by blast
  then obtain k0 where "T r + timeout \<le> T k0" ..
  then have "T r + timeout \<le> T (max (Suc r) k0)"
    using clock_mono [OF assms(1), of k0 "max (Suc r) k0"] by simp
  then have ex: "\<exists>k > r. T r + timeout \<le> T k" by (intro exI [of _ "max (Suc r) k0"]) auto
  then obtain k where k: "r < k \<and> T r + timeout \<le> T k"
    and least: "\<forall>j < k. \<not> (r < j \<and> T r + timeout \<le> T j)"
    unfolding exists_least_iff [of "\<lambda>k. r < k \<and> T r + timeout \<le> T k"] by blast
  have "T k \<le> T (k - 1) + D"
    using assms(1) k by (cases k) (auto simp: clock_law_def)
  moreover have "k - 1 = r \<or> T (k - 1) < T r + timeout"
    using least [THEN spec, of "k - 1"] k by force
  ultimately have "T k - T r < 2 ^ 32"
    using assms(2) by auto
  moreover have "(word_of_nat (T k) :: u32) - word_of_nat (T r) = word_of_nat (T k - T r)"
    using k by (simp add: of_nat_diff)
  moreover have "timeout \<le> T k - T r" using k by linarith
  ultimately have "(word_of_nat timeout :: u32) \<le> se_millis env k - se_millis env r"
    using assms by (simp add: clock_law_def word_le_nat_alt unsigned_of_nat take_bit_nat_eq_self)
  with k show ?thesis by blast
qed

lemma sensor_delay_reads [simp]: "sn_reads (sensor_delay env s) = sn_reads s"
proof -
  have "sn_reads (sensor_callback api e s) = sn_reads s" for api e and s :: "'a sensor"
    by (cases e) (auto simp: onHubConnect_def onHubDisconnect_def onWrite_def send_ack_def notify_def
        Let_def split: list.splits option.splits MsgType.splits)
  then show ?thesis
    by (intro sensor_delay_keeps [of "\<lambda>s'. sn_reads s' = sn_reads s"]) auto
qed

lemma wait_loop_returns:
  assumes "se_millis env k - start \<ge> timeout" and "sn_reads s \<le> k"
  shows "\<exists>r s'. wait_loop env stop start timeout s = Some (r, s') \<and> sn_reads s' \<le> Suc k"
  using assms(2)
proof (induction "k - sn_reads s" arbitrary: s)
  case 0
  with assms(1) show ?case
    by (subst wait_loop.simps) (auto split: option.splits)
next
  case (Suc n)
  let ?s = "sensor_delay env (s\<lparr>sn_reads := Suc (sn_reads s)\<rparr>)"
  have "n = k - sn_reads ?s" "sn_reads ?s \<le> k"
    using Suc.hyps(2) by simp_all
  from Suc.hyps(1) [OF this] show ?case
    using Suc.prems by (subst wait_loop.simps) (auto simp: Let_def split: option.splits)
qed

lemma timer_returns:
  assumes "clock_law env T D" and "timeout + D < 2 ^ 32" and "start_timer env s = (start, s1)"
  shows "\<exists>r s'. wait_loop env stop start (word_of_nat timeout) s1 = Some (r, s')"
proof -
  obtain k where "sn_reads s < k" "se_millis env k - se_millis env (sn_reads s) \<ge> word_of_nat timeout"
    using clock_expires [OF assms(1,2)] by blast
  with assms(3) wait_loop_returns [of "word_of_nat timeout" env k "se_millis env (sn_reads s)" s1 stop]
  show ?thesis by (auto simp: start_timer_def)
qed

lemma wait_loop_result:
  assumes "wait_loop env stop start timeout s = Some (r, s')"
  shows "r \<longrightarrow> stop s' = Some True \<and> \<not> sn_restarted s'"
proof -
  have "fst (r, s') \<longrightarrow> stop (snd (r, s')) = Some True \<and> \<not> sn_restarted (snd (r, s'))"
    by (rule wait_loop.raw_induct [OF _ assms]) (auto simp: Let_def split: if_splits option.splits)
  then show ?thesis by simp
qed

section \<open>What the node sends, and its state\<close>

text \<open>The notifications that are not acknowledgements.\<close>

definition data_sent :: "'nvs sensor \<Rightarrow> byte list list" where
  "data_sent s = filter (\<lambda>m. hd m \<noteq> msg_code CMD_ACK) (sn_notifies s)"

lemma hd_ack [simp]: "hd (bytes_CmdAck ca) = ca_type ca" "hd (bytes_NodeInfo ni) = ni_type ni"
  "hd (bytes_SensorData sd) = sd_type sd"
  by (simp_all add: bytes_defs)

lemma data_sent_simps [simp]:
  "data_sent (send_ack i s) = data_sent s"
  "data_sent (s\<lparr>sn_state := st\<rparr>) = data_sent s" "data_sent (s\<lparr>sn_hubReady := r\<rparr>) = data_sent s"
  "data_sent (s\<lparr>sn_lit := l\<rparr>) = data_sent s" "data_sent (s\<lparr>sn_restarted := rs\<rparr>) = data_sent s"
  "data_sent (s\<lparr>sn_deviceConnected := d\<rparr>) = data_sent s" "data_sent (s\<lparr>sn_hubConnHandle := c\<rparr>) = data_sent s"
  "data_sent (s\<lparr>sn_delays := n\<rparr>) = data_sent s" "data_sent (s\<lparr>sn_reads := n\<rparr>) = data_sent s"
  "data_sent (s\<lparr>sn_sleep := x\<rparr>) = data_sent s" "data_sent (s\<lparr>sn_dataChar := y\<rparr>) = data_sent s"
  by (simp_all add: data_sent_def send_ack_def notify_def)

lemma send_ack_frame [simp]:
  "sn_hubReady (send_ack i s) = sn_hubReady s" "sn_dataChar (send_ack i s) = sn_dataChar s"
  "sn_state (send_ack i s) = sn_state s" "sn_deviceConnected (send_ack i s) = sn_deviceConnected s"
  "sn_restarted (send_ack i s) = sn_restarted s"
  by (simp_all add: send_ack_def notify_def)

lemma onWrite_cases:
  assumes "P s" and "P (s\<lparr>sn_hubReady := True\<rparr>)"
    and "\<And>cmd. read_SetInterval val = Some cmd \<Longrightarrow>
      P (s\<lparr>sn_state := ns_setSleepInterval api (sn_state s) (si_interval_sec cmd)\<rparr>)
      \<and> P (send_ack (si_cmd_id cmd)
             (s\<lparr>sn_state := ns_setSleepInterval api (sn_state s) (si_interval_sec cmd)\<rparr>))"
    and "\<And>cmd. read_ResetNode val = Some cmd \<Longrightarrow>
      P (s\<lparr>sn_state := ns_end (if rn_level cmd \<ge> 1 then ns_clear api (sn_state s) else sn_state s),
           sn_restarted := True\<rparr>)"
    and "\<And>cmd l. read_TestCmd val = Some cmd \<Longrightarrow> l = sn_lit s \<or> \<not> l \<Longrightarrow>
      P (s\<lparr>sn_lit := l\<rparr>) \<and> P (send_ack (tc_cmd_id cmd) (s\<lparr>sn_lit := l\<rparr>))"
  shows "P (onWrite api val s)"
proof (cases val)
  case Nil
  with assms(1) show ?thesis by (simp add: onWrite_def)
next
  case (Cons t rest)
  show ?thesis
  proof (cases "msg_of_byte t")
    case None
    with Cons assms(1) show ?thesis by (simp add: onWrite_def)
  next
    case (Some m)
    have lit: "s\<lparr>sn_lit := sn_lit s\<rparr> = s" by simp
    show ?thesis
      using Cons Some assms(1,2) assms(3,4) assms(5) [of _ False] assms(5) [of _ "sn_lit s", unfolded lit]
      by (cases m) (simp_all add: onWrite_def Let_def split: option.splits)
  qed
qed

lemma sensor_callback_keeps:
  "data_sent (sensor_callback api e s) = data_sent s"
  "sn_hubReady s \<Longrightarrow> sn_hubReady (sensor_callback api e s)"
  "ns_ok (sn_state s) \<Longrightarrow> ns_ok (sn_state (sensor_callback api e s))"
proof -
  have "data_sent (onWrite api val s) = data_sent s" for val
    by (rule onWrite_cases) simp_all
  then show "data_sent (sensor_callback api e s) = data_sent s"
    by (cases e) (simp_all add: onHubConnect_def onHubDisconnect_def)
  have "sn_hubReady (onWrite api val s)" if "sn_hubReady s" for val
    by (rule onWrite_cases) (simp_all add: that)
  then show "sn_hubReady (sensor_callback api e s)" if "sn_hubReady s"
    using that by (cases e) (simp_all add: onHubConnect_def onHubDisconnect_def)
  have "ns_ok (sn_state (onWrite api val s))" if "ns_ok (sn_state s)" for val
    by (rule onWrite_cases [of "\<lambda>s. ns_ok (sn_state s)"]) (auto simp: that)
  then show "ns_ok (sn_state (sensor_callback api e s))" if "ns_ok (sn_state s)"
    using that by (cases e) (simp_all add: onHubConnect_def onHubDisconnect_def)
qed

text \<open>The invariant of the main task: \<open>ds\<close> has been sent, and only after HUB_READY.\<close>

definition sensor_ok :: "byte list list \<Rightarrow> bool \<Rightarrow> 'nvs sensor \<Rightarrow> bool" where
  "sensor_ok ds ready s \<longleftrightarrow> data_sent s = ds \<and> (ready \<longrightarrow> sn_hubReady s) \<and> ns_ok (sn_state s)"

lemma sensor_ok_fields [simp]:
  "sensor_ok ds ready (s\<lparr>sn_delays := n\<rparr>) = sensor_ok ds ready s"
  "sensor_ok ds ready (s\<lparr>sn_reads := n\<rparr>) = sensor_ok ds ready s"
  "sensor_ok ds ready (s\<lparr>sn_sleep := x\<rparr>) = sensor_ok ds ready s"
  by (simp_all add: sensor_ok_def)

lemma sensor_delay_ok: "sensor_ok ds ready s \<Longrightarrow> sensor_ok ds ready (sensor_delay env s)"
  by (rule sensor_delay_keeps) (simp_all, simp add: sensor_ok_def sensor_callback_keeps)

lemma wait_loop_ok:
  assumes "wait_loop env stop start timeout s = Some (r, s')" and "sensor_ok ds ready s"
  shows "sensor_ok ds ready s'"
  by (rule wait_loop_keeps [OF assms(1), of "sensor_ok ds ready"])
    (simp_all add: assms(2) sensor_delay_ok)

definition node_info_msg :: "byte list" where
  "node_info_msg = bytes_NodeInfo \<lparr>ni_type = msg_code NODE_INFO, ni_node_type = NT_SENSOR,
     ni_battery_mv = 3100, ni_fw_major = 0, ni_fw_minor = 1\<rparr>"

lemma send_node_info_ok:
  "sensor_ok [] True s \<Longrightarrow> sensor_ok [] True (alive ble_send_node_info s)
     \<or> sensor_ok [node_info_msg] True (alive ble_send_node_info s)"
  by (auto simp: alive_def ble_send_node_info_def sensor_ok_def data_sent_def notify_def node_info_msg_def)

lemma send_sensor_data_ok:
  "sensor_ok ds True s \<Longrightarrow> sensor_ok ds True (alive (ble_send_sensor_data env) s)
     \<or> sensor_ok (ds @ [bytes_SensorData (sensor_data env)]) True (alive (ble_send_sensor_data env) s)"
  by (auto simp: alive_def ble_send_sensor_data_def sensor_ok_def data_sent_def notify_def sensor_data_def)

lemma alive_delay_ok: "sensor_ok ds ready s \<Longrightarrow> sensor_ok ds ready (alive (sensor_delay env) s)"
  by (simp add: alive_def sensor_delay_ok)

definition sent_data :: "'nvs sensor_env \<Rightarrow> byte list list set" where
  "sent_data env = {[], [node_info_msg], [bytes_SensorData (sensor_data env)],
     [node_info_msg, bytes_SensorData (sensor_data env)]}"

lemma send_all_ok:
  assumes "sensor_ok [] True s"
  shows "\<exists>ds \<in> sent_data env. sensor_ok ds True (send_all env s)"
proof -
  obtain ds where ds: "ds = [] \<or> ds = [node_info_msg]" "sensor_ok ds True (alive ble_send_node_info s)"
    using send_node_info_ok [OF assms] by blast
  let ?s1 = "alive (sensor_delay env) (alive ble_send_node_info s)"
  have "sensor_ok ds True ?s1"
    using ds(2) by (rule alive_delay_ok)
  then obtain ds' where ds': "ds' = ds \<or> ds' = ds @ [bytes_SensorData (sensor_data env)]"
      "sensor_ok ds' True (alive (ble_send_sensor_data env) ?s1)"
    using send_sensor_data_ok by blast
  have "sensor_ok ds' True (send_all env s)"
    unfolding send_all_def using ds'(2) by (rule alive_delay_ok)
  moreover have "ds' \<in> sent_data env"
    using ds(1) ds'(1) by (auto simp: sent_data_def)
  ultimately show ?thesis by blast
qed

lemma ns_end_ok: "sensor_ok ds ready s \<Longrightarrow> sensor_ok ds ready (s\<lparr>sn_state := ns_end (sn_state s)\<rparr>)"
  by (auto simp: sensor_ok_def)

lemma ble_disconnect_ok:
  assumes "ble_disconnect env s = Some s'" and "sensor_ok ds ready s"
  shows "sensor_ok ds ready s'"
proof (cases "sn_deviceConnected s")
  case False
  with assms show ?thesis by (auto simp: ble_disconnect_def ns_end_ok split: if_splits)
next
  case True
  then obtain r s1 where
    w: "wait_loop env (\<lambda>s. if \<not> sn_deviceConnected s then Some True else None)
          (se_millis env (sn_reads s)) 500 (s\<lparr>sn_reads := Suc (sn_reads s)\<rparr>) = Some (r, s1)"
    and s': "s' = (if sn_restarted s1 then s1 else s1\<lparr>sn_state := ns_end (sn_state s1)\<rparr>)"
    using assms(1) by (auto simp: ble_disconnect_def start_timer_def bind_eq_Some_conv)
  have "sensor_ok ds ready s1"
    using wait_loop_ok [OF w] assms(2) by simp
  then show ?thesis by (simp add: s' ns_end_ok)
qed

lemma deep_sleep_ok:
  assumes "sensor_ok ds ready s"
  shows "sensor_ok ds ready (alive deep_sleep s)"
    and "sn_restarted (alive deep_sleep s) \<or>
      (\<exists>i. sn_sleep (alive deep_sleep s) = Some (i * 1000000) \<and> 10 \<le> i \<and> i \<le> 3600)"
proof -
  show "sensor_ok ds ready (alive deep_sleep s)"
    using assms by (simp add: alive_def deep_sleep_def)
  have "10 \<le> unat (ns_sleepInterval (sn_state s))" "unat (ns_sleepInterval (sn_state s)) \<le> 3600"
    using assms by (simp_all add: sensor_ok_def ns_ok_def word_le_nat_alt)
  then show "sn_restarted (alive deep_sleep s) \<or>
      (\<exists>i. sn_sleep (alive deep_sleep s) = Some (i * 1000000) \<and> 10 \<le> i \<and> i \<le> 3600)"
    by (auto simp: alive_def deep_sleep_def ble_get_sleep_interval_def)
qed

lemma talk_to_hub_ok:
  assumes "talk_to_hub env s = Some s'" and "sensor_ok [] False s"
  shows "\<exists>ds \<in> sent_data env. sensor_ok ds (ds \<noteq> []) s'"
proof -
  obtain ready s1 where w: "ble_wait_hub_ready env 3000 s = Some (ready, s1)"
    and s': "s' = (if ready then send_all env s1 else s1)"
    using assms(1) by (cases "ble_wait_hub_ready env 3000 s") (auto simp: talk_to_hub_def)
  then have loop: "wait_loop env (\<lambda>s. if sn_hubReady s then Some True
        else if \<not> sn_deviceConnected s then Some False else None)
      (se_millis env (sn_reads s)) 3000 (s\<lparr>sn_reads := Suc (sn_reads s)\<rparr>) = Some (ready, s1)"
    by (simp add: ble_wait_hub_ready_def start_timer_def)
  have ok: "sensor_ok [] False s1"
    using wait_loop_ok [OF loop] assms(2) by simp
  show ?thesis
  proof (cases ready)
    case False
    with ok s' show ?thesis by (auto simp: sent_data_def)
  next
    case True
    then have "sn_hubReady s1"
      using wait_loop_result [OF loop] by (auto split: if_splits)
    with ok have "sensor_ok [] True s1" by (simp add: sensor_ok_def)
    from send_all_ok [OF this] True s' show ?thesis by (auto simp: sensor_ok_def)
  qed
qed

lemma sensor_setup_result:
  assumes "sensor_setup env (sensor_boot nvs) = Some s'"
  shows "(\<exists>ds \<in> sent_data env. sensor_ok ds (ds \<noteq> []) s')
    \<and> (sn_restarted s' \<or> (\<exists>i. sn_sleep s' = Some (i * 1000000) \<and> 10 \<le> i \<and> i \<le> 3600))"
proof -
  let ?s1 = "ble_peripheral_init env (sensor_boot nvs)"
  obtain connected s2 where wait: "ble_wait_connect env 5000 ?s1 = Some (connected, s2)"
    using assms by (cases "ble_wait_connect env 5000 ?s1") (auto simp: sensor_setup_def)
  obtain s3 where mid: "(if connected then talk_to_hub env s2 else Some s2) = Some s3"
    using assms wait by (cases "if connected then talk_to_hub env s2 else Some s2") (simp_all add: sensor_setup_def)
  obtain s4 where disc: "(if sn_restarted s3 then Some s3 else ble_disconnect env s3) = Some s4"
    using assms wait mid by (cases "if sn_restarted s3 then Some s3 else ble_disconnect env s3")
      (simp_all add: sensor_setup_def)
  have s': "s' = alive deep_sleep s4"
    using assms wait mid disc by (simp add: sensor_setup_def)
  have "sensor_ok [] False ?s1"
    by (auto simp: sensor_ok_def ble_peripheral_init_def sensor_boot_def data_sent_def)
  with wait have s2: "sensor_ok [] False s2"
    by (auto simp: ble_wait_connect_def start_timer_def intro: wait_loop_ok)
  have "\<exists>ds \<in> sent_data env. sensor_ok ds (ds \<noteq> []) s3"
    using mid s2 talk_to_hub_ok [of env s2 s3]
    by (cases connected) (auto simp: sent_data_def)
  then obtain ds where ds: "ds \<in> sent_data env" "sensor_ok ds (ds \<noteq> []) s3" by blast
  then have "sensor_ok ds (ds \<noteq> []) s4"
    using disc ble_disconnect_ok by (auto split: if_splits)
  from deep_sleep_ok [OF this] ds(1) s' show ?thesis by blast
qed

lemma sensor_setup_total:
  assumes "clock_law env T D" and "5000 + D < 2 ^ 32"
  shows "\<exists>s'. sensor_setup env s = Some s'"
proof -
  have wait: "\<exists>r s'. wait_loop env stop (se_millis env (sn_reads s)) (word_of_nat t)
      (s\<lparr>sn_reads := Suc (sn_reads s)\<rparr>) = Some (r, s')" if "t \<le> 5000" for t stop s
    using timer_returns [OF assms(1), of t s _ _ stop] that assms(2) by (simp add: start_timer_def)
  note w5 = wait [of 5000, simplified] and w3 = wait [of 3000, simplified] and w05 = wait [of 500, simplified]
  have connect: "\<exists>r s'. ble_wait_connect env 5000 s = Some (r, s')" for s
    using w5 by (simp add: ble_wait_connect_def start_timer_def)
  have ready: "\<exists>r s'. ble_wait_hub_ready env 3000 s = Some (r, s')" for s
    using w3 by (simp add: ble_wait_hub_ready_def start_timer_def)
  have disc: "\<exists>s'. ble_disconnect env s = Some s'" for s
    using w05 [of "\<lambda>s. if \<not> sn_deviceConnected s then Some True else None" s]
    by (auto simp: ble_disconnect_def start_timer_def)
  obtain c s2 where c: "ble_wait_connect env 5000 (ble_peripheral_init env s) = Some (c, s2)"
    using connect by blast
  have "\<exists>s3. (if c then talk_to_hub env s2 else Some s2) = Some s3"
    using ready [of s2] by (auto simp: talk_to_hub_def)
  then obtain s3 where s3: "(if c then talk_to_hub env s2 else Some s2) = Some s3" ..
  obtain s4 where s4: "(if sn_restarted s3 then Some s3 else ble_disconnect env s3) = Some s4"
    using disc [of s3] by (cases "sn_restarted s3") auto
  show ?thesis
    using c s3 s4 by (simp add: sensor_setup_def)
qed

section \<open>Properties\<close>

text \<open>
  C13: the sensor node never hangs: with a clock that advances, however it wraps and whatever
  callbacks come, \<open>setup\<close> ends, and the node either restarts on command or sleeps for 10 to 3600
  seconds.
\<close>

theorem sensor_always_sleeps:
  assumes "clock_law env T D" and "5000 + D < 2 ^ 32"
  shows "\<exists>s'. sensor_setup env (sensor_boot nvs) = Some s'
    \<and> (sn_restarted s' \<or> (\<exists>i. sn_sleep s' = Some (i * 1000000) \<and> 10 \<le> i \<and> i \<le> 3600))"
proof -
  obtain s' where "sensor_setup env (sensor_boot nvs) = Some s'"
    using sensor_setup_total [OF assms] by blast
  with sensor_setup_result [OF this] show ?thesis by blast
qed

definition example_sensor_env :: "(string \<rightharpoonup> u16) sensor_env" where
  "example_sensor_env = \<lparr>se_prefs = map_prefs, se_millis = (\<lambda>n. word_of_nat (4294967000 + 10 * n)),
     se_events = (\<lambda>n. if n = 3 then [HubConnected 1] else if n = 5 then [ConfigWritten [0x10]] else []),
     se_temp = 0, se_humidity = 0, se_ldr = 100, se_bat = 0\<rparr>"

lemma example_clock: "clock_law example_sensor_env (\<lambda>n. 4294967000 + 10 * n) 10"
proof -
  have "\<exists>k. t \<le> 4294967000 + 10 * k" for t :: nat by (rule exI [of _ t]) simp
  then show ?thesis by (auto simp: clock_law_def example_sensor_env_def)
qed

theorem sensor_always_sleeps_witness:
  "\<exists>s'. sensor_setup example_sensor_env (sensor_boot Map.empty) = Some s'
     \<and> (sn_restarted s' \<or> (\<exists>i. sn_sleep s' = Some (i * 1000000) \<and> 10 \<le> i \<and> i \<le> 3600))"
  by (rule sensor_always_sleeps [OF example_clock]) simp

text \<open>
  C23: node information and sensor data leave the node at most once each, in this order, and only
  after the hub has sent HUB_READY; all other notifications are acknowledgements.
\<close>

theorem data_only_after_hub_ready:
  assumes "sensor_setup env (sensor_boot nvs) = Some s'"
  shows "data_sent s' \<in> {[], [node_info_msg], [bytes_SensorData (sensor_data env)],
      [node_info_msg, bytes_SensorData (sensor_data env)]}
    \<and> (data_sent s' \<noteq> [] \<longrightarrow> sn_hubReady s')"
  using sensor_setup_result [OF assms] by (auto simp: sensor_ok_def sent_data_def)

theorem data_only_after_hub_ready_witness:
  "\<exists>s'. sensor_setup example_sensor_env (sensor_boot Map.empty) = Some s'
     \<and> (data_sent s' \<noteq> [] \<longrightarrow> sn_hubReady s')"
proof -
  obtain s' where s': "sensor_setup example_sensor_env (sensor_boot Map.empty) = Some s'"
    using sensor_setup_total [OF example_clock] by fastforce
  from data_only_after_hub_ready [OF s'] s' show ?thesis by blast
qed

lemma onWrite_set_interval:
  "onWrite api (bytes_SetInterval \<lparr>si_type = msg_code SET_INTERVAL, si_cmd_id = cid,
      si_interval_sec = v\<rparr> @ rest) s
    = (let s1 = s\<lparr>sn_state := ns_setSleepInterval api (sn_state s) v\<rparr>
       in if cid \<noteq> 0 \<and> sn_dataChar s1 \<and> sn_deviceConnected s1 then send_ack cid s1 else s1)"
  using read_bytes(5) [of "\<lparr>si_type = msg_code SET_INTERVAL, si_cmd_id = cid, si_interval_sec = v\<rparr>" rest]
  by (simp add: onWrite_def bytes_SetInterval_def Let_def)

text \<open>
  A SET_INTERVAL packet sets the interval to the clamped value and is acknowledged with its own
  command id, if that is not 0 and the hub is connected; extra bytes are ignored.
\<close>

theorem set_interval_effect:
  "let s' = onWrite api (bytes_SetInterval \<lparr>si_type = msg_code SET_INTERVAL, si_cmd_id = cid,
              si_interval_sec = v\<rparr> @ rest) s
   in ns_sleepInterval (sn_state s') = clamp_interval v
    \<and> sn_notifies s' = sn_notifies s
        @ (if cid \<noteq> 0 \<and> sn_dataChar s \<and> sn_deviceConnected s
           then [bytes_CmdAck \<lparr>ca_type = msg_code CMD_ACK, ca_cmd_id = cid, ca_success = 1\<rparr>] else [])
    \<and> sn_restarted s' = sn_restarted s \<and> sn_hubReady s' = sn_hubReady s"
  unfolding onWrite_set_interval by (simp add: Let_def send_ack_def notify_def)

text \<open>
  C31: a RESET_NODE packet restarts the node without any acknowledgement.  Level 0 leaves the flash as it was;
  every level from 1 on clears the whole store, so that the next boot starts with the default of 60 seconds:
  the code makes no difference between level 1 (by \<open>protocol.h\<close>, only the pairing and the id are deleted) and
  level 2 (factory reset).
\<close>

theorem reset_restarts_silently:
  assumes "prefs_laws api" and "ns_opened (sn_state s)"
  shows "let s' = onWrite api (bytes_ResetNode \<lparr>rn_type = msg_code RESET_NODE, rn_cmd_id = cid,
               rn_level = level\<rparr> @ rest) s;
             boot = ns_begin api (ns_boot (ns_prefs (sn_state s')))
    in sn_restarted s' \<and> sn_notifies s' = sn_notifies s
     \<and> ns_prefs (sn_state s') = (if level \<ge> 1 then clearAll api (ns_prefs (sn_state s)) else ns_prefs (sn_state s))
     \<and> (if level \<ge> 1 then ns_sleepInterval boot = 60 else boot = ns_begin api (ns_boot (ns_prefs (sn_state s))))"
proof -
  have "onWrite api (bytes_ResetNode \<lparr>rn_type = msg_code RESET_NODE, rn_cmd_id = cid,
      rn_level = level\<rparr> @ rest) s
    = s\<lparr>sn_state := ns_end (if level \<ge> 1 then ns_clear api (sn_state s) else sn_state s), sn_restarted := True\<rparr>"
    using read_bytes(6) [of "\<lparr>rn_type = msg_code RESET_NODE, rn_cmd_id = cid, rn_level = level\<rparr>" rest]
    by (simp add: onWrite_def bytes_ResetNode_def)
  with assms show ?thesis
    by (simp add: Let_def ns_end_def ns_clear_def ns_begin_def ns_boot_def prefs_laws_def
        MIN_INTERVAL_def MAX_INTERVAL_def DEFAULT_INTERVAL_def)
qed

theorem reset_restarts_silently_witness:
  "let s = (sensor_boot Map.empty)\<lparr>sn_state := ns_setSleepInterval map_prefs (ns_begin map_prefs (ns_boot Map.empty)) 900\<rparr>;
       s' = onWrite map_prefs [0x13, 5, 0, 1] s
   in sn_restarted s' \<and> sn_notifies s' = [] \<and> ns_prefs (sn_state s') = Map.empty
      \<and> ns_sleepInterval (ns_begin map_prefs (ns_boot (ns_prefs (sn_state s')))) = 60"
proof -
  let ?s = "(sensor_boot Map.empty)\<lparr>sn_state := ns_setSleepInterval map_prefs (ns_begin map_prefs (ns_boot Map.empty)) 900\<rparr>"
  have "ns_opened (sn_state ?s)"
    by (simp add: ns_begin_def Let_def)
  moreover have "clearAll map_prefs p = Map.empty" for p by (simp add: map_prefs_def)
  ultimately show ?thesis
    using reset_restarts_silently [OF map_prefs_laws, of ?s 5 1 "[]"]
    by (simp add: Let_def bytes_ResetNode_def le16_def sensor_boot_def)
      (simp add: ns_begin_def ns_boot_def map_prefs_def DEFAULT_INTERVAL_def MIN_INTERVAL_def MAX_INTERVAL_def Let_def)
qed

text \<open>
  A write that is empty, of an unknown type, of a type the node does not handle, or too short
  for its type changes nothing at all.
\<close>

theorem bad_write_ignored:
  assumes "case val of [] \<Rightarrow> True | t # _ \<Rightarrow>
      (case msg_of_byte t of
         Some HUB_READY \<Rightarrow> False
       | Some SET_INTERVAL \<Rightarrow> length val < 5
       | Some RESET_NODE \<Rightarrow> length val < 4
       | Some TEST_CMD \<Rightarrow> length val < 4
       | _ \<Rightarrow> True)"
  shows "onWrite api val s = s"
proof (cases val)
  case Nil
  then show ?thesis by (simp add: onWrite_def)
next
  case (Cons t rest)
  have none: "length val < 5 \<Longrightarrow> read_SetInterval val = None" "length val < 4 \<Longrightarrow> read_ResetNode val = None"
    "length val < 4 \<Longrightarrow> read_TestCmd val = None"
    using read_defined(4-6) [of val] by auto
  show ?thesis
  proof (cases "msg_of_byte t")
    case None
    with Cons show ?thesis by (simp add: onWrite_def)
  next
    case (Some m)
    show ?thesis
      using assms none Some Cons by (cases m) (simp_all add: onWrite_def)
  qed
qed

theorem bad_write_ignored_witness:
  "onWrite map_prefs [0x12, 1, 0] (sensor_boot Map.empty) = sensor_boot Map.empty"
  by (rule bad_write_ignored) simp

end
