(* ===== verification/Node_Steps.thy ===== *)
theory Node_Steps
  imports Sensor_Node
begin

text \<open>
  The sensor node as a transition system, at the grain of its callbacks and of the steps of its main
  task, over any number of wake cycles and power losses.  \<open>W\<close> is the set of packets that may be written to
  its configuration characteristic.  Every run of \<open>setup\<close> is a sequence of these steps.
\<close>

section \<open>Steps\<close>

inductive node_step ::
  "'nvs prefs_api \<Rightarrow> byte list set \<Rightarrow> 'nvs sensor \<Rightarrow> 'nvs sensor \<Rightarrow> bool" for api W where
  connected: "node_step api W s (onHubConnect c s)"
| disconnected: "node_step api W s (onHubDisconnect s)"
| written: "val \<in> W \<Longrightarrow> node_step api W s (onWrite api val s)"
| init: "se_prefs env = api \<Longrightarrow> node_step api W s (ble_peripheral_init env s)"
| counted: "node_step api W s (s\<lparr>sn_reads := n, sn_delays := d\<rparr>)"
| info: "node_step api W s (ble_send_node_info s)"
| data: "se_prefs env = api \<Longrightarrow> node_step api W s (ble_send_sensor_data env s)"
| closed: "node_step api W s (s\<lparr>sn_state := ns_end (sn_state s)\<rparr>)"
| sleep: "node_step api W s (deep_sleep s)"
| wake: "node_step api W s (sensor_boot (ns_prefs (sn_state s)))"

abbreviation node_steps where "node_steps api W \<equiv> rtranclp (node_step api W)"

inductive_cases node_stepE: "node_step api W s s'"

definition env_writes :: "'nvs sensor_env \<Rightarrow> byte list set" where
  "env_writes env = {val. \<exists>n. ConfigWritten val \<in> set (se_events env n)}"

lemma node_stepsI: "node_steps api W s t \<Longrightarrow> node_step api W t u \<Longrightarrow> node_steps api W s u"
  by (rule rtranclp.rtrancl_into_rtrancl)

section \<open>A wake cycle is a sequence of steps\<close>

lemma steps_callback:
  assumes "node_steps (se_prefs env) W s0 s" and "e \<in> set (se_events env n)" and "env_writes env \<subseteq> W"
  shows "node_steps (se_prefs env) W s0 (sensor_callback (se_prefs env) e s)"
  using assms by (cases e) (auto simp: env_writes_def intro: node_stepsI node_step.intros)

lemma steps_delay:
  assumes "node_steps (se_prefs env) W s0 s" and "env_writes env \<subseteq> W"
  shows "node_steps (se_prefs env) W s0 (sensor_delay env s)"
proof -
  have all: "node_steps (se_prefs env) W s0
      (foldl (\<lambda>s e. if sn_restarted s then s else sensor_callback (se_prefs env) e s) t es)"
    if "set es \<subseteq> set (se_events env n)" "node_steps (se_prefs env) W s0 t" for es t n
    using that
  proof (induction es arbitrary: t)
    case (Cons e es)
    have "node_steps (se_prefs env) W s0 (if sn_restarted t then t else sensor_callback (se_prefs env) e t)"
      using Cons.prems steps_callback [OF Cons.prems(2), of e n] assms(2) by simp
    with Cons.IH Cons.prems(1) show ?case by simp
  qed simp
  have "node_steps (se_prefs env) W s0 (s\<lparr>sn_delays := Suc (sn_delays s)\<rparr>)"
    using node_stepsI [OF assms(1) node_step.counted, of "Suc (sn_delays s)" "sn_reads s"] by simp
  then show ?thesis unfolding sensor_delay_def by (rule all [OF subset_refl])
qed

lemma steps_wait:
  assumes "wait_loop env stop start timeout s = Some (r, s')"
    and "node_steps (se_prefs env) W s0 s" and "env_writes env \<subseteq> W"
  shows "node_steps (se_prefs env) W s0 s'"
proof (rule wait_loop_keeps [OF assms(1), of "node_steps (se_prefs env) W s0"])
  show "node_steps (se_prefs env) W s0 (sensor_delay env t)" if "node_steps (se_prefs env) W s0 t" for t
    using that assms(3) by (rule steps_delay)
  show "node_steps (se_prefs env) W s0 (t\<lparr>sn_reads := n\<rparr>)" if "node_steps (se_prefs env) W s0 t" for t n
    using node_stepsI [OF that node_step.counted, of "sn_delays t" n] by simp
qed (rule assms(2))

lemma steps_timed:
  assumes "wait_loop env stop (fst (start_timer env s)) timeout (snd (start_timer env s)) = Some (r, s')"
    and "node_steps (se_prefs env) W s0 s" and "env_writes env \<subseteq> W"
  shows "node_steps (se_prefs env) W s0 s'"
proof (rule steps_wait [OF assms(1) _ assms(3)])
  show "node_steps (se_prefs env) W s0 (snd (start_timer env s))"
    using node_stepsI [OF assms(2) node_step.counted, of "sn_delays s" "Suc (sn_reads s)"]
    by (simp add: start_timer_def)
qed

lemma steps_alive:
  "node_steps api W s0 s \<Longrightarrow> (\<And>t. node_steps api W s0 t \<Longrightarrow> node_steps api W s0 (f t))
   \<Longrightarrow> node_steps api W s0 (alive f s)"
  by (simp add: alive_def)

lemma steps_send_all:
  assumes "node_steps (se_prefs env) W s0 s" and "env_writes env \<subseteq> W"
  shows "node_steps (se_prefs env) W s0 (send_all env s)"
  unfolding send_all_def
  by (intro steps_alive assms) (auto intro: steps_delay [OF _ assms(2)] node_stepsI node_step.intros)

lemma setup_steps:
  assumes "sensor_setup env s = Some s'" and "env_writes env \<subseteq> W"
  shows "node_steps (se_prefs env) W s s'"
proof -
  let ?R = "node_steps (se_prefs env) W s"
  obtain connected s2 where wait: "ble_wait_connect env 5000 (ble_peripheral_init env s) = Some (connected, s2)"
    using assms by (cases "ble_wait_connect env 5000 (ble_peripheral_init env s)") (auto simp: sensor_setup_def)
  have "?R (ble_peripheral_init env s)" by (auto intro: node_step.init)
  then have s2: "?R s2"
    using wait steps_timed [of env _ "ble_peripheral_init env s" 5000 connected s2] assms(2)
    by (simp add: ble_wait_connect_def split_beta)
  obtain s3 where mid: "(if connected then talk_to_hub env s2 else Some s2) = Some s3"
    using assms wait by (cases "if connected then talk_to_hub env s2 else Some s2") (simp_all add: sensor_setup_def)
  have s3: "?R s3"
  proof (cases connected)
    case True
    with mid obtain ready s1 where "ble_wait_hub_ready env 3000 s2 = Some (ready, s1)"
      and s3: "s3 = (if ready then send_all env s1 else s1)"
      by (cases "ble_wait_hub_ready env 3000 s2") (auto simp: talk_to_hub_def)
    then have "?R s1"
      using steps_timed [of env _ s2 3000 ready s1, OF _ s2 assms(2)]
      by (simp add: ble_wait_hub_ready_def split_beta)
    with s3 steps_send_all [OF _ assms(2)] show ?thesis by simp
  qed (use mid s2 in simp)
  obtain s4 where disc: "(if sn_restarted s3 then Some s3 else ble_disconnect env s3) = Some s4"
    using assms wait mid by (cases "if sn_restarted s3 then Some s3 else ble_disconnect env s3")
      (simp_all add: sensor_setup_def)
  have closed: "?R (if sn_restarted t then t else t\<lparr>sn_state := ns_end (sn_state t)\<rparr>)" if "?R t" for t
    using that by (auto intro: node_stepsI node_step.closed)
  have "?R s4"
  proof (cases "sn_restarted s3 \<or> \<not> sn_deviceConnected s3")
    case True
    with disc s3 closed [OF s3] show ?thesis by (auto simp: ble_disconnect_def split: if_splits)
  next
    case False
    with disc obtain r t where "wait_loop env (\<lambda>s. if \<not> sn_deviceConnected s then Some True else None)
          (fst (start_timer env s3)) 500 (snd (start_timer env s3)) = Some (r, t)"
      and s4: "s4 = (if sn_restarted t then t else t\<lparr>sn_state := ns_end (sn_state t)\<rparr>)"
      by (auto simp: ble_disconnect_def split_beta bind_eq_Some_conv)
    from steps_timed [OF this(1) s3 assms(2)] closed s4 show ?thesis by simp
  qed
  moreover have "s' = alive deep_sleep s4"
    using assms(1) wait mid disc by (simp add: sensor_setup_def)
  ultimately show ?thesis by (auto intro: steps_alive node_stepsI node_step.sleep)
qed

section \<open>What a node says\<close>

text \<open>The packets that the node answers with an acknowledgement, with their command id.\<close>

definition asks_for_ack :: "byte list \<Rightarrow> u16 \<Rightarrow> bool" where
  "asks_for_ack val i \<longleftrightarrow>
     (case val of [] \<Rightarrow> False
      | t # _ \<Rightarrow> (case msg_of_byte t of
           Some SET_INTERVAL \<Rightarrow> map_option si_cmd_id (read_SetInterval val) = Some i
         | Some TEST_CMD \<Rightarrow> map_option tc_cmd_id (read_TestCmd val) = Some i
         | _ \<Rightarrow> False))"

definition ack_bytes :: "u16 \<Rightarrow> byte list" where
  "ack_bytes i = bytes_CmdAck \<lparr>ca_type = msg_code CMD_ACK, ca_cmd_id = i, ca_success = 1\<rparr>"

definition node_message :: "byte list set \<Rightarrow> byte list \<Rightarrow> bool" where
  "node_message W n \<longleftrightarrow> n = node_info_msg
     \<or> (\<exists>sd. sd_type sd = msg_code SENSOR_DATA \<and> n = bytes_SensorData sd)
     \<or> (\<exists>val \<in> W. \<exists>i. asks_for_ack val i \<and> n = ack_bytes i)"

lemma onWrite_notifies:
  "sn_notifies (onWrite api val s) = sn_notifies s \<or>
   (\<exists>i. asks_for_ack val i \<and> sn_notifies (onWrite api val s) = sn_notifies s @ [ack_bytes i])"
proof (cases val)
  case (Cons t rest)
  show ?thesis
  proof (cases "msg_of_byte t")
    case (Some m)
    with Cons show ?thesis
      by (cases m) (auto simp: onWrite_def asks_for_ack_def send_ack_def notify_def ack_bytes_def Let_def
          split: option.splits)
  qed (simp add: Cons onWrite_def)
qed (simp add: onWrite_def)

lemma node_step_says:
  assumes "node_step api W s s'" and "\<forall>n \<in> set (sn_notifies s). node_message W n"
  shows "\<forall>n \<in> set (sn_notifies s'). node_message W n"
  using assms(1)
proof cases
  case (written val)
  from onWrite_notifies [of api val s] show ?thesis
  proof (elim disjE exE conjE)
    fix i assume "asks_for_ack val i" "sn_notifies (onWrite api val s) = sn_notifies s @ [ack_bytes i]"
    moreover from this(1) written(2) have "node_message W (ack_bytes i)" by (auto simp: node_message_def)
    ultimately show ?thesis using assms(2) written(1) by simp
  qed (use assms(2) written(1) in simp)
next
  case info
  with assms(2) show ?thesis
    by (auto simp: ble_send_node_info_def notify_def node_message_def node_info_msg_def)
next
  case (data env)
  have "sd_type (sensor_data env) = msg_code SENSOR_DATA" by (simp add: sensor_data_def)
  then have "node_message W (bytes_SensorData (sensor_data env))" unfolding node_message_def by blast
  with data(1) assms(2) show ?thesis by (simp add: ble_send_sensor_data_def notify_def)
qed (use assms(2) in \<open>auto simp: onHubConnect_def onHubDisconnect_def ble_peripheral_init_def deep_sleep_def sensor_boot_def\<close>)

section \<open>Where the interval comes from\<close>

definition asks_for_interval :: "byte list \<Rightarrow> u16 \<Rightarrow> bool" where
  "asks_for_interval val v \<longleftrightarrow> val \<noteq> [] \<and> msg_of_byte (hd val) = Some SET_INTERVAL
     \<and> map_option si_interval_sec (read_SetInterval val) = Some v"

text \<open>An interval the node may have: the default, the one it started with, or one that it was sent.\<close>

definition known_intervals :: "u16 \<Rightarrow> byte list set \<Rightarrow> u16 set" where
  "known_intervals i0 W = {60, i0} \<union> {clamp_interval v | v val. val \<in> W \<and> asks_for_interval val v}"

definition stored_interval :: "'nvs prefs_api \<Rightarrow> 'nvs \<Rightarrow> u16" where
  "stored_interval api nvs = ns_sleepInterval (ns_begin api (ns_boot nvs))"

definition interval_ok :: "'nvs prefs_api \<Rightarrow> u16 set \<Rightarrow> 'nvs NodeState \<Rightarrow> bool" where
  "interval_ok api I st \<longleftrightarrow> ns_sleepInterval st \<in> I \<and> stored_interval api (ns_prefs st) \<in> I"

lemma stored_interval_put:
  "prefs_laws api \<Longrightarrow> stored_interval api (putUShort api nvs ''interval'' (clamp_interval v)) = clamp_interval v"
  "prefs_laws api \<Longrightarrow> stored_interval api (clearAll api nvs) = 60"
  using clamp_interval_range [THEN leD, of v]
  by (simp_all add: stored_interval_def prefs_laws_def ns_begin_def ns_boot_def DEFAULT_INTERVAL_def MIN_INTERVAL_def
      MAX_INTERVAL_def Let_def)

lemma ns_begin_stored: "ns_sleepInterval (ns_begin api st) = stored_interval api (ns_prefs st)"
  by (simp add: stored_interval_def ns_begin_def ns_boot_def Let_def)

lemma interval_ok_ops:
  assumes "prefs_laws api" and "interval_ok api I st"
  shows "interval_ok api I (ns_begin api st)" and "interval_ok api I (ns_end st)"
    and "60 \<in> I \<Longrightarrow> interval_ok api I (ns_clear api st)"
    and "clamp_interval v \<in> I \<Longrightarrow> interval_ok api I (ns_setSleepInterval api st v)"
    and "60 \<in> I \<Longrightarrow> interval_ok api I (ns_boot (ns_prefs st))"
  using assms stored_interval_put [OF assms(1)]
  by (simp_all add: interval_ok_def ns_begin_stored, simp_all add: ns_begin_def ns_end_def ns_clear_def ns_boot_def
      DEFAULT_INTERVAL_def Let_def)

lemma onWrite_interval:
  assumes "prefs_laws api" and "interval_ok api (known_intervals i0 W) (sn_state s)" and "val \<in> W"
  shows "interval_ok api (known_intervals i0 W) (sn_state (onWrite api val s))"
proof (cases val)
  case (Cons t rest)
  note ops = interval_ok_ops [OF assms(1,2)]
  show ?thesis
  proof (cases "msg_of_byte t")
    case (Some m)
    have set: "clamp_interval (si_interval_sec cmd) \<in> known_intervals i0 W"
      if "m = SET_INTERVAL" "read_SetInterval val = Some cmd" for cmd
    proof -
      have "asks_for_interval val (si_interval_sec cmd)"
        using that Some Cons by (simp add: asks_for_interval_def)
      with assms(3) show ?thesis unfolding known_intervals_def by blast
    qed
    have reset: "interval_ok api (known_intervals i0 W) (ns_end (ns_clear api (sn_state s)))"
      by (rule interval_ok_ops(2) [OF assms(1) ops(3)]) (simp add: known_intervals_def)
    show ?thesis
      using Cons Some assms(2) set reset ops(2,4)
      by (cases m) (auto simp: onWrite_def send_ack_def notify_def Let_def split: option.splits)
  qed (use assms(2) in \<open>simp add: Cons onWrite_def\<close>)
qed (use assms(2) in \<open>simp add: onWrite_def\<close>)

lemma node_step_interval:
  assumes "node_step api W s s'" and "prefs_laws api"
    and "interval_ok api (known_intervals i0 W) (sn_state s)"
  shows "interval_ok api (known_intervals i0 W) (sn_state s')"
  using assms(1)
proof cases
  case (written val)
  with onWrite_interval [OF assms(2,3)] show ?thesis by simp
next
  case wake
  with interval_ok_ops(5) [OF assms(2,3)] show ?thesis by (simp add: sensor_boot_def known_intervals_def)
next
  case (init env)
  with interval_ok_ops(1) [OF assms(2,3)] show ?thesis by (simp add: ble_peripheral_init_def)
next
  case closed
  with interval_ok_ops(2) [OF assms(2,3)] show ?thesis by simp
qed (use assms(3) in \<open>auto simp: onHubConnect_def onHubDisconnect_def ble_send_node_info_def
    ble_send_sensor_data_def notify_def deep_sleep_def\<close>)

end
