(* ===== verification/Network.thy ===== *)
theory Network
  imports Hub_Traffic Node_Steps
begin

text \<open>
  The hub together with its sensor nodes.  The radio is the most permissive one that invents nothing: what the
  hub has written may reach any node at any time, any number of times or never, and so may what a
  node has notified reach the hub; nodes wake up, sleep, restart and lose power at will.  The invariant
  traces everything in the hub's queues and in the nodes' flash back to where it comes from.
\<close>

section \<open>The system\<close>

record ('adr, 'nvs, 'p) network =
  nt_hub :: "('adr, 'nvs) hub_sys"
  nt_nodes :: "nat \<Rightarrow> 'p sensor"
  nt_air :: "byte list set"
  nt_cmds :: "MqttCommand list"

text \<open>
  \<open>nt_air\<close> holds all notifications so far, \<open>nt_cmds\<close> all commands that the hub has received so far.  The nodes act
  while the hub does: during one action of the hub they may receive whatever the hub has written by the
  end of it, and the callbacks in the action deliver what the nodes have sent by then.
\<close>

definition hub_wrote :: "'adr hub \<Rightarrow> byte list set" where
  "hub_wrote h = {pkt. \<exists>ch ok. (ch, pkt, ok) \<in> set (bl_writes (hb_ble h))}"

inductive nodes_run ::
  "'p prefs_api \<Rightarrow> byte list set \<Rightarrow> (nat \<Rightarrow> 'p sensor) \<Rightarrow> byte list set
   \<Rightarrow> (nat \<Rightarrow> 'p sensor) \<Rightarrow> byte list set \<Rightarrow> bool" for api W \<nu> N where
  idle: "nodes_run api W \<nu> N \<nu> N"
| step: "nodes_run api W \<nu> N \<nu>' N' \<Longrightarrow> node_step api W (\<nu>' i) s
    \<Longrightarrow> nodes_run api W \<nu> N (\<nu>'(i := s)) (N' \<union> set (sn_notifies s))"

fun from_air :: "byte list set \<Rightarrow> 'adr ble_event \<Rightarrow> bool" where
  "from_air N (Notified src data rssi) \<longleftrightarrow> data \<in> N"
| "from_air N _ \<longleftrightarrow> True"

definition only_from_air :: "byte list set \<Rightarrow> ('adr, 'j) hub_env \<Rightarrow> bool" where
  "only_from_air N env \<longleftrightarrow> (\<forall>n. \<forall>e \<in> set (be_events (he_ble env) n). from_air N e)"

inductive net_run ::
  "'j json_api \<Rightarrow> 'p prefs_api \<Rightarrow> 'nvs wifi_api \<Rightarrow> ('adr, 'nvs, 'p) network \<Rightarrow> ('adr, 'nvs, 'p) network \<Rightarrow> bool"
  for js papi api t0 where
  start: "net_run js papi api t0 t0"
| act: "net_run js papi api t0 t \<Longrightarrow> he_json env = js \<Longrightarrow> s' = hub_do env api a (nt_hub t)
    \<Longrightarrow> nodes_run papi (hub_wrote (hs_hub s')) (nt_nodes t) (nt_air t) \<nu>' N'
    \<Longrightarrow> only_from_air N' env \<Longrightarrow> (\<And>e. a = Callback e \<Longrightarrow> from_air N' e)
    \<Longrightarrow> net_run js papi api t0
          \<lparr>nt_hub = s', nt_nodes = \<nu>', nt_air = N', nt_cmds = nt_cmds t @ action_commands env a\<rparr>"

definition net_start :: "('adr, 'nvs) hub_sys \<Rightarrow> (nat \<Rightarrow> 'p) \<Rightarrow> ('adr, 'nvs, 'p) network" where
  "net_start s flash = \<lparr>nt_hub = s, nt_nodes = \<lambda>i. sensor_boot (flash i), nt_air = {}, nt_cmds = []\<rparr>"

section \<open>Where everything comes from\<close>

definition packets_for :: "'j json_api \<Rightarrow> MqttCommand list \<Rightarrow> byte list set" where
  "packets_for js cs = {ready_packet} \<union> {pkt. \<exists>c \<in> set cs. packet_of js c = Some pkt}"

definition ack_from :: "MqttCommand list \<Rightarrow> CmdAckReport \<Rightarrow> bool" where
  "ack_from cs a \<longleftrightarrow> ar_success a
     \<and> (\<exists>c \<in> set cs. mc_cmd_id c = ar_cmd_id a \<and> cstr (mc_type c) \<in> {''SET_INTERVAL'', ''TEST''})"

definition report_from :: "byte list set \<Rightarrow> SensorReport \<Rightarrow> bool" where
  "report_from N r \<longleftrightarrow>
     (\<exists>sd. bytes_SensorData sd \<in> N \<and> sr_temperature r = sd_temp sd \<and> sr_humidity r = sd_humidity sd
        \<and> sr_ldr r = sd_ldr sd \<and> sr_battery_mv r = sd_battery_mv sd)"

lemma packets_for_append: "packets_for js cs \<subseteq> packets_for js (cs @ ds)"
  by (auto simp: packets_for_def)

lemma packets_for_asks:
  assumes "val \<in> packets_for js cs" and "asks_for_ack val i"
  shows "\<exists>c \<in> set cs. mc_cmd_id c = i \<and> cstr (mc_type c) \<in> {''SET_INTERVAL'', ''TEST''}"
proof -
  obtain c where c: "c \<in> set cs" "packet_of js c = Some val"
    using assms by (auto simp: packets_for_def asks_for_ack_def ready_packet_def bytes_HubReady_def)
  from packet_of_reads [OF c(2)] assms(2) have "mc_cmd_id c = i \<and> cstr (mc_type c) \<in> {''SET_INTERVAL'', ''TEST''}"
    by (cases val) (auto simp: node_reads_def asks_for_ack_def Let_def split: if_splits)
  with c(1) show ?thesis by blast
qed

lemma packets_for_interval:
  assumes "val \<in> packets_for js cs" and "asks_for_interval val v"
  shows "\<exists>c \<in> set cs. cstr (mc_type c) = ''SET_INTERVAL''
    \<and> v = word_of_int (js_int js (snd (js_parse js (cstr (mc_payload c)))) ''interval_sec'' 60)"
proof -
  obtain c where c: "c \<in> set cs" "packet_of js c = Some val"
    using assms by (auto simp: packets_for_def asks_for_interval_def ready_packet_def bytes_HubReady_def)
  from packet_of_reads [OF c(2)] assms(2) have "cstr (mc_type c) = ''SET_INTERVAL''
      \<and> v = word_of_int (js_int js (snd (js_parse js (cstr (mc_payload c)))) ''interval_sec'' 60)"
    by (auto simp: node_reads_def asks_for_interval_def Let_def split: if_splits)
  with c(1) show ?thesis by blast
qed

text \<open>What a node message is when the hub reads it.\<close>

lemma node_message_ack:
  assumes "node_message W data" and "read_CmdAck data = Some ack" and "msg_of_byte (hd data) = Some CMD_ACK"
  shows "ca_success ack = 1 \<and> (\<exists>val \<in> W. asks_for_ack val (ca_cmd_id ack))"
proof -
  obtain val i where "val \<in> W" "asks_for_ack val i" "data = ack_bytes i"
    using assms by (auto simp: node_message_def node_info_msg_def bytes_NodeInfo_def bytes_SensorData_def)
  moreover from this(3) assms(2) have "ack = \<lparr>ca_type = msg_code CMD_ACK, ca_cmd_id = i, ca_success = 1\<rparr>"
    by (simp add: ack_bytes_def)
  ultimately show ?thesis by auto
qed

lemma node_message_data:
  assumes "node_message W data" and "read_SensorData data = Some sd" and "msg_of_byte (hd data) = Some SENSOR_DATA"
  shows "data = bytes_SensorData sd"
  using assms by (auto simp: node_message_def node_info_msg_def bytes_NodeInfo_def bytes_CmdAck_def ack_bytes_def)

section \<open>The invariant\<close>

definition nodes_ok ::
  "'p prefs_api \<Rightarrow> (nat \<Rightarrow> 'p) \<Rightarrow> byte list set \<Rightarrow> (nat \<Rightarrow> 'p sensor) \<Rightarrow> byte list set \<Rightarrow> bool" where
  "nodes_ok papi flash W \<nu> N \<longleftrightarrow> (\<forall>n \<in> N. node_message W n)
     \<and> (\<forall>i. (\<forall>n \<in> set (sn_notifies (\<nu> i)). node_message W n)
          \<and> interval_ok papi (known_intervals (stored_interval papi (flash i)) W) (sn_state (\<nu> i)))"

definition net_ok :: "'j json_api \<Rightarrow> 'p prefs_api \<Rightarrow> (nat \<Rightarrow> 'p) \<Rightarrow> ('adr, 'nvs, 'p) network \<Rightarrow> bool" where
  "net_ok js papi flash t \<longleftrightarrow>
     carries (\<lambda>c. c \<in> unstamp ` set (nt_cmds t)) (\<lambda>pkt. pkt \<in> packets_for js (nt_cmds t))
       (report_from (nt_air t)) (ack_from (nt_cmds t)) (hs_hub (nt_hub t))
     \<and> nodes_ok papi flash (packets_for js (nt_cmds t)) (nt_nodes t) (nt_air t)"

lemma node_step_mono: "node_step api W s s' \<Longrightarrow> W \<subseteq> W' \<Longrightarrow> node_step api W' s s'"
  by (erule node_step.cases) (auto intro: node_step.intros)

lemma nodes_ok_mono: "nodes_ok papi flash W \<nu> N \<Longrightarrow> W \<subseteq> W' \<Longrightarrow> nodes_ok papi flash W' \<nu> N"
proof -
  assume ok: "nodes_ok papi flash W \<nu> N" and W: "W \<subseteq> W'"
  have "node_message W n \<Longrightarrow> node_message W' n" for n
    using W unfolding node_message_def by blast
  moreover have "known_intervals i0 W \<subseteq> known_intervals i0 W'" for i0
    using W unfolding known_intervals_def by blast
  ultimately show ?thesis
    using ok unfolding nodes_ok_def interval_ok_def by blast
qed

lemma nodes_run_ok:
  assumes "nodes_run papi W \<nu> N \<nu>' N'" and "W \<subseteq> W'" and "prefs_laws papi" and "nodes_ok papi flash W' \<nu> N"
  shows "nodes_ok papi flash W' \<nu>' N' \<and> N \<subseteq> N'"
  using assms(1)
proof induction
  case idle
  with assms(4) show ?case by simp
next
  case (step \<nu>' N' i s)
  then have step': "node_step papi W' (\<nu>' i) s" using assms(2) by (auto intro: node_step_mono)
  from step.IH node_step_says [OF step'] node_step_interval [OF step' assms(3)] show ?case
    by (auto simp: nodes_ok_def)
qed

lemma content_from:
  fixes env :: "('adr, 'j) hub_env"
  assumes "nodes_ok papi flash (packets_for (he_json env) cs) \<nu> N" and "only_from_air N env"
  shows "hub_content env (from_air N) (\<lambda>c. c \<in> unstamp ` set cs)
    (\<lambda>pkt. pkt \<in> packets_for (he_json env) cs) (report_from N) (ack_from cs)"
proof
  fix e n assume "e \<in> set (be_events (he_ble env) n)"
  with assms(2) show "from_air N e" by (simp add: only_from_air_def)
next
  show "ready_packet \<in> packets_for (he_json env) cs" by (simp add: packets_for_def)
next
  fix c pkt assume "c \<in> unstamp ` set cs" "packet_of (he_json env) c = Some pkt"
  then show "pkt \<in> packets_for (he_json env) cs" by (auto simp: packets_for_def)
next
  fix src data rssi sd and b :: "'adr ble" and slot s
  assume "from_air N (Notified src data rssi :: 'adr ble_event)" "read_SensorData data = Some sd"
    "msg_of_byte (hd data) = Some SENSOR_DATA"
  moreover from this have "data = bytes_SensorData sd"
    using assms(1) by (auto simp: nodes_ok_def intro: node_message_data)
  ultimately show "report_from N (buildReport b slot sd s rssi)"
    by (auto simp: report_from_def buildReport_def)
next
  fix src data rssi ack s
  assume data: "from_air N (Notified src data rssi :: 'adr ble_event)" "read_CmdAck data = Some ack"
    "msg_of_byte (hd data) = Some CMD_ACK"
  then have "ca_success ack = 1 \<and> (\<exists>val \<in> packets_for (he_json env) cs. asks_for_ack val (ca_cmd_id ack))"
    using assms(1) by (intro node_message_ack [of _ data]) (auto simp: nodes_ok_def)
  then show "ack_from cs \<lparr>ar_node_id = strlcpy 18 s, ar_cmd_id = ca_cmd_id ack, ar_success = (ca_success ack \<noteq> 0)\<rparr>"
    using packets_for_asks by (auto simp: ack_from_def)
qed

text \<open>What the hub writes in an action does not depend on what the nodes say.\<close>

lemma content_any:
  "hub_content env (\<lambda>_. True) (\<lambda>c. c \<in> unstamp ` set cs) (\<lambda>pkt. pkt \<in> packets_for (he_json env) cs)
     (\<lambda>_. True) (\<lambda>_. True)"
  by unfold_locales (auto simp: packets_for_def)

lemma hub_wrote_packets:
  assumes "carries C (\<lambda>pkt. pkt \<in> packets_for js (nt_cmds t)) R A (hs_hub (nt_hub t))"
    and "\<And>c. C c \<Longrightarrow> c \<in> unstamp ` set (nt_cmds t)" and "he_json env = js"
    and "cs = nt_cmds t @ action_commands env a"
  shows "hub_wrote (hs_hub (hub_do env api a (nt_hub t))) \<subseteq> packets_for js cs"
proof -
  let ?P = "carries (\<lambda>c. c \<in> unstamp ` set cs) (\<lambda>pkt. pkt \<in> packets_for (he_json env) cs)
    (\<lambda>_. True) (\<lambda>_. True)"
  have keeper: "hub_keeper env (\<lambda>_. True) ?P (\<lambda>c. c \<in> set (action_commands env a))"
    using action_commands_fit by (intro hub_content.keeper [OF content_any]) (auto simp: assms(4))
  have "?P (hs_hub (nt_hub t))"
    using assms(2) by (intro carries_mono [OF assms(1)]) (auto simp: assms(3,4) packets_for_def)
  from hub_keeper.action [OF keeper this] have "?P (hs_hub (hub_do env api a (nt_hub t)))" by simp
  then show ?thesis
    using assms(3) by (auto simp: carries_def hub_wrote_def list_all_iff)
qed

lemma net_run_ok:
  assumes "net_run js papi api t0 t" and "prefs_laws papi" and "net_ok js papi flash t0"
  shows "net_ok js papi flash t"
  using assms(1)
proof induction
  case start
  then show ?case by (rule assms(3))
next
  case (act t env s' a \<nu>' N')
  define cs where "cs = nt_cmds t @ action_commands env a"
  note ih = act.IH [unfolded net_ok_def, THEN conjunct1] act.IH [unfolded net_ok_def, THEN conjunct2]
  have "hub_wrote (hs_hub s') \<subseteq> packets_for js cs"
    unfolding act.hyps(3) by (rule hub_wrote_packets [OF ih(1) _ act.hyps(2) cs_def])
  note run = nodes_run_ok [OF act.hyps(4) this assms(2)]
  have "nodes_ok papi flash (packets_for js cs) (nt_nodes t) (nt_air t)"
    unfolding cs_def by (rule nodes_ok_mono [OF ih(2) packets_for_append])
  from run [OF this] have nodes: "nodes_ok papi flash (packets_for js cs) \<nu>' N'" and N: "nt_air t \<subseteq> N'"
    by simp_all
  let ?P = "carries (\<lambda>c. c \<in> unstamp ` set cs) (\<lambda>pkt. pkt \<in> packets_for (he_json env) cs)
    (report_from N') (ack_from cs)"
  have keeper: "hub_keeper env (from_air N') ?P (\<lambda>c. c \<in> set (action_commands env a))"
    using action_commands_fit nodes act.hyps(2,5)
    by (intro hub_content.keeper [OF content_from]) (auto simp: cs_def)
  have "?P (hs_hub (nt_hub t))"
    using N by (intro carries_mono [OF ih(1)])
      (auto simp: cs_def act.hyps(2) packets_for_def report_from_def ack_from_def)
  from hub_keeper.action [OF keeper this _ act.hyps(6)] have "?P (hs_hub s')"
    by (simp add: act.hyps(3))
  with nodes show ?case by (simp add: net_ok_def cs_def act.hyps(2))
qed

section \<open>Properties\<close>

lemma net_power_on:
  assumes "boot_mem pmem rmem amem" and "pool_mem mem" and "only_from_air {} env" and "prefs_laws papi"
    and "net_run (he_json env) papi api
           (net_start (hub_power_on env api root_ca mac wifiUp addr0 pmem rmem amem mem nvs) flash) t"
  shows "net_ok (he_json env) papi flash t"
proof (rule net_run_ok [OF assms(5,4)])
  have nodes: "nodes_ok papi flash W (\<lambda>i. sensor_boot (flash i)) {}" for W
    by (simp add: nodes_ok_def sensor_boot_def interval_ok_def ns_boot_def known_intervals_def)
  let ?s = "hub_power_on env api root_ca mac wifiUp addr0 pmem rmem amem mem nvs"
  from hub_monitor.power_on [OF hub_content.monitor [OF content_from [OF nodes assms(3), of "[]"]]
      carries_boot [OF assms(1,2)]]
  have "carries (\<lambda>c. c \<in> unstamp ` set []) (\<lambda>pkt. pkt \<in> packets_for (he_json env) [])
      (report_from {}) (ack_from []) (hs_hub ?s)" .
  with nodes show "net_ok (he_json env) papi flash (net_start ?s flash)"
    by (simp add: net_ok_def net_start_def)
qed

text \<open>
  Nothing in the hub's queues is made up: in every run of the hub with its sensor nodes, however
  packets are delayed, repeated or lost, and however often nodes restart, each queued acknowledgement
  reports success and carries the id of a SET_INTERVAL or TEST command that the hub has received, and each
  queued report has the values of a reading that a node has sent.
\<close>

theorem queued_traffic_is_genuine:
  assumes "boot_mem pmem rmem amem" and "pool_mem mem" and "only_from_air {} env" and "prefs_laws papi"
    and "net_run (he_json env) papi api
           (net_start (hub_power_on env api root_ca mac wifiUp addr0 pmem rmem amem mem nvs) flash) t"
  shows "(\<forall>a \<in> set (acks (hb_ble (hs_hub (nt_hub t)))). ar_success a
        \<and> (\<exists>c \<in> set (nt_cmds t). mc_cmd_id c = ar_cmd_id a
              \<and> cstr (mc_type c) \<in> {''SET_INTERVAL'', ''TEST''}))
    \<and> (\<forall>r \<in> set (reports (hb_ble (hs_hub (nt_hub t)))). \<exists>sd. bytes_SensorData sd \<in> nt_air t
        \<and> sr_temperature r = sd_temp sd \<and> sr_humidity r = sd_humidity sd
        \<and> sr_ldr r = sd_ldr sd \<and> sr_battery_mv r = sd_battery_mv sd)"
  using net_power_on [OF assms]
  by (simp add: net_ok_def carries_def list_all_iff ack_from_def report_from_def)

lemma known_interval_commanded:
  assumes "v \<in> known_intervals (stored_interval papi p) (packets_for js cs)"
  shows "v \<in> {60, ns_sleepInterval (ns_begin papi (ns_boot p))}
     \<union> {clamp_interval (word_of_int (js_int js (snd (js_parse js (cstr (mc_payload c)))) ''interval_sec'' 60))
        | c. c \<in> set cs \<and> cstr (mc_type c) = ''SET_INTERVAL''}"
proof -
  consider "v \<in> {60, stored_interval papi p}"
    | w val where "val \<in> packets_for js cs" "asks_for_interval val w" "v = clamp_interval w"
    using assms unfolding known_intervals_def by blast
  then show ?thesis
  proof cases
    case 1
    then show ?thesis by (auto simp: stored_interval_def)
  next
    case 2
    from packets_for_interval [OF this(1,2)] this(3) show ?thesis by auto
  qed
qed

text \<open>
  A node never sleeps for a time nobody asked for: over any number of wake cycles, restarts and
  power losses, its interval is the one it found in its flash at first (if that was in range), the default of
  60 seconds, or the clamped value of a SET_INTERVAL command that the hub has received.
\<close>

theorem node_interval_commanded:
  assumes "boot_mem pmem rmem amem" and "pool_mem mem" and "only_from_air {} env" and "prefs_laws papi"
    and "net_run (he_json env) papi api
           (net_start (hub_power_on env api root_ca mac wifiUp addr0 pmem rmem amem mem nvs) flash) t"
  shows "ns_sleepInterval (sn_state (nt_nodes t i)) \<in>
     {60, ns_sleepInterval (ns_begin papi (ns_boot (flash i)))}
     \<union> {clamp_interval (word_of_int (js_int (he_json env)
           (snd (js_parse (he_json env) (cstr (mc_payload c)))) ''interval_sec'' 60))
        | c. c \<in> set (nt_cmds t) \<and> cstr (mc_type c) = ''SET_INTERVAL''}"
  using net_power_on [OF assms]
  by (intro known_interval_commanded) (simp add: net_ok_def nodes_ok_def interval_ok_def)

section \<open>An example run\<close>

text \<open>
  The hub finds a node, connects, sends it the interval of a command, and gets the answer.  The nodes act
  only before the last action.
\<close>

definition one_sent :: "(string, string \<rightharpoonup> string) hub_sys" where
  "one_sent = hub_do one_env (map_wifi True) one_message (hub_do one_env (map_wifi True) (Pass None True)
     (hub_do one_env (map_wifi True) (Callback (ScanResult [TEMPIO_SERVICE_UUID] ''aa'')) one_start))"

definition one_answer :: "string hub_action" where
  "one_answer = Callback (Notified (Some 0) [0x21, 9, 0, 1] 0)"

definition one_node :: "(string \<rightharpoonup> u16) sensor" where
  "one_node = onWrite map_prefs [0x12, 9, 0, 90, 0]
     (onHubConnect 1 (ble_peripheral_init example_sensor_env (sensor_boot Map.empty)))"

definition one_net :: "(string, string \<rightharpoonup> string, string \<rightharpoonup> u16) network" where
  "one_net = \<lparr>nt_hub = hub_do one_env (map_wifi True) one_answer one_sent,
     nt_nodes = (\<lambda>i. sensor_boot Map.empty)(0 := one_node), nt_air = {[0x21, 9, 0, 1]},
     nt_cmds = action_commands one_env one_message\<rparr>"

lemma one_traffic:
  "bl_writes (hb_ble (hs_hub (hub_do one_env (map_wifi True) one_answer one_sent)))
     = [(7, [0x10], True), (7, [0x12, 9, 0, 90, 0], True)]"
  "acks (hb_ble (hs_hub (hub_do one_env (map_wifi True) one_answer one_sent)))
     = [\<lparr>ar_node_id = ''aa'', ar_cmd_id = 9, ar_success = True\<rparr>]"
  by code_simp+

lemma one_wrote: "[0x12, 9, 0, 90, 0] \<in> hub_wrote (hs_hub (hub_do one_env (map_wifi True) one_answer one_sent))"
  by (auto simp: hub_wrote_def one_traffic(1))

lemma one_node_runs:
  assumes "[0x12, 9, 0, 90, 0] \<in> W"
  shows "nodes_run map_prefs W (\<lambda>i. sensor_boot Map.empty) {}
    ((\<lambda>i. sensor_boot Map.empty)(0 := one_node)) {[0x21, 9, 0, 1]}"
proof -
  define s1 where "s1 = ble_peripheral_init example_sensor_env (sensor_boot Map.empty)"
  define s2 where "s2 = onHubConnect 1 s1"
  have says: "sn_notifies s1 = []" "sn_notifies s2 = []" "sn_notifies one_node = [[0x21, 9, 0, 1]]"
    by (simp_all add: s1_def s2_def one_node_def ble_peripheral_init_def onHubConnect_def sensor_boot_def
        onWrite_def send_ack_def notify_def bytes_CmdAck_def le16_def rd16_def Let_def)
  let ?\<nu> = "\<lambda>i. sensor_boot Map.empty"
  have "node_step map_prefs W (?\<nu> 0) s1"
    unfolding s1_def by (rule node_step.init) (simp add: example_sensor_env_def)
  from nodes_run.step [OF nodes_run.idle this] says
  have "nodes_run map_prefs W ?\<nu> {} (?\<nu>(0 := s1)) {}" by simp
  from nodes_run.step [OF this, of 0 s2]
  have "nodes_run map_prefs W ?\<nu> {} (?\<nu>(0 := s2)) {}"
    using says by (simp add: s2_def node_step.connected)
  from nodes_run.step [OF this, of 0 one_node] show ?thesis
    using says assms by (simp add: one_node_def s1_def s2_def node_step.written)
qed

lemma one_env_json: "he_json one_env = one_json"
  and one_env_air: "only_from_air N one_env"
  by (simp_all add: one_env_def only_from_air_def example_hub_env_def example_env_def)

lemma one_idle:
  assumes "net_run one_json papi (map_wifi True) t0 \<lparr>nt_hub = s, nt_nodes = \<nu>, nt_air = N, nt_cmds = cs\<rparr>"
    and "\<And>e. a = Callback e \<Longrightarrow> from_air N e"
  shows "net_run one_json papi (map_wifi True) t0 \<lparr>nt_hub = hub_do one_env (map_wifi True) a s,
    nt_nodes = \<nu>, nt_air = N, nt_cmds = cs @ action_commands one_env a\<rparr>"
  using net_run.act [OF assms(1) one_env_json refl, of a \<nu> N] assms(2)
  by (simp add: one_env_air nodes_run.idle)

lemma one_net_run: "net_run one_json map_prefs (map_wifi True) (net_start one_start (\<lambda>i. Map.empty)) one_net"
proof -
  let ?run = "\<lambda>s cs. net_run one_json map_prefs (map_wifi True) (net_start one_start (\<lambda>i. Map.empty))
      \<lparr>nt_hub = s, nt_nodes = \<lambda>i. sensor_boot Map.empty, nt_air = {}, nt_cmds = cs\<rparr>"
  let ?do = "hub_do one_env (map_wifi True)" and ?scan = "Callback (ScanResult [TEMPIO_SERVICE_UUID] ''aa'')"
  have "?run one_start []"
    using net_run.start [of one_json map_prefs "map_wifi True" "net_start one_start (\<lambda>i. Map.empty)"]
    by (simp add: net_start_def)
  from one_idle [OF this, of ?scan] have "?run (?do ?scan one_start) []" by simp
  from one_idle [OF this, of "Pass None True"] have "?run (?do (Pass None True) (?do ?scan one_start)) []" by simp
  from one_idle [OF this, of one_message] have sent: "?run one_sent (action_commands one_env one_message)"
    by (simp add: one_sent_def one_message_def)
  from net_run.act [OF sent one_env_json refl, of one_answer] one_node_runs [OF one_wrote] one_env_air
  show ?thesis by (simp add: one_net_def one_answer_def)
qed

theorem queued_traffic_is_genuine_witness:
  "acks (hb_ble (hs_hub (nt_hub one_net))) \<noteq> []
   \<and> ar_success (hd (acks (hb_ble (hs_hub (nt_hub one_net)))))
   \<and> ar_cmd_id (hd (acks (hb_ble (hs_hub (nt_hub one_net))))) = 9"
proof -
  have some: "acks (hb_ble (hs_hub (nt_hub one_net))) \<noteq> []"
    by (simp add: one_net_def one_traffic(2))
  moreover note hd_in_set [OF some]
  moreover have "nt_cmds one_net = action_commands one_env one_message" by (simp add: one_net_def)
  ultimately show ?thesis
    using queued_traffic_is_genuine [OF example_boot_mem example_mem_ok one_env_air map_prefs_laws
        one_net_run [folded one_env_json, unfolded one_start_def]]
    by (auto simp: one_received)
qed

theorem node_interval_commanded_witness:
  "ns_sleepInterval (sn_state (nt_nodes one_net 0)) \<in> {60, 90}"
proof -
  have "nt_cmds one_net = action_commands one_env one_message" by (simp add: one_net_def)
  note cmds = this [unfolded one_received]
  have "ns_sleepInterval (ns_begin map_prefs (ns_boot Map.empty)) = 60" by code_simp
  moreover have "clamp_interval 90 = 90" by code_simp
  ultimately show ?thesis
    using node_interval_commanded [OF example_boot_mem example_mem_ok one_env_air map_prefs_laws
        one_net_run [folded one_env_json, unfolded one_start_def], of 0]
    by (auto simp: cmds one_env_json one_json_def)
qed

end
