(* ===== verification/Hub_Tasks.thy ===== *)
theory Hub_Tasks
  imports Hub_Traffic
begin

text \<open>
  The tasks of the hub, step by step.  \<open>Hub_Main\<close> takes a pass of the loop and the handling of an MQTT
  message as one transition each; on the chip the main task, ESP-IDF's MQTT task and NimBLE's host task
  preempt each other.  Here a task is a program with a control state that holds its local variables, and
  one step goes from one access of the shared state to the next: from one critical section, one test
  of the slots, or one call that blocks to the following one.  A schedule is any list of steps of the
  three tasks.  Not divided are a search through the five slots, a callback, the assignments that mark a slot
  as used, the search for the slot and the write in \<open>bleSendToNode\<close>, the test of the characteristic and the write
  of HUB_READY (for both, \<open>null_after_disconnect\<close> in \<open>Task_Hazards\<close> says what a callback between test and write
  does), and \<open>discoverAndSubscribe\<close> (callbacks run in its calls, steps of the MQTT task do not).  A task that is not preempted does what the functions of
  \<open>Hub_Main\<close> say.
\<close>

section \<open>Control states\<close>

text \<open>
  In \<open>flushNodePending\<close>: before the test of the connection, before \<open>pop\<close>, with a command in the local
  variable \<open>cmd\<close> before it is written, and with the result of the write.
\<close>

datatype flush_pc = FCheck string | FPop string | FSend string MqttCommand | FSent string MqttCommand bool

text \<open>
  In \<open>processNextPending\<close>, with \<open>addr\<close>, and in \<open>connectToNode\<close> and \<open>registerNode\<close>, with \<open>slot\<close> and
  \<open>client\<close>; \<open>CPause\<close> is the delay after the slot has been marked as used.
\<close>

datatype 'adr connect_pc =
  CStop 'adr
| CPick 'adr
| CTake 'adr nat
| CConnect 'adr nat nat
| CDiscover 'adr nat nat
| CDisconnect nat nat
| CStash nat nat
| CRegister 'adr nat nat
| CUse 'adr nat nat "nat option"
| CPause 'adr nat
| CReady 'adr nat
| CLed 'adr
| CFlush flush_pc
| CStart

text \<open>In \<open>loop\<close>, with the report or the acknowledgement that has been taken out of its queue.\<close>

datatype 'adr loop_pc =
  LTop
| LRescan
| LNext
| LConnect "'adr connect_pc"
| LStatus
| LMqtt
| LReports
| LReport SensorReport
| LAcks
| LAck CmdAckReport
| LFlushAll nat
| LFlush nat flush_pc
| LDelay

text \<open>In the MQTT task: the commands of the message that are left, and the one that has been written.\<close>

datatype mqtt_pc = Waiting | Handling "MqttCommand list" | Sent MqttCommand bool "MqttCommand list"

section \<open>The steps of the main task\<close>

text \<open>The result \<open>None\<close> means that the function returns.\<close>

fun flush_step :: "('adr, 'j) hub_env \<Rightarrow> flush_pc \<Rightarrow> 'adr hub \<Rightarrow> flush_pc option \<times> 'adr hub" where
  "flush_step env (FCheck node) h =
     (if bleIsNodeConnected (he_ble env) (hb_ble h) node then (Some (FPop node), h) else (None, h))"
| "flush_step env (FPop node) h =
     (let (r, p) = pool_pop (clock env h) (hb_pool h) node; h1 = (read_clock h)\<lparr>hb_pool := p\<rparr>
      in case r of None \<Rightarrow> (None, h1) | Some cmd \<Rightarrow> (Some (FSend node cmd), h1))"
| "flush_step env (FSend node cmd) h =
     (let (ok, h1) = send_now env cmd h in (Some (FSent node cmd ok), h1))"
| "flush_step env (FSent node cmd ok) h =
     (if ok then (Some (FPop node), h)
      else (None, (read_clock h)\<lparr>hb_pool := snd (pool_pushFront (clock env h) (hb_pool h) node cmd)\<rparr>))"

definition on_link :: "('adr ble \<Rightarrow> 'adr ble) \<Rightarrow> 'pc \<Rightarrow> 'adr hub \<Rightarrow> 'pc option \<times> 'adr hub" where
  "on_link f pc h = (Some pc, h\<lparr>hb_ble := f (hb_ble h)\<rparr>)"

fun connect_step ::
  "('adr, 'j) hub_env \<Rightarrow> 'adr connect_pc \<Rightarrow> 'adr hub \<Rightarrow> 'adr connect_pc option \<times> 'adr hub" where
  "connect_step env (CStop addr) h = on_link (scan_set (he_ble env) False) (CPick addr) h"
| "connect_step env (CPick addr) h =
     (case findEmptySlot (hb_ble h) of None \<Rightarrow> (Some CStart, h) | Some slot \<Rightarrow> (Some (CTake addr slot), h))"
| "connect_step env (CTake addr slot) h =
     (case acquireClient (he_ble env) (hb_ble h) of
        (None, b) \<Rightarrow> (Some CStart, h\<lparr>hb_ble := b\<rparr>)
      | (Some c, b) \<Rightarrow> (Some (CConnect addr slot c), h\<lparr>hb_ble := b\<rparr>))"
| "connect_step env (CConnect addr slot c) h =
     on_link (ble_call (he_ble env))
       (if be_connect (he_ble env) (bl_calls (hb_ble h)) then CDiscover addr slot c
        else CDisconnect slot c) h"
| "connect_step env (CDiscover addr slot c) h =
     on_link (\<lambda>b. snd (discoverAndSubscribe (he_ble env) b))
       (if fst (discoverAndSubscribe (he_ble env) (hb_ble h)) then CRegister addr slot c
        else CDisconnect slot c) h"
| "connect_step env (CDisconnect slot c) h = on_link (ble_call (he_ble env)) (CStash slot c) h"
| "connect_step env (CStash slot c) h = on_link (stashClient c) CStart h"
| "connect_step env (CRegister addr slot c) h =
     on_link (\<lambda>b. ble_call (he_ble env) (setNode slot (\<lambda>n. n\<lparr>cn_client := Some c\<rparr>) b))
       (CUse addr slot c (be_characteristic (he_ble env) TEMPIO_SERVICE_UUID TEMPIO_CHAR_CONFIG_UUID
          (bl_calls (hb_ble h)))) h"
| "connect_step env (CUse addr slot c cfg) h =
     on_link (setNode slot (\<lambda>n. n\<lparr>cn_configChar := cfg, cn_addr := addr, cn_used := True\<rparr>))
       (CPause addr slot) h"
| "connect_step env (CPause addr slot) h = on_link (ble_call (he_ble env)) (CReady addr slot) h"
| "connect_step env (CReady addr slot) h = on_link (hub_ready (he_ble env) slot) (CLed addr) h"
| "connect_step env (CLed addr) h =
     on_link (bl_led_update (\<lambda>_. True)) (CFlush (FCheck (cstr (be_toString (he_ble env) addr)))) h"
| "connect_step env (CFlush f) h =
     (case flush_step env f h of
        (None, h1) \<Rightarrow> (Some CStart, h1) | (Some f', h1) \<Rightarrow> (Some (CFlush f'), h1))"
| "connect_step env CStart h = (None, h\<lparr>hb_ble := scan_set (he_ble env) True (hb_ble h)\<rparr>)"

text \<open>
  The whole \<open>loop\<close>, where \<open>wifiUp\<close> is what \<open>WiFi.isConnected()\<close> answers in \<open>mqttLoop\<close>.  \<open>nextNode\<close> locks
  the pool once for each slot, so each slot is a step.
\<close>

fun loop_step ::
  "('adr, 'j) hub_env \<Rightarrow> bool \<Rightarrow> 'adr loop_pc \<Rightarrow> 'adr hub \<Rightarrow> 'adr loop_pc option \<times> 'adr hub" where
  "loop_step env wifiUp LTop h = on_link cleanupDisconnected LRescan h"
| "loop_step env wifiUp LRescan h =
     on_link (\<lambda>b. if bl_doScan b then scan_set (he_ble env) True (b\<lparr>bl_doScan := False\<rparr>) else b) LNext h"
| "loop_step env wifiUp LNext h =
     (let (r, q) = tsq_pop PENDING_MAX (bl_pendingQueue (hb_ble h));
          h1 = h\<lparr>hb_ble := (hb_ble h)\<lparr>bl_pendingQueue := q\<rparr>\<rparr>
      in case r of None \<Rightarrow> (Some LStatus, h1) | Some addr \<Rightarrow> (Some (LConnect (CStop addr)), h1))"
| "loop_step env wifiUp (LConnect c) h =
     (case connect_step env c h of
        (None, h1) \<Rightarrow> (Some LStatus, h1) | (Some c', h1) \<Rightarrow> (Some (LConnect c'), h1))"
| "loop_step env wifiUp LStatus h = (Some LMqtt, printStatus env h)"
| "loop_step env wifiUp LMqtt h = (Some LReports, on_mqtt (mqttLoop wifiUp) h)"
| "loop_step env wifiUp LReports h =
     (case bleGetPendingReport (hb_ble h) of
        (None, b) \<Rightarrow> (Some LAcks, h\<lparr>hb_ble := b\<rparr>)
      | (Some report, b) \<Rightarrow> (Some (LReport report), h\<lparr>hb_ble := b\<rparr>))"
| "loop_step env wifiUp (LReport report) h =
     (Some LReports, publish env
        (SensorReport_toJson (he_json env) (inject_status env (hb_reads h) report) REPORT_JSON_BUF_SIZE)
        (read_clock h))"
| "loop_step env wifiUp LAcks h =
     (case bleGetPendingAck (hb_ble h) of
        (None, b) \<Rightarrow> (Some (LFlushAll 0), h\<lparr>hb_ble := b\<rparr>)
      | (Some ack, b) \<Rightarrow> (Some (LAck ack), h\<lparr>hb_ble := b\<rparr>))"
| "loop_step env wifiUp (LAck ack) h =
     (Some LAcks, publish env (CmdAckReport_toJson (he_json env) ack 128) h)"
| "loop_step env wifiUp (LFlushAll idx) h =
     (if idx < length (pp_slots (hb_pool h))
      then let s = pp_slots (hb_pool h) ! idx
           in (Some (if sl_used s \<and> \<not> tsq_emptyUnsafe (sl_queue s)
                     then LFlush (Suc idx) (FCheck (strlcpy 18 (sl_node_id s)))
                     else LFlushAll (Suc idx)), h)
      else (Some LDelay, h))"
| "loop_step env wifiUp (LFlush idx f) h =
     (case flush_step env f h of
        (None, h1) \<Rightarrow> (Some (LFlushAll idx), h1) | (Some f', h1) \<Rightarrow> (Some (LFlush idx f'), h1))"
| "loop_step env wifiUp LDelay h = (None, loop_delay env h)"

section \<open>The steps of the MQTT task\<close>

fun mqtt_step :: "('adr, 'j) hub_env \<Rightarrow> mqtt_pc \<Rightarrow> 'adr hub \<Rightarrow> mqtt_pc \<times> 'adr hub" where
  "mqtt_step env Waiting h = (Waiting, h)"
| "mqtt_step env (Handling []) h = (Waiting, h)"
| "mqtt_step env (Handling (c # cs)) h =
     (if cstr (mc_target c) = [] then (Handling cs, handleHubCommand env c h)
      else let (ok, h1) = send_now env c h in (Sent c ok cs, h1))"
| "mqtt_step env (Sent c ok cs) h =
     (Handling cs,
      if ok then h
      else (read_clock h)\<lparr>hb_pool := snd (pool_push (clock env h) (hb_pool h) (mc_target c) c)\<rparr>)"

text \<open>An event of the MQTT client; the commands of a message are handled by the steps that follow.\<close>

definition arrive ::
  "('adr, 'j) hub_env \<Rightarrow> mqtt_event_id \<Rightarrow> mqtt_event \<Rightarrow> 'adr hub \<Rightarrow> mqtt_pc \<times> 'adr hub" where
  "arrive env i ev h =
     (case i of
        MQTT_EVENT_DATA \<Rightarrow> (Handling (event_commands env i ev), h)
      | _ \<Rightarrow> (Waiting, mqttEventDispatch env i ev h))"

section \<open>Schedules\<close>

text \<open>\<open>tk_received\<close> is a history: the commands of all messages, in the order of their arrival.\<close>

record ('adr, 'nvs) tasks =
  tk_sys :: "('adr, 'nvs) hub_sys"
  tk_loop :: "'adr loop_pc"
  tk_mqtt :: mqtt_pc
  tk_received :: "MqttCommand list"

abbreviation tk_hub :: "('adr, 'nvs) tasks \<Rightarrow> 'adr hub" where
  "tk_hub t \<equiv> hs_hub (tk_sys t)"

datatype 'adr task_action =
  MainTask "string option" bool
| MqttTask
| Arrives mqtt_event_id mqtt_event
| HostTask "'adr ble_event"

text \<open>
  A step of the main task at the top of \<open>loop\<close> also reads the serial line.  The MQTT task gets an event
  only when it has finished with the one before.
\<close>

fun task_do ::
  "('adr, 'j) hub_env \<Rightarrow> 'nvs wifi_api \<Rightarrow> 'adr task_action \<Rightarrow> ('adr, 'nvs) tasks \<Rightarrow> ('adr, 'nvs) tasks" where
  "task_do env api (MainTask serial wifiUp) t =
     (let (pc, h) = loop_step env wifiUp (tk_loop t) (tk_hub t);
          w = hs_wifi (tk_sys t)
      in t\<lparr>tk_sys := \<lparr>hs_hub = h,
             hs_wifi = (case tk_loop t of LTop \<Rightarrow> wifiProcessSerial api serial w | _ \<Rightarrow> w)\<rparr>,
           tk_loop := (case pc of None \<Rightarrow> LTop | Some l \<Rightarrow> l)\<rparr>)"
| "task_do env api MqttTask t =
     (let (pc, h) = mqtt_step env (tk_mqtt t) (tk_hub t)
      in t\<lparr>tk_sys := (tk_sys t)\<lparr>hs_hub := h\<rparr>, tk_mqtt := pc\<rparr>)"
| "task_do env api (Arrives i ev) t =
     (case tk_mqtt t of
        Waiting \<Rightarrow>
          (let (pc, h) = arrive env i ev (tk_hub t)
           in t\<lparr>tk_sys := (tk_sys t)\<lparr>hs_hub := h\<rparr>, tk_mqtt := pc,
                tk_received := tk_received t @ event_commands env i ev\<rparr>)
      | _ \<Rightarrow> t)"
| "task_do env api (HostTask e) t =
     t\<lparr>tk_sys := (tk_sys t)\<lparr>hs_hub := on_ble (run_event (he_ble env) e) (tk_hub t)\<rparr>\<rparr>"

definition task_run ::
  "('adr, 'j) hub_env \<Rightarrow> 'nvs wifi_api \<Rightarrow> 'adr task_action list \<Rightarrow> ('adr, 'nvs) tasks \<Rightarrow> ('adr, 'nvs) tasks" where
  "task_run env api sched t = foldl (\<lambda>t a. task_do env api a t) t sched"

definition tasks_at :: "('adr, 'nvs) hub_sys \<Rightarrow> MqttCommand list \<Rightarrow> ('adr, 'nvs) tasks" where
  "tasks_at s cs = \<lparr>tk_sys = s, tk_loop = LTop, tk_mqtt = Waiting, tk_received = cs\<rparr>"

lemma task_run_Nil [simp]: "task_run env api [] t = t"
  and task_run_append [simp]: "task_run env api (as @ bs) t = task_run env api bs (task_run env api as t)"
  and task_run_Cons [simp]: "task_run env api (a # as) t = task_run env api as (task_do env api a t)"
  by (simp_all add: task_run_def)

text \<open>What holds at first and survives every step holds after every schedule.\<close>

lemma task_run_keeps:
  assumes "I t" and "\<And>a t. I t \<Longrightarrow> a \<in> set sched \<Longrightarrow> I (task_do env api a t)"
  shows "I (task_run env api sched t)"
  using assms by (induction sched arbitrary: t) auto

section \<open>A task that is not preempted\<close>

text \<open>A function of the main task goes from one control state to another one, or runs to its end.\<close>

inductive reaches ::
  "('pc \<Rightarrow> 's \<Rightarrow> 'pc option \<times> 's) \<Rightarrow> 'pc \<Rightarrow> 's \<Rightarrow> 'pc \<Rightarrow> 's \<Rightarrow> bool" for step where
  here: "reaches step pc s pc s"
| move: "step pc s = (Some pc1, s1) \<Longrightarrow> reaches step pc1 s1 pc' s' \<Longrightarrow> reaches step pc s pc' s'"

inductive finishes ::
  "('pc \<Rightarrow> 's \<Rightarrow> 'pc option \<times> 's) \<Rightarrow> 'pc \<Rightarrow> 's \<Rightarrow> 's \<Rightarrow> bool" for step where
  returns: "step pc s = (None, s') \<Longrightarrow> finishes step pc s s'"
| goes_on: "step pc s = (Some pc1, s1) \<Longrightarrow> finishes step pc1 s1 s' \<Longrightarrow> finishes step pc s s'"

lemma reaches_trans [trans]:
  "reaches step pc s pc1 s1 \<Longrightarrow> reaches step pc1 s1 pc' s' \<Longrightarrow> reaches step pc s pc' s'"
  by (induction rule: reaches.induct) (auto intro: reaches.move)

lemma reaches_finishes:
  "reaches step pc s pc1 s1 \<Longrightarrow> finishes step pc1 s1 s' \<Longrightarrow> finishes step pc s s'"
  by (induction rule: reaches.induct) (auto intro: finishes.goes_on)

lemma reaches_one: "step pc s = (Some pc', s') \<Longrightarrow> reaches step pc s pc' s'"
  by (rule reaches.move [OF _ reaches.here])

text \<open>A call: the steps of the function that is called are steps of the one that calls it.\<close>

lemma reaches_call:
  assumes "finishes step pc s s'"
    and "\<And>pc s. outer (K pc) s = (case step pc s of (None, s1) \<Rightarrow> (Some done, s1) | (Some pc1, s1) \<Rightarrow> (Some (K pc1), s1))"
  shows "reaches outer (K pc) s done s'"
  using assms(1)
proof induction
  case (returns pc s s')
  then show ?case by (intro reaches_one) (simp add: assms(2))
next
  case (goes_on pc s pc1 s1 s')
  have "outer (K pc) s = (Some (K pc1), s1)" using goes_on(1) by (simp add: assms(2))
  from reaches.move [of outer, OF this goes_on(3)] show ?case .
qed

lemma flush_pops: "finishes (flush_step env) (FPop node) h (flushNode_loop env node h)"
proof (induction "pool_work (hb_pool h)" arbitrary: h rule: less_induct)
  case less
  obtain r p where pop: "pool_pop (clock env h) (hb_pool h) node = (r, p)" by fastforce
  define h1 where "h1 = (read_clock h)\<lparr>hb_pool := p\<rparr>"
  show ?case
  proof (cases r)
    case None
    with pop show ?thesis
      by (intro finishes.returns) (simp add: flushNode_loop.simps [of env node h] Let_def)
  next
    case (Some c)
    obtain ok h2 where send: "send_now env c h1 = (ok, h2)" by fastforce
    then have pool: "hb_pool h2 = p" by (auto simp: send_now_def h1_def split: prod.splits)
    have take: "reaches (flush_step env) (FPop node) h (FSent node c ok) h2"
      using pop Some send
      by (intro reaches.move [OF _ reaches_one, of _ "FPop node" h "FSend node c" h1]) (simp_all add: h1_def Let_def)
    show ?thesis
    proof (cases ok)
      case True
      have "pool_work (hb_pool h2) < pool_work (hb_pool h)"
        using pool_pop_work [OF pop [unfolded Some]] pool by simp
      note rest = less [OF this]
      have "flush_step env (FSent node c ok) h2 = (Some (FPop node), h2)" using True by simp
      note finishes.goes_on [of "flush_step env", OF this rest]
      moreover have "flushNode_loop env node h = flushNode_loop env node h2"
        using pop Some send True by (subst flushNode_loop.simps) (simp add: h1_def)
      ultimately show ?thesis using reaches_finishes [OF take] by simp
    next
      case False
      have "flushNode_loop env node h =
          (read_clock h2)\<lparr>hb_pool := snd (pool_pushFront (clock env h2) (hb_pool h2) node c)\<rparr>"
        using pop Some send False by (subst flushNode_loop.simps) (simp add: h1_def)
      with False show ?thesis by (intro reaches_finishes [OF take] finishes.returns) simp
    qed
  qed
qed

lemma flush_checks: "finishes (flush_step env) (FCheck node) h (flushNodePending env node h)"
  using finishes.goes_on [OF _ flush_pops, of env "FCheck node" h node h]
    finishes.returns [of "flush_step env" "FCheck node" h h]
  by (simp add: flushNodePending_def)

text \<open>Connecting: the failing paths, and registration.\<close>

lemma connect_stash:
  "reaches (connect_step env) (CDisconnect slot c) h CStart
     (h\<lparr>hb_ble := disconnectAndStash (he_ble env) c (hb_ble h)\<rparr>)"
  by (rule reaches.move [OF _ reaches_one]) (simp add: on_link_def disconnectAndStash_def)+

lemma connect_register:
  "reaches (connect_step env) (CRegister addr slot c) h CStart (registerNode env slot c addr h)"
proof -
  let ?e = "he_ble env"
  let ?b = "ble_call ?e (register_slot ?e slot c addr (hb_ble h))"
  let ?h2 = "h\<lparr>hb_ble := (hub_ready ?e slot ?b)\<lparr>bl_led := True\<rparr>\<rparr>"
  have "reaches (connect_step env) (CRegister addr slot c) h (CReady addr slot) (h\<lparr>hb_ble := ?b\<rparr>)"
    by (rule reaches.move [OF _ reaches.move [OF _ reaches_one]])
      (simp add: on_link_def register_slot_def Let_def)+
  also have "reaches (connect_step env) (CReady addr slot) (h\<lparr>hb_ble := ?b\<rparr>)
      (CFlush (FCheck (cstr (be_toString ?e addr)))) ?h2"
    by (rule reaches.move [OF _ reaches_one]) (simp add: on_link_def)+
  also have "reaches (connect_step env) (CFlush (FCheck (cstr (be_toString ?e addr)))) ?h2
      CStart (registerNode env slot c addr h)"
    unfolding registerNode_steps by (rule reaches_call [OF flush_checks]) simp
  finally show ?thesis .
qed

lemma connect_runs:
  "reaches (connect_step env) (CPick addr) h CStart (snd (connectToNode env addr h))"
proof (cases "findEmptySlot (hb_ble h)")
  case None
  then show ?thesis by (intro reaches_one) (simp add: connectToNode_def)
next
  case slot: (Some slot)
  let ?e = "he_ble env"
  obtain r b1 where acq: "acquireClient ?e (hb_ble h) = (r, b1)" by fastforce
  have pick: "reaches (connect_step env) (CPick addr) h (CTake addr slot) h"
    using slot by (intro reaches_one) simp
  show ?thesis
  proof (cases r)
    case None
    with slot acq show ?thesis by (intro reaches_trans [OF pick] reaches_one) (simp add: connectToNode_def)
  next
    case (Some c)
    let ?h1 = "h\<lparr>hb_ble := b1\<rparr>"
    let ?b2 = "ble_call ?e b1"
    have take: "reaches (connect_step env) (CPick addr) h (CConnect addr slot c) ?h1"
      using acq Some by (intro reaches_trans [OF pick] reaches_one) simp
    obtain ok b3 where disc: "discoverAndSubscribe ?e ?b2 = (ok, b3)" by fastforce
    have fail: "reaches (connect_step env) (CDisconnect slot c) (h\<lparr>hb_ble := b\<rparr>) CStart
        (h\<lparr>hb_ble := disconnectAndStash ?e c b\<rparr>)" for b
      using connect_stash [of env slot c "h\<lparr>hb_ble := b\<rparr>"] by simp
    have "reaches (connect_step env) (CConnect addr slot c) ?h1 CStart (snd (connectToNode env addr h))"
    proof (cases "be_connect ?e (bl_calls b1)")
      case False
      then have "connect_step env (CConnect addr slot c) ?h1 = (Some (CDisconnect slot c), h\<lparr>hb_ble := ?b2\<rparr>)"
        by (simp add: on_link_def)
      from reaches.move [OF this fail] False slot acq Some show ?thesis by (simp add: connectToNode_def Let_def)
    next
      case True
      then have conn: "connect_step env (CConnect addr slot c) ?h1
          = (Some (CDiscover addr slot c), h\<lparr>hb_ble := ?b2\<rparr>)"
        by (simp add: on_link_def)
      have found: "connect_step env (CDiscover addr slot c) (h\<lparr>hb_ble := ?b2\<rparr>)
          = (Some (if ok then CRegister addr slot c else CDisconnect slot c), h\<lparr>hb_ble := b3\<rparr>)"
        using disc by (simp add: on_link_def)
      have "reaches (connect_step env) (if ok then CRegister addr slot c else CDisconnect slot c)
          (h\<lparr>hb_ble := b3\<rparr>) CStart (snd (connectToNode env addr h))"
        using slot acq Some True disc fail [of b3] connect_register [of env addr slot c "h\<lparr>hb_ble := b3\<rparr>"]
        by (cases ok) (simp_all add: connectToNode_def)
      from reaches.move [OF conn reaches.move [OF found this]] show ?thesis .
    qed
    with reaches_trans [OF take] show ?thesis by blast
  qed
qed

lemma connect_finishes:
  fixes h :: "'adr hub"
  defines "h1 \<equiv> \<lambda>env :: ('adr, 'j) hub_env. h\<lparr>hb_ble := scan_set (he_ble env) False (hb_ble h)\<rparr>"
  defines "h2 \<equiv> \<lambda>env addr. snd (connectToNode env addr (h1 env))"
  shows "finishes (connect_step env) (CStop addr) h
    ((h2 env addr)\<lparr>hb_ble := scan_set (he_ble env) True (hb_ble (h2 env addr))\<rparr>)"
proof -
  have "reaches (connect_step env) (CStop addr) h CStart (h2 env addr)"
    unfolding h2_def by (rule reaches.move [OF _ connect_runs]) (simp add: on_link_def h1_def)
  then show ?thesis by (rule reaches_finishes) (intro finishes.returns, simp)
qed

text \<open>The loop.\<close>

lemma loop_connects: "reaches (loop_step env up) LNext h LStatus (processNextPending env h)"
proof -
  obtain r q where pop: "tsq_pop PENDING_MAX (bl_pendingQueue (hb_ble h)) = (r, q)" by fastforce
  show ?thesis
  proof (cases r)
    case None
    with pop show ?thesis by (intro reaches_one) (simp add: processNextPending_def)
  next
    case (Some addr)
    let ?h1 = "h\<lparr>hb_ble := (hb_ble h)\<lparr>bl_pendingQueue := q\<rparr>\<rparr>"
    have "reaches (loop_step env up) (LConnect (CStop addr)) ?h1 LStatus (processNextPending env h)"
      using reaches_call [OF connect_finishes [of env addr ?h1], of "loop_step env up" LConnect LStatus]
        pop Some by (simp add: processNextPending_def Let_def)
    then show ?thesis
      using pop Some by (intro reaches.move [of _ LNext h]) simp_all
  qed
qed

lemma loop_reports: "reaches (loop_step env up) LReports h LAcks (publish_reports env h)"
proof (induction "nat (tsq_count (bl_reportQueue (hb_ble h)))" arbitrary: h rule: less_induct)
  case less
  obtain r b where get: "bleGetPendingReport (hb_ble h) = (r, b)" by fastforce
  show ?case
  proof (cases r)
    case None
    with get show ?thesis by (intro reaches_one) (simp add: publish_reports.simps [of env h])
  next
    case (Some x)
    let ?h2 = "publish env (SensorReport_toJson (he_json env) (inject_status env (hb_reads h) x)
        REPORT_JSON_BUF_SIZE) ((read_clock h)\<lparr>hb_ble := b\<rparr>)"
    have "publish_reports env h = publish_reports env ?h2"
      using get Some by (subst publish_reports.simps) simp
    moreover have "reaches (loop_step env up) LReports ?h2 LAcks (publish_reports env ?h2)"
      using bleGetPendingReport_less [OF get [unfolded Some]] by (intro less) (simp add: publish_def)
    moreover have "loop_step env up LReports h = (Some (LReport x), h\<lparr>hb_ble := b\<rparr>)"
      and "loop_step env up (LReport x) (h\<lparr>hb_ble := b\<rparr>) = (Some LReports, ?h2)"
      using get Some by (simp_all add: read_clock_def hub_order)
    ultimately show ?thesis by (metis reaches.move)
  qed
qed

lemma loop_acks: "reaches (loop_step env up) LAcks h (LFlushAll 0) (publish_acks env h)"
proof (induction "nat (tsq_count (bl_ackQueue (hb_ble h)))" arbitrary: h rule: less_induct)
  case less
  obtain r b where get: "bleGetPendingAck (hb_ble h) = (r, b)" by fastforce
  show ?case
  proof (cases r)
    case None
    with get show ?thesis by (intro reaches_one) (simp add: publish_acks.simps [of env h])
  next
    case (Some x)
    let ?h2 = "publish env (CmdAckReport_toJson (he_json env) x 128) (h\<lparr>hb_ble := b\<rparr>)"
    have "publish_acks env h = publish_acks env ?h2"
      using get Some by (subst publish_acks.simps) simp
    moreover have "reaches (loop_step env up) LAcks ?h2 (LFlushAll 0) (publish_acks env ?h2)"
      using bleGetPendingAck_less [OF get [unfolded Some]] by (intro less) (simp add: publish_def)
    moreover have "loop_step env up LAcks h = (Some (LAck x), h\<lparr>hb_ble := b\<rparr>)"
      and "loop_step env up (LAck x) (h\<lparr>hb_ble := b\<rparr>) = (Some LAcks, ?h2)"
      using get Some by simp_all
    ultimately show ?thesis by (metis reaches.move)
  qed
qed

lemma first_index_drop:
  "first_index P (drop i xs) =
     (if i < length xs then (if P (xs ! i) then Some 0 else map_option Suc (first_index P (drop (Suc i) xs)))
      else None)"
proof (cases "i < length xs")
  case True
  then show ?thesis by (subst Cons_nth_drop_Suc [OF True, symmetric]) simp
qed simp

lemma loop_walk: "reaches (loop_step env up) (LFlushAll idx) h LDelay (flushAll_loop env idx h)"
proof (induction "length (pp_slots (hb_pool h)) - idx" arbitrary: h idx rule: less_induct)
  case less
  let ?work = "\<lambda>s. sl_used s \<and> \<not> tsq_emptyUnsafe (sl_queue s)"
  let ?slots = "pp_slots (hb_pool h)"
  show ?case
  proof (cases "idx < length ?slots")
    case False
    then have "pool_nextNode (hb_pool h) idx 18 = None" by (simp add: pool_nextNode_def)
    with False show ?thesis by (intro reaches_one) (simp add: flushAll_loop.simps [of env idx h])
  next
    case True
    let ?node = "strlcpy 18 (sl_node_id (?slots ! idx))"
    show ?thesis
    proof (cases "?work (?slots ! idx)")
      case work: True
      let ?h1 = "flushNodePending env ?node h"
      have "pool_nextNode (hb_pool h) idx 18 = Some (Suc idx, ?node)"
        using True work by (simp add: pool_nextNode_def first_index_drop)
      then have eq: "flushAll_loop env idx h = flushAll_loop env (Suc idx) ?h1"
        by (subst flushAll_loop.simps) simp
      have "reaches (loop_step env up) (LFlush (Suc idx) (FCheck ?node)) h (LFlushAll (Suc idx)) ?h1"
        by (rule reaches_call [OF flush_checks]) simp
      also have "reaches (loop_step env up) (LFlushAll (Suc idx)) ?h1 LDelay (flushAll_loop env (Suc idx) ?h1)"
        using True by (intro less) (simp add: flushNodePending_slots)
      finally show ?thesis
        unfolding eq using True work by (intro reaches.move [of _ "LFlushAll idx" h]) simp_all
    next
      case False
      have "pool_nextNode (hb_pool h) idx 18 = pool_nextNode (hb_pool h) (Suc idx) 18"
        using True False by (simp add: pool_nextNode_def first_index_drop [of _ idx] split: option.splits)
      then have "flushAll_loop env idx h = flushAll_loop env (Suc idx) h"
        by (simp add: flushAll_loop.simps [of env idx h] flushAll_loop.simps [of env "Suc idx" h])
      with less [of h "Suc idx"] True False show ?thesis
        by (intro reaches.move [of _ "LFlushAll idx" h]) auto
    qed
  qed
qed

lemma loop_finishes:
  "finishes (loop_step env wifiUp) LTop h
     (loop_delay env (flushAllPending env (publish_acks env (publish_reports env
        (on_mqtt (mqttLoop wifiUp) (bleCentralLoop env h))))))"
proof -
  let ?b = "cleanupDisconnected (hb_ble h)"
  let ?h1 = "h\<lparr>hb_ble := if bl_doScan ?b then scan_set (he_ble env) True (?b\<lparr>bl_doScan := False\<rparr>) else ?b\<rparr>"
  let ?h3 = "on_mqtt (mqttLoop wifiUp) (bleCentralLoop env h)"
  have "reaches (loop_step env wifiUp) LTop h LNext ?h1"
    by (rule reaches.move [OF _ reaches_one]) (simp add: on_link_def)+
  also have "reaches (loop_step env wifiUp) LNext ?h1 LStatus (processNextPending env ?h1)"
    by (rule loop_connects)
  also have "reaches (loop_step env wifiUp) LStatus (processNextPending env ?h1) LReports ?h3"
    by (rule reaches.move [OF _ reaches_one]) (simp add: bleCentralLoop_def Let_def)+
  also note loop_reports
  also note loop_acks
  also note loop_walk
  finally show ?thesis
    unfolding flushAllPending_def by (rule reaches_finishes) (intro finishes.returns, simp)
qed

text \<open>From the programs to schedules.\<close>

lemma main_task_finishes:
  assumes "finishes (loop_step env up) pc h h'" and "pc \<noteq> LTop"
  shows "\<exists>n. task_run env api (replicate n (MainTask serial up)) \<lparr>tk_sys = \<lparr>hs_hub = h, hs_wifi = w\<rparr>,
      tk_loop = pc, tk_mqtt = m, tk_received = cs\<rparr>
    = \<lparr>tk_sys = \<lparr>hs_hub = h', hs_wifi = w\<rparr>, tk_loop = LTop, tk_mqtt = m, tk_received = cs\<rparr>"
  using assms
proof (induction rule: finishes.induct)
  case (returns pc h h')
  then have "task_do env api (MainTask serial up) \<lparr>tk_sys = \<lparr>hs_hub = h, hs_wifi = w\<rparr>,
      tk_loop = pc, tk_mqtt = m, tk_received = cs\<rparr>
    = \<lparr>tk_sys = \<lparr>hs_hub = h', hs_wifi = w\<rparr>, tk_loop = LTop, tk_mqtt = m, tk_received = cs\<rparr>"
    by (cases pc) (simp_all add: Let_def)
  then show ?case by (intro exI [of _ 1]) simp
next
  case (goes_on pc h pc1 h1 h')
  have "pc1 \<noteq> LTop"
    using goes_on(1) by (cases pc) (auto simp: on_link_def Let_def split: prod.splits option.splits if_splits)
  from goes_on.IH [OF this] obtain n where
    n: "task_run env api (replicate n (MainTask serial up)) \<lparr>tk_sys = \<lparr>hs_hub = h1, hs_wifi = w\<rparr>,
      tk_loop = pc1, tk_mqtt = m, tk_received = cs\<rparr>
    = \<lparr>tk_sys = \<lparr>hs_hub = h', hs_wifi = w\<rparr>, tk_loop = LTop, tk_mqtt = m, tk_received = cs\<rparr>" by blast
  have "task_do env api (MainTask serial up) \<lparr>tk_sys = \<lparr>hs_hub = h, hs_wifi = w\<rparr>,
      tk_loop = pc, tk_mqtt = m, tk_received = cs\<rparr>
    = \<lparr>tk_sys = \<lparr>hs_hub = h1, hs_wifi = w\<rparr>, tk_loop = pc1, tk_mqtt = m, tk_received = cs\<rparr>"
    using goes_on(1,4) by (cases pc) (simp_all add: Let_def del: loop_step.simps)
  with n show ?case by (intro exI [of _ "Suc n"]) simp
qed

lemma pass_not_preempted:
  "\<exists>n. task_run env api (replicate n (MainTask serial up)) (tasks_at s cs)
     = tasks_at (hub_loop env api serial up s) cs"
proof -
  let ?h = "hs_hub s" and ?w = "wifiProcessSerial api serial (hs_wifi s)"
  let ?h1 = "?h\<lparr>hb_ble := cleanupDisconnected (hb_ble ?h)\<rparr>"
  have top: "loop_step env up LTop ?h = (Some LRescan, ?h1)" by (simp add: on_link_def)
  have "finishes (loop_step env up) LRescan ?h1 (hs_hub (hub_loop env api serial up s))"
    using loop_finishes [of env up ?h] top
    by (cases rule: finishes.cases) (simp_all add: hub_loop_def)
  from main_task_finishes [OF this] obtain n where
    n: "task_run env api (replicate n (MainTask serial up)) \<lparr>tk_sys = \<lparr>hs_hub = ?h1, hs_wifi = ?w\<rparr>,
      tk_loop = LRescan, tk_mqtt = Waiting, tk_received = cs\<rparr>
    = tasks_at \<lparr>hs_hub = hs_hub (hub_loop env api serial up s), hs_wifi = ?w\<rparr> cs"
    unfolding tasks_at_def by blast
  have "task_do env api (MainTask serial up) (tasks_at s cs)
      = \<lparr>tk_sys = \<lparr>hs_hub = ?h1, hs_wifi = ?w\<rparr>, tk_loop = LRescan, tk_mqtt = Waiting, tk_received = cs\<rparr>"
    using top by (simp add: tasks_at_def del: loop_step.simps)
  with n have "task_run env api (replicate (Suc n) (MainTask serial up)) (tasks_at s cs)
      = tasks_at \<lparr>hs_hub = hs_hub (hub_loop env api serial up s), hs_wifi = ?w\<rparr> cs"
    by simp
  moreover have "\<lparr>hs_hub = hs_hub (hub_loop env api serial up s), hs_wifi = ?w\<rparr> = hub_loop env api serial up s"
    by (simp add: hub_loop_def)
  ultimately show ?thesis by metis
qed

lemma message_not_preempted:
  "\<exists>n. task_run env api (replicate n MqttTask) \<lparr>tk_sys = s, tk_loop = pc, tk_mqtt = Handling cs, tk_received = rs\<rparr>
     = \<lparr>tk_sys = s\<lparr>hs_hub := foldl (\<lambda>h c. dispatchCommand env c h) (hs_hub s) cs\<rparr>, tk_loop = pc,
        tk_mqtt = Waiting, tk_received = rs\<rparr>"
proof (induction cs arbitrary: s)
  case Nil
  have "task_run env api (replicate 1 MqttTask) \<lparr>tk_sys = s, tk_loop = pc, tk_mqtt = Handling [], tk_received = rs\<rparr>
      = \<lparr>tk_sys = s, tk_loop = pc, tk_mqtt = Waiting, tk_received = rs\<rparr>" by simp
  then show ?case by (intro exI [of _ 1]) simp
next
  case (Cons c cs)
  let ?s1 = "s\<lparr>hs_hub := dispatchCommand env c (hs_hub s)\<rparr>"
  obtain ok h1 where send: "send_now env c (hs_hub s) = (ok, h1)" by fastforce
  have "\<exists>k. task_run env api (replicate k MqttTask)
        \<lparr>tk_sys = s, tk_loop = pc, tk_mqtt = Handling (c # cs), tk_received = rs\<rparr>
      = \<lparr>tk_sys = ?s1, tk_loop = pc, tk_mqtt = Handling cs, tk_received = rs\<rparr>"
  proof (cases "cstr (mc_target c) = []")
    case True
    then show ?thesis by (intro exI [of _ 1]) (simp add: dispatchCommand_def)
  next
    case False
    with send show ?thesis
      by (intro exI [of _ "Suc (Suc 0)"]) (cases ok; simp add: dispatchCommand_def)
  qed
  then obtain k where k: "task_run env api (replicate k MqttTask)
        \<lparr>tk_sys = s, tk_loop = pc, tk_mqtt = Handling (c # cs), tk_received = rs\<rparr>
      = \<lparr>tk_sys = ?s1, tk_loop = pc, tk_mqtt = Handling cs, tk_received = rs\<rparr>" by blast
  from Cons.IH [of ?s1] obtain n where n: "task_run env api (replicate n MqttTask)
        \<lparr>tk_sys = ?s1, tk_loop = pc, tk_mqtt = Handling cs, tk_received = rs\<rparr>
      = \<lparr>tk_sys = ?s1\<lparr>hs_hub := foldl (\<lambda>h c. dispatchCommand env c h) (hs_hub ?s1) cs\<rparr>, tk_loop = pc,
         tk_mqtt = Waiting, tk_received = rs\<rparr>" by blast
  show ?case
    by (rule exI [of _ "k + n"]) (simp add: replicate_add k n)
qed

lemma action_not_preempted:
  "\<exists>sched. task_run env api sched (tasks_at s cs) = tasks_at (hub_do env api a s) (cs @ action_commands env a)"
proof (cases a)
  case (Pass serial up)
  with pass_not_preempted [of env api serial up s cs] show ?thesis by auto
next
  case (Callback e)
  then show ?thesis by (intro exI [of _ "[HostTask e]"]) (simp add: tasks_at_def)
next
  case (Mqtt i ev)
  let ?cs = "event_commands env i ev"
  show ?thesis
  proof (cases "i = MQTT_EVENT_DATA")
    case True
    have "task_do env api (Arrives i ev) (tasks_at s cs)
        = \<lparr>tk_sys = s, tk_loop = LTop, tk_mqtt = Handling ?cs, tk_received = cs @ ?cs\<rparr>"
      using True by (simp add: tasks_at_def arrive_def)
    moreover obtain n where "task_run env api (replicate n MqttTask)
          \<lparr>tk_sys = s, tk_loop = LTop, tk_mqtt = Handling ?cs, tk_received = cs @ ?cs\<rparr>
        = tasks_at (hub_do env api a s) (cs @ ?cs)"
      using message_not_preempted [of env api s LTop ?cs "cs @ ?cs"] Mqtt True
      by (auto simp: tasks_at_def dispatch_event)
    ultimately have "task_run env api (Arrives i ev # replicate n MqttTask) (tasks_at s cs)
        = tasks_at (hub_do env api a s) (cs @ action_commands env a)" using Mqtt by simp
    then show ?thesis by (rule exI)
  next
    case False
    then have "arrive env i ev (hs_hub s) = (Waiting, mqttEventDispatch env i ev (hs_hub s))"
      by (cases i) (simp_all add: arrive_def)
    with Mqtt False show ?thesis
      by (intro exI [of _ "[Arrives i ev]"]) (simp add: tasks_at_def)
  qed
qed

text \<open>
  The transition system of the hub is contained in the task model: every run of passes, callbacks and MQTT events is
  also a run of the three tasks, which ends in the same state of the hub with the same commands received.
\<close>

theorem tasks_refine_hub:
  assumes "hub_run env api s0 cs s"
  shows "\<exists>sched. task_run env api sched (tasks_at s0 []) = tasks_at s cs"
  using assms
proof induction
  case start
  show ?case by (intro exI [of _ "[]"]) simp
next
  case (act cs s a)
  then obtain sched where "task_run env api sched (tasks_at s0 []) = tasks_at s cs" by blast
  moreover obtain more where "task_run env api more (tasks_at s cs)
      = tasks_at (hub_do env api a s) (cs @ action_commands env a)"
    using action_not_preempted by blast
  ultimately show ?case by (intro exI [of _ "sched @ more"]) simp
qed

theorem tasks_refine_hub_witness:
  "\<exists>sched. task_run one_env (map_wifi True) sched (tasks_at one_start [])
     = tasks_at (hub_do one_env (map_wifi True) one_message one_start) (action_commands one_env one_message)"
  by (rule tasks_refine_hub [OF one_run])

section \<open>A schedule\<close>

text \<open>
  A node is found; the main task connects it up to the pause after the slot has been marked as used; then a
  message arrives, and the MQTT task handles its command.
\<close>

definition pause_schedule :: "string task_action list" where
  "pause_schedule = HostTask (ScanResult [TEMPIO_SERVICE_UUID] ''aa'') # replicate 10 (MainTask None True)
     @ [Arrives MQTT_EVENT_DATA \<lparr>ev_topic_len = 5, ev_data = ''{}'', ev_data_len = 2, ev_total_data_len = 2\<rparr>]"

definition paused :: "(string, string \<rightharpoonup> string) tasks" where
  "paused = task_run one_env (map_wifi True) pause_schedule (tasks_at one_start [])"

definition one_command :: MqttCommand where
  "one_command = \<lparr>mc_target = ''aa'', mc_type = ''SET_INTERVAL'', mc_payload = [], mc_cmd_id = 9, mc_queued_at = 0\<rparr>"

lemma paused_facts:
  "tk_loop paused = LConnect (CPause ''aa'' 0)" "tk_mqtt paused = Handling [one_command]"
  "tk_received paused = [one_command]"
  "bl_writes (hb_ble (tk_hub paused)) = []"
  by code_simp+

definition overtaken :: "(string, string \<rightharpoonup> string) tasks" where
  "overtaken = task_run one_env (map_wifi True) [MqttTask] paused"

lemma overtaken_facts:
  "tk_loop overtaken = LConnect (CPause ''aa'' 0)" "tk_mqtt overtaken = Sent one_command True []"
  "tk_received overtaken = [one_command]"
  "bl_writes (hb_ble (tk_hub overtaken)) = [(7, [0x12, 9, 0, 90, 0], True)]"
  "mb_pending (pool_abs (hb_pool (tk_hub overtaken))) ''aa'' = []"
  by code_simp+

lemma one_command_packet: "packet_of (he_json one_env) one_command = Some [0x12, 9, 0, 90, 0]"
  by (simp add: packet_of_def one_command_def one_env_def one_json_def cstr_def bytes_SetInterval_def le16_def)

lemma overtaken_run:
  "overtaken = task_run one_env (map_wifi True) (pause_schedule @ [MqttTask]) (tasks_at one_start [])"
  by (simp add: overtaken_def paused_def)

end
