(* ===== verification/Task_Content.thy ===== *)
theory Task_Content
  imports Hub_Tasks
begin

text \<open>
  An interface for invariants that survive every interleaving of the hub's tasks.  It extends the one of
  \<open>Hub_Monitor\<close>: a command may also be in a local variable of the main task (taken out of the pool, not
  written yet) or of the MQTT task (received, not handled yet).  Two interpretations: no command is written
  more often than it has been received, and every string fits its buffer.
\<close>

section \<open>Commands in the hands of the tasks\<close>

fun flush_hand :: "flush_pc \<Rightarrow> MqttCommand list" where
  "flush_hand (FSend node c) = [c]"
| "flush_hand (FSent node c ok) = (if ok then [] else [c])"
| "flush_hand _ = []"

fun loop_hand :: "'adr loop_pc \<Rightarrow> MqttCommand list" where
  "loop_hand (LConnect (CFlush f)) = flush_hand f"
| "loop_hand (LFlush idx f) = flush_hand f"
| "loop_hand _ = []"

fun mqtt_hand :: "mqtt_pc \<Rightarrow> MqttCommand list" where
  "mqtt_hand Waiting = []"
| "mqtt_hand (Handling cs) = cs"
| "mqtt_hand (Sent c ok cs) = (if ok then cs else c # cs)"

definition in_hands :: "('adr, 'nvs) tasks \<Rightarrow> MqttCommand multiset" where
  "in_hands t = image_mset unstamp (mset (loop_hand (tk_loop t)) + mset (mqtt_hand (tk_mqtt t)))"

text \<open>A command is taken out of the pool only for a node whose id fits the pool's buffer.\<close>

fun flush_fits :: "flush_pc \<Rightarrow> bool" where
  "flush_fits (FSend node c) = fits 18 (cstr node)"
| "flush_fits (FSent node c ok) = fits 18 (cstr node)"
| "flush_fits _ = True"

fun loop_fits :: "'adr loop_pc \<Rightarrow> bool" where
  "loop_fits (LConnect (CFlush f)) = flush_fits f"
| "loop_fits (LFlush idx f) = flush_fits f"
| "loop_fits _ = True"

lemma pool_pop_fits: "pool_inv p \<Longrightarrow> pool_pop now p node = (Some c, p') \<Longrightarrow> fits 18 (cstr node)"
  using pool_pop_unfit [of p "cstr node" now] by (cases "fits 18 (cstr node)") (auto simp: pool_pop_cstr)

lemma pool_pushFront_bag:
  assumes "pool_inv p" and "fits 18 (cstr node)"
  shows "pool_inv (snd (pool_pushFront now p node c))"
    and "pool_cmds (snd (pool_pushFront now p node c)) \<subseteq># add_mset (unstamp c) (pool_cmds p)"
proof -
  let ?n = "cstr node"
  show "pool_inv (snd (pool_pushFront now p node c))"
    using pool.inv_pushFront [OF assms, of now c] by (simp add: pool_pushFront_cstr)
  have fin: "finite (dom (pool_abs p))" by (rule pool.finite_abs [OF assms(1)])
  have "mb_bag ((pool_abs p)(?n \<mapsto> c\<lparr>mc_queued_at := now\<rparr> # mb_pending (pool_abs p) ?n))
      = add_mset (unstamp c) (mb_bag (pool_abs p))"
    unfolding mb_bag_update [OF fin] mb_bag_split [OF fin, of ?n] by simp
  moreover obtain ok p' where "pool_pushFront now p node c = (ok, p')" by fastforce
  ultimately show "pool_cmds (snd (pool_pushFront now p node c)) \<subseteq># add_mset (unstamp c) (pool_cmds p)"
    using pool.abs_pushFront [OF assms, of now c]
    by (auto simp: pool_cmds_def pool_pushFront_cstr mb_insert_def mb_pending_def multi_add_le
        split: option.splits if_splits)
qed

section \<open>The interface\<close>

text \<open>What is known of the steps that come from outside: callbacks, and the commands of a message.\<close>

fun action_ok ::
  "('adr, 'j) hub_env \<Rightarrow> ('adr ble_event \<Rightarrow> bool) \<Rightarrow> (MqttCommand \<Rightarrow> bool) \<Rightarrow> 'adr task_action \<Rightarrow> bool" where
  "action_ok env ev_ok good (HostTask e) = ev_ok e"
| "action_ok env ev_ok good (Arrives i ev) = list_all good (event_commands env i ev)"
| "action_ok env ev_ok good _ = True"

definition task_safe ::
  "(MqttCommand \<Rightarrow> bool) \<Rightarrow> (MqttCommand list \<Rightarrow> MqttCommand multiset \<Rightarrow> 'adr hub \<Rightarrow> bool)
   \<Rightarrow> ('adr, 'nvs) tasks \<Rightarrow> bool" where
  "task_safe good I t \<longleftrightarrow> I (tk_received t) (in_hands t) (tk_hub t) \<and> loop_fits (tk_loop t)
     \<and> list_all good (mqtt_hand (tk_mqtt t))"

locale hub_tasks =
  fixes env :: "('adr, 'j) hub_env"
    and ev_ok :: "'adr ble_event \<Rightarrow> bool"
    and good :: "MqttCommand \<Rightarrow> bool"
    and I :: "MqttCommand list \<Rightarrow> MqttCommand multiset \<Rightarrow> 'adr hub \<Rightarrow> bool"
  assumes monitor: "hub_monitor env ev_ok (I rs H)"
    and pool_ok: "I rs H h \<Longrightarrow> pool_inv (hb_pool h)"
    and good_fits: "good c \<Longrightarrow> fits 18 (mc_target c)"
    and arrives: "I rs H h \<Longrightarrow> good c \<Longrightarrow> I (rs @ [c]) (add_mset (unstamp c) H) h"
    and leaves: "I rs (add_mset (unstamp c) H) h \<Longrightarrow> I rs H h"
    and taken: "I rs H h \<Longrightarrow> pool_pop now (hb_pool h) node = (Some c, p)
      \<Longrightarrow> I rs (add_mset (unstamp c) H) (h\<lparr>hb_pool := p\<rparr>)"
    and written: "I rs (add_mset (unstamp c) H) h \<Longrightarrow> packet_of (he_json env) c = Some pkt
      \<Longrightarrow> I rs H (on_ble (wrote ch pkt True) h)"
    and refused: "I rs (add_mset (unstamp c) H) h \<Longrightarrow> packet_of (he_json env) c = Some pkt
      \<Longrightarrow> I rs (add_mset (unstamp c) H) (on_ble (wrote ch pkt False) h)"
    and returned: "I rs (add_mset (unstamp c) H) h \<Longrightarrow> fits 18 (cstr node)
      \<Longrightarrow> I rs H (h\<lparr>hb_pool := snd (pool_pushFront now (hb_pool h) node c)\<rparr>)"
    and stored: "I rs (add_mset (unstamp c) H) h \<Longrightarrow> fits 18 (mc_target c)
      \<Longrightarrow> I rs H (h\<lparr>hb_pool := snd (pool_push now (hb_pool h) (mc_target c) c)\<rparr>)"

sublocale hub_tasks \<subseteq> mon: hub_monitor env ev_ok "I rs H" for rs H
  by (rule monitor)

context hub_tasks
begin

text \<open>Writing a command that a task has in hand.\<close>

lemma send_hand:
  assumes "I rs (add_mset (unstamp c) H) h" and "send_now env c h = (ok, h')"
  shows "I rs (if ok then H else add_mset (unstamp c) H) h'"
proof -
  obtain b where h': "h' = h\<lparr>hb_ble := b\<rparr>"
    and send: "trySend (he_ble env) (he_json env) c (hb_ble h) = (ok, b)"
    using assms(2) by (auto simp: send_now_def split: prod.splits)
  show ?thesis
    using send
  proof (cases rule: trySend_cases)
    case nothing
    with assms(1) show ?thesis by (simp add: h')
  next
    case (written pkt ch)
    have "I rs (if ok then H else add_mset (unstamp c) H) (h\<lparr>hb_ble := wrote ch pkt ok (hb_ble h)\<rparr>)"
      using \<open>packet_of (he_json env) c = Some pkt\<close> assms(1) hub_tasks.written [OF hub_tasks_axioms]
        refused by (cases ok) (simp_all add: on_ble_def)
    from mon.call [OF this] show ?thesis by (simp add: h' written(2))
  qed
qed

text \<open>The steps of a flush.\<close>

lemma flush:
  assumes "I rs (image_mset unstamp (mset (flush_hand f)) + H) h" and "flush_fits f"
    and "flush_step env f h = (r, h')"
  shows "case r of None \<Rightarrow> I rs H h'
    | Some f' \<Rightarrow> flush_fits f' \<and> I rs (image_mset unstamp (mset (flush_hand f')) + H) h'"
proof (cases f)
  case (FCheck node)
  with assms show ?thesis by (auto split: if_splits)
next
  case (FPop node)
  obtain r0 p where pop: "pool_pop (clock env h) (hb_pool h) node = (r0, p)" by fastforce
  have h: "I rs H h" using assms(1) FPop by simp
  show ?thesis
  proof (cases r0)
    case None
    with mon.reads [OF mon.popped_none [OF h pop [unfolded None]]] pop assms(3) FPop show ?thesis
      by (auto simp: read_clock_def hub_order)
  next
    case (Some c)
    with mon.reads [OF taken [OF h pop [unfolded Some]]] pool_pop_fits [OF pool_ok [OF h] pop [unfolded Some]]
      pop assms(3) FPop
    show ?thesis by (auto simp: read_clock_def hub_order)
  qed
next
  case (FSend node c)
  obtain ok h1 where send: "send_now env c h = (ok, h1)" by fastforce
  have "I rs (add_mset (unstamp c) H) h" using assms(1) FSend by simp
  from send_hand [OF this send] send assms(2,3) FSend show ?thesis by auto
next
  case (FSent node c ok)
  show ?thesis
  proof (cases ok)
    case True
    with assms FSent show ?thesis by auto
  next
    case False
    have "I rs (add_mset (unstamp c) H) h" "fits 18 (cstr node)" using assms(1,2) FSent False by simp_all
    from mon.reads [OF returned [OF this]] assms(3) FSent False show ?thesis
      by (auto simp: read_clock_def hub_order)
  qed
qed

text \<open>The steps of a connection that are not a flush have no command in hand.\<close>

lemma link: "P (h\<lparr>hb_ble := f (hb_ble h)\<rparr>) \<Longrightarrow> on_link f pc h = (r, h') \<Longrightarrow> r = Some pc \<and> P h'"
  by (auto simp: on_link_def)

lemma connect_quiet:
  assumes "I rs H h" and "connect_step env c h = (r, h')" and "\<nexists>f. c = CFlush f"
  shows "I rs H h'"
proof -
  have b: "I rs H (h\<lparr>hb_ble := hb_ble h\<rparr>)" using assms(1) by simp
  note call = mon.call [OF b] and same = mon.quiet_ble [OF b]
  show ?thesis
  proof (cases c)
    case (CStop addr)
    with assms(2) mon.scan_set [OF b] show ?thesis by (auto simp: on_link_def)
  next
    case (CPick addr)
    with assms(1,2) show ?thesis by (auto split: option.splits)
  next
    case (CTake addr slot)
    with assms(1,2) mon.acquire [OF b] show ?thesis
      by (auto split: option.splits prod.splits)
  next
    case (CConnect addr slot cl)
    with assms(2) call show ?thesis by (auto simp: on_link_def)
  next
    case (CDiscover addr slot cl)
    with assms(2) mon.discover [OF b] show ?thesis by (auto simp: on_link_def)
  next
    case (CDisconnect slot cl)
    with assms(2) call show ?thesis by (auto simp: on_link_def)
  next
    case (CStash slot cl)
    with assms(2) same [OF same_traffic_ops(1)] show ?thesis by (auto simp: on_link_def)
  next
    case (CRegister addr slot cl)
    with assms(2) mon.call [OF same [OF same_traffic_setNode]] show ?thesis by (auto simp: on_link_def)
  next
    case (CUse addr slot cl cfg)
    with assms(2) same [OF same_traffic_setNode] show ?thesis by (auto simp: on_link_def)
  next
    case (CPause addr slot)
    with assms(2) call show ?thesis by (auto simp: on_link_def)
  next
    case (CReady addr slot)
    have "I rs H (h\<lparr>hb_ble := hub_ready (he_ble env) slot (hb_ble h)\<rparr>)"
      using mon.write_ready [OF b] assms(1) unfolding ready_packet_def hub_ready_def
      by (simp split: option.splits)
    with assms(2) CReady show ?thesis by (auto simp: on_link_def)
  next
    case (CLed addr)
    have "same_traffic (hb_ble h) ((hb_ble h)\<lparr>bl_led := True\<rparr>)" by (simp add: same_traffic_def)
    with assms(2) same CLed show ?thesis by (auto simp: on_link_def)
  next
    case CStart
    with assms(2) mon.scan_set [OF b] show ?thesis by auto
  qed (use assms(3) in blast)
qed

text \<open>The steps of the loop.\<close>

lemma main_quiet:
  assumes "I rs H h" and "loop_step env up pc h = (r, h')"
    and "\<nexists>c. pc = LConnect c" and "\<nexists>idx f. pc = LFlush idx f"
  shows "I rs H h'"
proof -
  have b: "I rs H (h\<lparr>hb_ble := hb_ble h\<rparr>)" using assms(1) by simp
  note same = mon.quiet_ble [OF b]
  show ?thesis
  proof (cases pc)
    case LTop
    with assms(2) same [OF same_traffic_ops(3)] show ?thesis by (auto simp: on_link_def)
  next
    case LRescan
    have "same_traffic (hb_ble h) ((hb_ble h)\<lparr>bl_doScan := False\<rparr>)" by (simp add: same_traffic_def)
    from mon.scan_set [OF same [OF this]] assms LRescan show ?thesis by (auto simp: on_link_def)
  next
    case LNext
    have "I rs H (h\<lparr>hb_ble := (hb_ble h)\<lparr>bl_pendingQueue := q\<rparr>\<rparr>)" for q
      by (rule same) (simp add: same_traffic_def)
    with assms(2) LNext show ?thesis by (auto simp: Let_def split: prod.splits option.splits)
  next
    case LReports
    with assms(2) mon.got_report [OF assms(1)] show ?thesis
      by (auto simp: on_ble_def split: prod.splits option.splits)
  next
    case (LReport x)
    with assms(2) mon.publish_mqtt [OF mon.reads [OF assms(1)]] show ?thesis
      by (auto simp: read_clock_def)
  next
    case LAcks
    with assms(2) mon.got_ack [OF assms(1)] show ?thesis
      by (auto simp: on_ble_def split: prod.splits option.splits)
  next
    case LDelay
    with assms(2) mon.call [OF b] show ?thesis by (auto simp: loop_delay_def)
  qed (use assms mon.print_status mon.mqtt mon.publish_mqtt in
      \<open>auto simp: on_mqtt_def Let_def split: if_splits\<close>)
qed

lemma main:
  assumes "I rs (image_mset unstamp (mset (loop_hand pc)) + H) h" and "loop_fits pc"
    and "loop_step env up pc h = (r, h')"
  shows "case r of None \<Rightarrow> I rs H h'
    | Some pc' \<Rightarrow> loop_fits pc' \<and> I rs (image_mset unstamp (mset (loop_hand pc')) + H) h'"
proof (cases "\<exists>f idx. pc = LConnect (CFlush f) \<or> pc = LFlush idx f")
  case True
  then obtain f idx where pc: "pc = LConnect (CFlush f) \<or> pc = LFlush idx f" by blast
  obtain r0 h1 where step: "flush_step env f h = (r0, h1)" by fastforce
  have "I rs (image_mset unstamp (mset (flush_hand f)) + H) h" "flush_fits f" using assms(1,2) pc by auto
  from flush [OF this step] step assms(3) pc show ?thesis by (auto split: option.splits)
next
  case False
  then have "loop_hand pc = []" by (cases pc rule: loop_hand.cases) auto
  then have h: "I rs H h" using assms(1) by simp
  show ?thesis
  proof (cases "\<exists>c. pc = LConnect c")
    case True
    then obtain c where pc: "pc = LConnect c" by blast
    obtain r0 h1 where step: "connect_step env c h = (r0, h1)" by fastforce
    have "I rs H h1" using connect_quiet [OF h step] False pc by blast
    moreover have "loop_hand (LConnect c') = [] \<and> loop_fits (LConnect c')" if "r0 = Some c'" for c'
      using step that False pc by (cases c) (auto simp: on_link_def split: option.splits prod.splits if_splits)
    ultimately show ?thesis using step assms(3) pc by (auto split: option.splits)
  next
    case no: False
    have "I rs H h'" using main_quiet [OF h assms(3)] no False by blast
    moreover have "loop_hand pc' = [] \<and> loop_fits pc'" if "r = Some pc'" for pc'
      using assms(3) that False no
      by (cases pc) (auto simp: on_link_def Let_def split: option.splits prod.splits if_splits)
    ultimately show ?thesis by (auto split: option.splits)
  qed
qed

text \<open>The steps of the MQTT task.\<close>

lemma mqtt_task:
  assumes "I rs (image_mset unstamp (mset (mqtt_hand m)) + H) h" and "list_all good (mqtt_hand m)"
    and "mqtt_step env m h = (m', h')"
  shows "list_all good (mqtt_hand m') \<and> I rs (image_mset unstamp (mset (mqtt_hand m')) + H) h'"
proof (cases m rule: mqtt_hand.cases)
  case 1
  with assms show ?thesis by auto
next
  case (2 cs)
  show ?thesis
  proof (cases cs)
    case Nil
    with assms 2 show ?thesis by auto
  next
    case (Cons c ds)
    let ?H = "image_mset unstamp (mset ds) + H"
    have h: "I rs (add_mset (unstamp c) ?H) h" using assms(1) 2 Cons by simp
    obtain ok h1 where send: "send_now env c h = (ok, h1)" by fastforce
    have "I rs ?H (handleHubCommand env c h)"
      using leaves [OF h]
      by (simp add: handleHubCommand_def handleHubStatus_def read_clock_def mon.reads mon.publish_mqtt)
    with send_hand [OF h send] send assms(2,3) 2 Cons show ?thesis
      by (auto split: if_splits)
  qed
next
  case (3 c ok cs)
  show ?thesis
  proof (cases ok)
    case True
    with assms 3 show ?thesis by auto
  next
    case False
    let ?H = "image_mset unstamp (mset cs) + H"
    have h: "I rs (add_mset (unstamp c) ?H) h" "fits 18 (mc_target c)"
      using assms(1,2) 3 False good_fits by simp_all
    from mon.reads [OF stored [OF h]] assms(2,3) 3 False show ?thesis
      by (auto simp: read_clock_def hub_order)
  qed
qed

lemma arrive_all:
  "I rs H h \<Longrightarrow> list_all good cs \<Longrightarrow> I (rs @ cs) (image_mset unstamp (mset cs) + H) h"
proof (induction cs arbitrary: rs H)
  case (Cons c cs)
  have "I (rs @ [c]) (add_mset (unstamp c) H) h" using Cons.prems by (intro arrives) simp_all
  from Cons.IH [OF this] Cons.prems show ?case by simp
qed simp

text \<open>Every step of every task.\<close>

lemma tasks_safe:
  fixes t :: "('adr, 'nvs) tasks"
  assumes "task_safe good I t" and "action_ok env ev_ok good a"
  shows "task_safe good I (task_do env api a t)"
proof -
  let ?rs = "tk_received t" and ?h = "tk_hub t"
  let ?L = "image_mset unstamp (mset (loop_hand (tk_loop t)))"
  let ?M = "image_mset unstamp (mset (mqtt_hand (tk_mqtt t)))"
  have t: "I ?rs (?L + ?M) ?h" "loop_fits (tk_loop t)" "list_all good (mqtt_hand (tk_mqtt t))"
    using assms(1) by (simp_all add: task_safe_def in_hands_def)
  show ?thesis
  proof (cases a)
    case (MainTask serial up)
    obtain r h' where "loop_step env up (tk_loop t) ?h = (r, h')" by fastforce
    with main [OF t(1,2) this] t(3) MainTask show ?thesis
      by (auto simp: task_safe_def in_hands_def Let_def split: option.splits)
  next
    case MqttTask
    obtain m' h' where step: "mqtt_step env (tk_mqtt t) ?h = (m', h')" by fastforce
    have "I ?rs (?M + ?L) ?h" using t(1) by (simp add: add.commute)
    from mqtt_task [OF this t(3) step] step t(2) MqttTask show ?thesis
      by (auto simp: task_safe_def in_hands_def add.commute)
  next
    case (Arrives i ev)
    show ?thesis
    proof (cases "tk_mqtt t")
      case Waiting
      then have h: "I ?rs ?L ?h" using t(1) by simp
      have data: "list_all good (event_commands env i ev)" using assms(2) Arrives by simp
      show ?thesis
      proof (cases "i = MQTT_EVENT_DATA")
        case True
        with arrive_all [OF h data] data t(2) Waiting Arrives show ?thesis
          by (simp add: task_safe_def in_hands_def arrive_def add.commute)
      next
        case False
        then have "event_commands env i ev = []" by (simp add: event_commands_def)
        moreover have "I ?rs ?L (mqttEventDispatch env i ev ?h)"
          using h False by (cases i) (simp_all add: on_mqtt_def mon.mqtt)
        ultimately show ?thesis
          using t(2) Waiting Arrives False
          by (cases i) (simp_all add: task_safe_def in_hands_def arrive_def)
      qed
    qed (use assms(1) Arrives in simp_all)
  next
    case (HostTask e)
    have "I ?rs (?L + ?M) (?h\<lparr>hb_ble := hb_ble ?h\<rparr>)" using t(1) by simp
    from mon.event [OF this, of e] assms(2) t(2,3) HostTask show ?thesis
      by (simp add: task_safe_def in_hands_def on_ble_def)
  qed
qed

lemma run_safe:
  fixes t :: "('adr, 'nvs) tasks"
  assumes "task_safe good I t" and "list_all (action_ok env ev_ok good) sched"
  shows "task_safe good I (task_run env api sched t)"
  using assms by (intro task_run_keeps [of "task_safe good I"]) (auto simp: list_all_iff tasks_safe)

lemma start_safe: "I [] {#} (hs_hub s) \<Longrightarrow> task_safe good I (tasks_at s [])"
  by (simp add: task_safe_def tasks_at_def in_hands_def)

end

text \<open>A fact that does not depend on the state can be added to an invariant.\<close>

lemma hub_monitor_conj: "hub_monitor env ev_ok P \<Longrightarrow> hub_monitor env ev_ok (\<lambda>h. P h \<and> c)"
  by (cases c) (simp_all add: hub_monitor_def)

section \<open>Sent no more often than received\<close>

definition held_once :: "'j json_api \<Rightarrow> MqttCommand list \<Rightarrow> MqttCommand multiset \<Rightarrow> 'adr hub \<Rightarrow> bool" where
  "held_once js rs H h \<longleftrightarrow> sent_within js (packets js (mset rs) - packets js H) h
     \<and> packets js H \<subseteq># packets js (mset rs)"

lemma held_once_iff:
  "held_once js rs H h \<longleftrightarrow> pool_inv (hb_pool h)
     \<and> delivered (hb_ble h) + packets js (pool_cmds (hb_pool h)) + packets js H \<subseteq># packets js (mset rs)"
proof -
  have "D \<subseteq># R - X \<and> X \<subseteq># R \<longleftrightarrow> D + X \<subseteq># R" for D X R :: "byte list multiset"
    by (metis mset_subset_eq_add_right subset_eq_diff_conv subset_mset.le_diff_conv2 subset_mset.order_trans)
  then show ?thesis by (auto simp: held_once_def sent_within_def)
qed

lemma packets_unstamp [simp]: "packets js (add_mset (unstamp c) M) = packets js (add_mset c M)"
  by simp

lemma held_once_move:
  assumes "held_once js rs H h" and "pool_inv (hb_pool h')"
    and "delivered (hb_ble h') + packets js (pool_cmds (hb_pool h')) + packets js H'
      \<subseteq># delivered (hb_ble h) + packets js (pool_cmds (hb_pool h)) + packets js H"
  shows "held_once js rs H' h'"
  using assms subset_mset.order_trans [OF assms(3)] by (simp add: held_once_iff)

interpretation once_tasks: hub_tasks env "\<lambda>_. True" "\<lambda>c. fits 18 (mc_target c)" "held_once (he_json env)"
  for env :: "('adr, 'j) hub_env"
proof (rule hub_tasks.intro)
  fix rs :: "MqttCommand list" and H and h :: "'adr hub" and c pkt now node p ch
  let ?js = "he_json env"
  show "held_once ?js rs H h \<Longrightarrow> pool_inv (hb_pool h)" by (simp add: held_once_iff)
  show "held_once ?js rs H h" if "held_once ?js rs (add_mset (unstamp c) H) h"
    using that by (intro held_once_move [OF that]) (auto simp: held_once_iff add.assoc split: option.splits)
  show "held_once ?js rs H h \<Longrightarrow> held_once ?js (rs @ [c]) (add_mset (unstamp c) H) h"
    by (auto simp: held_once_iff add.assoc split: option.splits)
  show "held_once ?js rs H (on_ble (wrote ch pkt True) h)"
    if "held_once ?js rs (add_mset (unstamp c) H) h" "packet_of ?js c = Some pkt"
    using that by (intro held_once_move [OF that(1)]) (auto simp: held_once_iff on_ble_def delivered_wrote)
  show "held_once ?js rs (add_mset (unstamp c) H) (on_ble (wrote ch pkt False) h)"
    if "held_once ?js rs (add_mset (unstamp c) H) h"
    using that by (simp add: held_once_iff on_ble_def delivered_wrote)
  show "held_once ?js rs (add_mset (unstamp c) H) (h\<lparr>hb_pool := p\<rparr>)"
    if "held_once ?js rs H h" "pool_pop now (hb_pool h) node = (Some c, p)"
  proof (rule held_once_move [OF that(1)])
    have inv: "pool_inv (hb_pool h)" using that(1) by (simp add: held_once_iff)
    show "pool_inv (hb_pool (h\<lparr>hb_pool := p\<rparr>))" using pool_pop_bag(1) [OF inv that(2)] by simp
    show "delivered (hb_ble (h\<lparr>hb_pool := p\<rparr>)) + packets ?js (pool_cmds (hb_pool (h\<lparr>hb_pool := p\<rparr>)))
        + packets ?js (add_mset (unstamp c) H)
      \<subseteq># delivered (hb_ble h) + packets ?js (pool_cmds (hb_pool h)) + packets ?js H"
      using packets_mono [OF pool_pop_bag(3) [OF inv that(2) refl], of ?js] by (auto split: option.splits)
  qed
  show "held_once ?js rs H (h\<lparr>hb_pool := snd (pool_pushFront now (hb_pool h) node c)\<rparr>)"
    if "held_once ?js rs (add_mset (unstamp c) H) h" "fits 18 (cstr node)"
  proof (rule held_once_move [OF that(1)])
    have inv: "pool_inv (hb_pool h)" using that(1) by (simp add: held_once_iff)
    note bag = pool_pushFront_bag [OF inv that(2), of now c]
    show "pool_inv (hb_pool (h\<lparr>hb_pool := snd (pool_pushFront now (hb_pool h) node c)\<rparr>))" using bag(1) by simp
    show "delivered (hb_ble (h\<lparr>hb_pool := snd (pool_pushFront now (hb_pool h) node c)\<rparr>))
        + packets ?js (pool_cmds (hb_pool (h\<lparr>hb_pool := snd (pool_pushFront now (hb_pool h) node c)\<rparr>)))
        + packets ?js H
      \<subseteq># delivered (hb_ble h) + packets ?js (pool_cmds (hb_pool h)) + packets ?js (add_mset (unstamp c) H)"
      using packets_mono [OF bag(2), of ?js] by (auto split: option.splits)
  qed
  show "held_once ?js rs H (h\<lparr>hb_pool := snd (pool_push now (hb_pool h) (mc_target c) c)\<rparr>)"
    if "held_once ?js rs (add_mset (unstamp c) H) h" "fits 18 (mc_target c)"
  proof (rule held_once_move [OF that(1)])
    have inv: "pool_inv (hb_pool h)" using that(1) by (simp add: held_once_iff)
    note bag = pool_push_bag [OF inv that(2), of now c]
    show "pool_inv (hb_pool (h\<lparr>hb_pool := snd (pool_push now (hb_pool h) (mc_target c) c)\<rparr>))" using bag(1) by simp
    show "delivered (hb_ble (h\<lparr>hb_pool := snd (pool_push now (hb_pool h) (mc_target c) c)\<rparr>))
        + packets ?js (pool_cmds (hb_pool (h\<lparr>hb_pool := snd (pool_push now (hb_pool h) (mc_target c) c)\<rparr>)))
        + packets ?js H
      \<subseteq># delivered (hb_ble h) + packets ?js (pool_cmds (hb_pool h)) + packets ?js (add_mset (unstamp c) H)"
      using packets_mono [OF bag(2), of ?js] by (auto split: option.splits)
  qed
  show "hub_monitor env (\<lambda>_. True) (held_once ?js rs H)"
    unfolding held_once_def [abs_def] by (rule hub_monitor_conj) (rule once.hub_monitor_axioms)
qed simp

section \<open>Every string fits its buffer\<close>

context hub_content
begin

lemma content_tasks:
  assumes "\<And>c. good c \<Longrightarrow> fits 18 (mc_target c) \<and> C (unstamp c)"
  shows "hub_tasks env ev_ok good (\<lambda>rs H h. carries C W R A h \<and> (\<forall>c \<in># H. C c))"
proof (rule hub_tasks.intro)
  fix rs :: "MqttCommand list" and H and h :: "'a hub" and c pkt now node p ch
  show "hub_monitor env ev_ok (\<lambda>h. carries C W R A h \<and> (\<forall>c \<in># H. C c))"
    by (rule hub_monitor_conj) (rule hub_monitor_axioms)
  show "carries C W R A h \<and> (\<forall>c \<in># H. C c) \<Longrightarrow> pool_inv (hb_pool h)" by (simp add: carries_def)
  show "good c \<Longrightarrow> fits 18 (mc_target c)" using assms by blast
  show "carries C W R A h \<and> (\<forall>c \<in># H. C c) \<Longrightarrow> good c
      \<Longrightarrow> carries C W R A h \<and> (\<forall>c \<in># add_mset (unstamp c) H. C c)"
    using assms by auto
  show "carries C W R A h \<and> (\<forall>c \<in># add_mset (unstamp c) H. C c)
      \<Longrightarrow> carries C W R A h \<and> (\<forall>c \<in># H. C c)" by simp
  show "carries C W R A (h\<lparr>hb_pool := p\<rparr>) \<and> (\<forall>c \<in># add_mset (unstamp c) H. C c)"
    if h: "carries C W R A h \<and> (\<forall>c \<in># H. C c)" and pop: "pool_pop now (hb_pool h) node = (Some c, p)"
  proof -
    have inv: "pool_inv (hb_pool h)" using h by (simp add: carries_def)
    note bag = pool_pop_bag(3) [OF inv pop refl]
    have less: "pool_cmds p \<subseteq># pool_cmds (hb_pool h)"
      by (rule subset_mset.order_trans [OF multi_add_le bag])
    have "C (unstamp c)" using mset_subset_eqD [OF bag] h by (auto simp: carries_def)
    with h carries_pool [OF _ pool_pop_bag(1) [OF inv pop] less] show ?thesis by auto
  qed
  show "carries C W R A (on_ble (wrote ch pkt True) h) \<and> (\<forall>c \<in># H. C c)"
    "carries C W R A (on_ble (wrote ch pkt False) h) \<and> (\<forall>c \<in># add_mset (unstamp c) H. C c)"
    if "carries C W R A h \<and> (\<forall>c \<in># add_mset (unstamp c) H. C c)" "packet_of (he_json env) c = Some pkt"
    using that content_packet [of "unstamp c" pkt] by (simp_all add: carries_wrote)
  have enough: "carries C W R A (h\<lparr>hb_pool := q\<rparr>)"
    if "carries C W R A h" "C (unstamp c)" "pool_inv q" "pool_cmds q \<subseteq># add_mset (unstamp c) (pool_cmds (hb_pool h))" for q
    using that mset_subset_eqD [OF that(4)] by (auto simp: carries_def)
  show "carries C W R A (h\<lparr>hb_pool := snd (pool_pushFront now (hb_pool h) node c)\<rparr>) \<and> (\<forall>c \<in># H. C c)"
    if h: "carries C W R A h \<and> (\<forall>c \<in># add_mset (unstamp c) H. C c)" and node: "fits 18 (cstr node)"
  proof -
    have inv: "pool_inv (hb_pool h)" using h by (simp add: carries_def)
    from enough [OF _ _ pool_pushFront_bag [OF inv node, of now c]] h show ?thesis by simp
  qed
  show "carries C W R A (h\<lparr>hb_pool := snd (pool_push now (hb_pool h) (mc_target c) c)\<rparr>) \<and> (\<forall>c \<in># H. C c)"
    if h: "carries C W R A h \<and> (\<forall>c \<in># add_mset (unstamp c) H. C c)" and node: "fits 18 (mc_target c)"
  proof -
    have inv: "pool_inv (hb_pool h)" using h by (simp add: carries_def)
    from enough [OF _ _ pool_push_bag [OF inv node, of now c]] h show ?thesis by simp
  qed
qed

end

interpretation strings_tasks: hub_tasks env "\<lambda>_. True" cmd_fits
    "\<lambda>rs H h. strings_fit h \<and> (\<forall>c \<in># H. cmd_fits c)"
  for env :: "('adr, 'j) hub_env"
  by (rule strings.content_tasks) (simp add: cmd_fits_def unstamp_def)

section \<open>Properties\<close>

abbreviation power_on_tasks where
  "power_on_tasks env api root_ca mac wifiUp addr0 pmem rmem amem mem nvs \<equiv>
     tasks_at (hub_power_on env api root_ca mac wifiUp addr0 pmem rmem amem mem nvs) []"

lemma event_actions_ok:
  "list_all (action_ok env (\<lambda>_. True) (\<lambda>c. fits 18 (mc_target c))) sched"
  unfolding list_all_iff
proof
  fix a assume "a \<in> set sched"
  show "action_ok env (\<lambda>_. True) (\<lambda>c. fits 18 (mc_target c)) a"
    using event_commands_fit by (cases a) (auto simp: list_all_iff)
qed

lemma event_actions_fit:
  assumes "json_bounded (he_json env)"
  shows "list_all (action_ok env (\<lambda>_. True) cmd_fits) sched"
  unfolding list_all_iff
proof
  fix a assume "a \<in> set sched"
  show "action_ok env (\<lambda>_. True) cmd_fits a"
    using message_commands_cmd_fits [OF assms]
    by (cases a) (auto simp: list_all_iff event_commands_def split: if_splits)
qed

lemma count_packets_hands:
  "count (packets js (image_mset unstamp (mset cs))) pkt = length (filter (\<lambda>c. packet_of js c = Some pkt) cs)"
  using count_packets [of js "map unstamp cs" pkt] by (simp add: filter_map comp_def)

text \<open>
  C3: a command is never sent twice, however the three tasks are scheduled: its packet is written with
  success at most as often as it has been received, and the copies that are still pending or in a local
  variable of a task count as well.
\<close>

theorem scheduled_at_most_once:
  fixes env :: "('adr, 'j) hub_env" and nvs :: 'nvs
  assumes "boot_mem pmem rmem amem" and "pool_mem mem" and "pkt \<noteq> ready_packet"
    and "t = task_run env api sched (power_on_tasks env api root_ca mac wifiUp addr0 pmem rmem amem mem nvs)"
  shows "length (filter (\<lambda>(ch, p, ok). ok \<and> p = pkt) (bl_writes (hb_ble (tk_hub t))))
      + length (filter (\<lambda>c. packet_of (he_json env) c = Some pkt) (mb_pending (pool_abs (hb_pool (tk_hub t))) n))
      + length (filter (\<lambda>c. packet_of (he_json env) c = Some pkt) (loop_hand (tk_loop t) @ mqtt_hand (tk_mqtt t)))
    \<le> length (filter (\<lambda>c. packet_of (he_json env) c = Some pkt) (tk_received t))"
proof -
  let ?js = "he_json env" and ?h = "tk_hub t" and ?hands = "loop_hand (tk_loop t) @ mqtt_hand (tk_mqtt t)"
  have "held_once ?js [] {#} (boot_hub addr0 pmem rmem amem mem)"
    using pool_inv_new [OF assms(2)] by (simp add: held_once_iff boot_hub_def delivered_def ble_boot_def)
  from once_tasks.start_safe [OF once_tasks.mon.power_on [OF this]]
  have "task_safe (\<lambda>c. fits 18 (mc_target c)) (held_once ?js) t"
    unfolding assms(4) by (intro once_tasks.run_safe event_actions_ok)
  then have inv: "held_once ?js (tk_received t) (image_mset unstamp (mset ?hands)) ?h"
    by (simp add: task_safe_def in_hands_def)
  then have "image_mset unstamp (mset (mb_pending (pool_abs (hb_pool ?h)) n)) \<subseteq># pool_cmds (hb_pool ?h)"
    using mb_bag_split [OF pool.finite_abs, of "hb_pool ?h" n] by (simp add: held_once_iff pool_cmds_def)
  from count_packets_mono [OF this]
  have "length (filter (\<lambda>c. packet_of ?js c = Some pkt) (mb_pending (pool_abs (hb_pool ?h)) n))
      \<le> count (packets ?js (pool_cmds (hb_pool ?h))) pkt" .
  moreover have "count (delivered (hb_ble ?h)) pkt + count (packets ?js (pool_cmds (hb_pool ?h))) pkt
      + count (packets ?js (image_mset unstamp (mset ?hands))) pkt \<le> count (packets ?js (mset (tk_received t))) pkt"
    using inv mset_subset_eq_count by (fastforce simp: held_once_iff)
  ultimately show ?thesis
    unfolding count_packets_hands by (simp add: count_delivered [OF assms(3)] count_packets)
qed

theorem scheduled_at_most_once_witness:
  "length (filter (\<lambda>(ch, p, ok). ok \<and> p = [0x12, 9, 0, 90, 0]) (bl_writes (hb_ble (tk_hub overtaken)))) = 1
   \<and> mb_pending (pool_abs (hb_pool (tk_hub overtaken))) ''aa'' = []"
proof -
  have pkt: "[0x12, 9, 0, 90, 0] \<noteq> ready_packet"
    by (simp add: ready_packet_def bytes_HubReady_def)
  note once = scheduled_at_most_once [OF example_boot_mem example_mem_ok pkt overtaken_run [unfolded one_start_def]]
  have "length (filter (\<lambda>c. packet_of (he_json one_env) c = Some [0x12, 9, 0, 90, 0])
      (mb_pending (pool_abs (hb_pool (tk_hub overtaken))) ''aa'')) = 0"
    using once [of "''aa''"] by (simp add: overtaken_facts one_command_packet)
  then show ?thesis by (simp add: overtaken_facts)
qed

text \<open>
  C18: however the tasks are scheduled, every string fits the buffer that the source declares for it: in the
  pending commands, in the commands that a task has in a local variable, and in the queued reports and
  acknowledgements.
\<close>

theorem scheduled_strings_fit:
  fixes env :: "('adr, 'j) hub_env" and nvs :: 'nvs
  assumes "boot_mem pmem rmem amem" and "pool_mem mem" and "json_bounded (he_json env)"
    and "t = task_run env api sched (power_on_tasks env api root_ca mac wifiUp addr0 pmem rmem amem mem nvs)"
  shows "list_all (\<lambda>c. fits 18 (mc_target c) \<and> fits 16 (mc_type c) \<and> length (mc_payload c) \<le> 256)
      (mb_pending (pool_abs (hb_pool (tk_hub t))) n @ loop_hand (tk_loop t) @ mqtt_hand (tk_mqtt t))
    \<and> list_all (\<lambda>r. fits 18 (sr_node_id r) \<and> fits 8 (sr_node_type_str r)) (reports (hb_ble (tk_hub t)))
    \<and> list_all (\<lambda>a. fits 18 (ar_node_id a)) (acks (hb_ble (tk_hub t)))"
proof -
  let ?I = "\<lambda>rs H h. strings_fit h \<and> (\<forall>c \<in># H. cmd_fits c)"
  have "?I [] {#} (boot_hub addr0 pmem rmem amem mem)" using carries_boot [OF assms(1,2)] by simp
  from strings_tasks.start_safe [OF strings_tasks.mon.power_on [OF this]]
  have "task_safe cmd_fits ?I t"
    unfolding assms(4) by (intro strings_tasks.run_safe event_actions_fit [OF assms(3)])
  then have fit: "strings_fit (tk_hub t)" and hands: "\<forall>c \<in># in_hands t. cmd_fits c"
    by (simp_all add: task_safe_def)
  then have pool: "pool_inv (hb_pool (tk_hub t))" "\<And>c. c \<in># pool_cmds (hb_pool (tk_hub t)) \<Longrightarrow> cmd_fits c"
    by (simp_all add: carries_def)
  have "cmd_fits c" if "c \<in> set (mb_pending (pool_abs (hb_pool (tk_hub t))) n)" for c
    using in_mb_pending [of _ cmd_fits, OF pool that] by (simp add: cmd_fits_def unstamp_def)
  moreover have "cmd_fits c" if "c \<in> set (loop_hand (tk_loop t) @ mqtt_hand (tk_mqtt t))" for c
  proof -
    have "unstamp c \<in># in_hands t" using that by (auto simp: in_hands_def)
    with hands show ?thesis by (auto simp: cmd_fits_def unstamp_def)
  qed
  ultimately show ?thesis
    using fit by (auto simp: carries_def list_all_iff cmd_fits_def report_fits_def ack_fits_def)
qed

theorem scheduled_strings_fit_witness:
  "mqtt_hand (tk_mqtt paused) = [one_command] \<and> list_all (\<lambda>c. fits 18 (mc_target c)) (mqtt_hand (tk_mqtt paused))"
proof -
  have "json_bounded (he_json one_env)"
    by (simp add: json_bounded_def one_env_def one_json_def example_hub_env_def example_json_def)
  from scheduled_strings_fit [OF example_boot_mem example_mem_ok this paused_def [unfolded one_start_def]]
  show ?thesis by (simp add: paused_facts)
qed

end
