(* ===== verification/Task_Network.thy ===== *)
theory Task_Network
  imports Network Task_Content
begin

text \<open>
  The tasks of the hub together with its sensor nodes: the network of \<open>Network\<close> with the hub broken into the
  steps of its tasks.  Between any two steps the nodes act, and the radio delivers what it likes; the origin of
  the traffic is traced through the local variables of the tasks as well.
\<close>

section \<open>The system\<close>

record ('adr, 'nvs, 'p) task_network =
  tn_tasks :: "('adr, 'nvs) tasks"
  tn_nodes :: "nat \<Rightarrow> 'p sensor"
  tn_air :: "byte list set"

inductive task_net ::
  "'j json_api \<Rightarrow> 'p prefs_api \<Rightarrow> 'nvs wifi_api \<Rightarrow> ('adr, 'nvs, 'p) task_network \<Rightarrow> ('adr, 'nvs, 'p) task_network
   \<Rightarrow> bool" for js papi api t0 where
  start: "task_net js papi api t0 t0"
| act: "task_net js papi api t0 t \<Longrightarrow> he_json env = js \<Longrightarrow> s' = task_do env api a (tn_tasks t)
    \<Longrightarrow> nodes_run papi (hub_wrote (tk_hub s')) (tn_nodes t) (tn_air t) \<nu>' N'
    \<Longrightarrow> only_from_air N' env \<Longrightarrow> (\<And>e. a = HostTask e \<Longrightarrow> from_air N' e)
    \<Longrightarrow> task_net js papi api t0 \<lparr>tn_tasks = s', tn_nodes = \<nu>', tn_air = N'\<rparr>"

definition task_net_start :: "('adr, 'nvs) tasks \<Rightarrow> (nat \<Rightarrow> 'p) \<Rightarrow> ('adr, 'nvs, 'p) task_network" where
  "task_net_start t flash = \<lparr>tn_tasks = t, tn_nodes = \<lambda>i. sensor_boot (flash i), tn_air = {}\<rparr>"

section \<open>The invariant\<close>

definition known :: "MqttCommand list \<Rightarrow> MqttCommand \<Rightarrow> bool" where
  "known cs c \<longleftrightarrow> fits 18 (mc_target c) \<and> unstamp c \<in> unstamp ` set cs"

text \<open>
  The traffic of the hub and the commands in the hands of its tasks come from the commands \<open>cs\<close>; \<open>R\<close> and
  \<open>A\<close> hold for the queued reports and acknowledgements.
\<close>

definition traced ::
  "'j json_api \<Rightarrow> MqttCommand list \<Rightarrow> (SensorReport \<Rightarrow> bool) \<Rightarrow> (CmdAckReport \<Rightarrow> bool)
   \<Rightarrow> MqttCommand list \<Rightarrow> MqttCommand multiset \<Rightarrow> 'adr hub \<Rightarrow> bool" where
  "traced js cs R A rs H h \<longleftrightarrow>
     carries (\<lambda>c. c \<in> unstamp ` set cs) (\<lambda>pkt. pkt \<in> packets_for js cs) R A h \<and> (\<forall>c \<in># H. c \<in> unstamp ` set cs)"

definition task_net_ok :: "'j json_api \<Rightarrow> 'p prefs_api \<Rightarrow> (nat \<Rightarrow> 'p) \<Rightarrow> ('adr, 'nvs, 'p) task_network \<Rightarrow> bool" where
  "task_net_ok js papi flash t \<longleftrightarrow>
     (let cs = tk_received (tn_tasks t) in
      task_safe (known cs) (traced js cs (report_from (tn_air t)) (ack_from cs)) (tn_tasks t)
      \<and> nodes_ok papi flash (packets_for js cs) (tn_nodes t) (tn_air t))"

lemma task_safe_mono:
  assumes "task_safe good I t" and "\<And>c. good c \<Longrightarrow> good' c" and "\<And>rs H h. I rs H h \<Longrightarrow> I' rs H h"
  shows "task_safe good' I' t"
  using assms by (auto simp: task_safe_def list_all_iff)

lemma traced_mono:
  assumes "traced js cs R A rs H h" and "set cs \<subseteq> set cs'" and "\<And>r. R r \<Longrightarrow> R' r" and "\<And>a. A a \<Longrightarrow> A' a"
  shows "traced js cs' R' A' rs H h"
  using assms(1) unfolding traced_def
proof (elim conjE, intro conjI)
  assume carries: "carries (\<lambda>c. c \<in> unstamp ` set cs) (\<lambda>pkt. pkt \<in> packets_for js cs) R A h"
  show "carries (\<lambda>c. c \<in> unstamp ` set cs') (\<lambda>pkt. pkt \<in> packets_for js cs') R' A' h"
    using assms(2-4) by (intro carries_mono [OF carries]) (auto simp: packets_for_def)
qed (use assms(2) in blast)

lemma report_from_mono: "report_from N r \<Longrightarrow> N \<subseteq> N' \<Longrightarrow> report_from N' r"
  by (auto simp: report_from_def)

lemma ack_from_mono: "ack_from cs a \<Longrightarrow> set cs \<subseteq> set cs' \<Longrightarrow> ack_from cs' a"
  by (auto simp: ack_from_def)

text \<open>The interface of the tasks, for what the nodes have said, and for the writes of the hub alone.\<close>

lemma traced_tasks:
  assumes "nodes_ok papi flash (packets_for (he_json env) cs) \<nu> N" and "only_from_air N env"
  shows "hub_tasks env (from_air N) (known cs) (traced (he_json env) cs (report_from N) (ack_from cs))"
  unfolding traced_def [abs_def]
  by (rule hub_content.content_tasks [OF content_from [OF assms]]) (simp add: known_def)

lemma traced_any: "hub_tasks env (\<lambda>_. True) (known cs) (traced (he_json env) cs (\<lambda>_. True) (\<lambda>_. True))"
  unfolding traced_def [abs_def]
  by (rule hub_content.content_tasks [OF content_any]) (simp add: known_def)

text \<open>A step of a task, where \<open>cs\<close> are the commands that have arrived by its end.\<close>

lemma traced_step:
  assumes "hub_tasks env ev_ok (known cs) (traced js cs R A)" and "task_safe (known cs) (traced js cs R A) s"
    and "cs = tk_received (task_do env api a s)" and "\<And>e. a = HostTask e \<Longrightarrow> ev_ok e"
  shows "task_safe (known cs) (traced js cs R A) (task_do env api a s)"
proof (cases "\<exists>i ev. a = Arrives i ev \<and> tk_mqtt s \<noteq> Waiting")
  case True
  then have "task_do env api a s = s" by (cases "tk_mqtt s") auto
  with assms(2) show ?thesis by simp
next
  case False
  have "action_ok env ev_ok (known cs) a"
  proof (cases a)
    case (Arrives i ev)
    with False assms(3) have "cs = tk_received s @ event_commands env i ev"
      by (auto split: prod.splits)
    then show ?thesis using Arrives event_commands_fit by (auto simp: list_all_iff known_def)
  qed (use assms(4) in simp_all)
  then show ?thesis by (rule hub_tasks.tasks_safe [OF assms(1,2)])
qed

lemma task_received_mono: "set (tk_received s) \<subseteq> set (tk_received (task_do env api a s))"
  by (cases a) (auto simp: Let_def split: prod.splits mqtt_pc.splits)

lemma task_wrote_packets:
  assumes "task_safe (known cs) (traced js cs (\<lambda>_. True) (\<lambda>_. True)) s" and "he_json env = js"
    and "cs = tk_received (task_do env api a s)"
  shows "hub_wrote (tk_hub (task_do env api a s)) \<subseteq> packets_for js cs"
proof -
  have "task_safe (known cs) (traced js cs (\<lambda>_. True) (\<lambda>_. True)) (task_do env api a s)"
    using traced_step [OF traced_any [of env cs, unfolded assms(2)] assms(1,3)] by simp
  then show ?thesis
    by (auto simp: task_safe_def traced_def carries_def hub_wrote_def list_all_iff)
qed

lemma task_net_run_ok:
  assumes "task_net js papi api t0 t" and "prefs_laws papi" and "task_net_ok js papi flash t0"
  shows "task_net_ok js papi flash t"
  using assms(1)
proof induction
  case start
  then show ?case by (rule assms(3))
next
  case (act t env s' a \<nu>' N')
  let ?s = "tn_tasks t"
  define cs where "cs = tk_received s'"
  have more: "set (tk_received ?s) \<subseteq> set cs"
    unfolding cs_def act.hyps(3) by (rule task_received_mono)
  have packets: "packets_for js (tk_received ?s) \<subseteq> packets_for js cs"
    using more by (auto simp: packets_for_def)
  have safe: "task_safe (known (tk_received ?s))
      (traced js (tk_received ?s) (report_from (tn_air t)) (ack_from (tk_received ?s))) ?s"
    and nodes: "nodes_ok papi flash (packets_for js (tk_received ?s)) (tn_nodes t) (tn_air t)"
    using act.IH by (simp_all add: task_net_ok_def Let_def)
  have known: "known (tk_received ?s) c \<Longrightarrow> known cs c" for c
    using more by (auto simp: known_def)
  have "task_safe (known cs) (traced js cs (\<lambda>_. True) (\<lambda>_. True)) ?s"
    by (rule task_safe_mono [OF safe known]) (auto intro: traced_mono [OF _ more])
  from task_wrote_packets [OF this act.hyps(2), of api a] act.hyps(3)
  have "hub_wrote (tk_hub s') \<subseteq> packets_for js cs" by (simp add: cs_def)
  from nodes_run_ok [OF act.hyps(4) this assms(2) nodes_ok_mono [OF nodes packets]]
  have nodes': "nodes_ok papi flash (packets_for js cs) \<nu>' N'" and air: "tn_air t \<subseteq> N'" by simp_all
  have "task_safe (known cs) (traced js cs (report_from N') (ack_from cs)) ?s"
    by (rule task_safe_mono [OF safe known])
      (auto intro: traced_mono [OF _ more] report_from_mono [OF _ air] ack_from_mono [OF _ more])
  from traced_step [OF traced_tasks [OF _ act.hyps(5), of papi flash cs \<nu>', unfolded act.hyps(2)] this]
  have "task_safe (known cs) (traced js cs (report_from N') (ack_from cs)) s'"
    using nodes' act.hyps(3,6) by (simp add: cs_def)
  with nodes' show ?case by (simp add: task_net_ok_def cs_def Let_def)
qed

section \<open>Properties\<close>

lemma task_net_power_on:
  assumes "boot_mem pmem rmem amem" and "pool_mem mem" and "only_from_air {} env" and "prefs_laws papi"
    and "task_net (he_json env) papi api
           (task_net_start (power_on_tasks env api root_ca mac wifiUp addr0 pmem rmem amem mem nvs) flash) t"
  shows "task_net_ok (he_json env) papi flash t"
proof (rule task_net_run_ok [OF assms(5,4)])
  have nodes: "nodes_ok papi flash W (\<lambda>i. sensor_boot (flash i)) {}" for W
    by (simp add: nodes_ok_def sensor_boot_def interval_ok_def ns_boot_def known_intervals_def)
  let ?s = "hub_power_on env api root_ca mac wifiUp addr0 pmem rmem amem mem nvs"
  from hub_monitor.power_on [OF hub_content.monitor [OF content_from [OF nodes assms(3), of "[]"]]
      carries_boot [OF assms(1,2)]]
  have "traced (he_json env) [] (report_from {}) (ack_from []) [] {#} (hs_hub ?s)" by (simp add: traced_def)
  from hub_tasks.start_safe [OF traced_tasks [OF nodes assms(3), of "[]"] this] nodes
  show "task_net_ok (he_json env) papi flash (task_net_start (tasks_at ?s []) flash)"
    by (simp add: task_net_ok_def task_net_start_def tasks_at_def)
qed

text \<open>
  C4: nothing in the hub's queues is made up: however the tasks of the hub are scheduled, packets delayed,
  repeated or lost, and however often nodes restart, each queued acknowledgement reports success and carries
  the id of a SET_INTERVAL or TEST command that the hub has received, and each queued report has the values
  of a reading that a node has sent.
\<close>

theorem scheduled_traffic_is_genuine:
  assumes "boot_mem pmem rmem amem" and "pool_mem mem" and "only_from_air {} env" and "prefs_laws papi"
    and "task_net (he_json env) papi api
           (task_net_start (power_on_tasks env api root_ca mac wifiUp addr0 pmem rmem amem mem nvs) flash) t"
  shows "(\<forall>a \<in> set (acks (hb_ble (tk_hub (tn_tasks t)))). ar_success a
        \<and> (\<exists>c \<in> set (tk_received (tn_tasks t)). mc_cmd_id c = ar_cmd_id a
              \<and> cstr (mc_type c) \<in> {''SET_INTERVAL'', ''TEST''}))
    \<and> (\<forall>r \<in> set (reports (hb_ble (tk_hub (tn_tasks t)))). \<exists>sd. bytes_SensorData sd \<in> tn_air t
        \<and> sr_temperature r = sd_temp sd \<and> sr_humidity r = sd_humidity sd
        \<and> sr_ldr r = sd_ldr sd \<and> sr_battery_mv r = sd_battery_mv sd)"
  using task_net_power_on [OF assms]
  by (simp add: task_net_ok_def task_safe_def traced_def carries_def list_all_iff ack_from_def report_from_def Let_def)

text \<open>
  C16: a node never sleeps for a time nobody asked for: over any number of wake cycles, restarts and
  power losses, and any schedule of the hub's tasks, its interval is the one it found in its flash at first
  (if that was in range), the default of 60 seconds, or the clamped value of a SET_INTERVAL command that the
  hub has received.
\<close>

theorem scheduled_interval_commanded:
  assumes "boot_mem pmem rmem amem" and "pool_mem mem" and "only_from_air {} env" and "prefs_laws papi"
    and "task_net (he_json env) papi api
           (task_net_start (power_on_tasks env api root_ca mac wifiUp addr0 pmem rmem amem mem nvs) flash) t"
  shows "ns_sleepInterval (sn_state (tn_nodes t i)) \<in>
     {60, ns_sleepInterval (ns_begin papi (ns_boot (flash i)))}
     \<union> {clamp_interval (word_of_int (js_int (he_json env)
           (snd (js_parse (he_json env) (cstr (mc_payload c)))) ''interval_sec'' 60))
        | c. c \<in> set (tk_received (tn_tasks t)) \<and> cstr (mc_type c) = ''SET_INTERVAL''}"
  using task_net_power_on [OF assms]
  by (intro known_interval_commanded) (simp add: task_net_ok_def nodes_ok_def interval_ok_def Let_def)

section \<open>An example run\<close>

text \<open>
  The nodes are idle during a schedule, or the hub is at rest while they act: the hub finds a node, connects it,
  sends it a command; the node reads it and answers; the notification arrives.
\<close>

lemma task_net_idle:
  assumes "task_net js papi api t0 \<lparr>tn_tasks = s, tn_nodes = \<nu>, tn_air = N\<rparr>" and "he_json env = js"
    and "only_from_air N env" and "list_all (\<lambda>a. \<forall>e. a = HostTask e \<longrightarrow> from_air N e) sched"
  shows "task_net js papi api t0 \<lparr>tn_tasks = task_run env api sched s, tn_nodes = \<nu>, tn_air = N\<rparr>"
  using assms(1,4)
proof (induction sched arbitrary: s)
  case (Cons a sched)
  have "task_net js papi api t0 \<lparr>tn_tasks = task_do env api a s, tn_nodes = \<nu>, tn_air = N\<rparr>"
    using Cons.prems(2) assms(3)
    by (intro task_net.act [OF Cons.prems(1) assms(2) refl, of a \<nu> N, simplified]) (simp_all add: nodes_run.idle)
  from Cons.IH [OF this] Cons.prems(2) show ?case by simp
qed simp

definition talk_schedule :: "string task_action list" where
  "talk_schedule = HostTask (ScanResult [TEMPIO_SERVICE_UUID] ''aa'') # replicate 27 (MainTask None True)
     @ [Arrives MQTT_EVENT_DATA \<lparr>ev_topic_len = 5, ev_data = ''{}'', ev_data_len = 2, ev_total_data_len = 2\<rparr>, MqttTask]"

definition talked :: "(string, string \<rightharpoonup> string) tasks" where
  "talked = task_run one_env (map_wifi True) talk_schedule (tasks_at one_start [])"

definition answered :: "(string, string \<rightharpoonup> string) tasks" where
  "answered = task_do one_env (map_wifi True) (HostTask (Notified (Some 0) [0x21, 9, 0, 1] 0)) talked"

lemma answered_facts:
  "bl_writes (hb_ble (tk_hub answered)) = [(7, [0x10], True), (7, [0x12, 9, 0, 90, 0], True)]"
  "acks (hb_ble (tk_hub answered)) = [\<lparr>ar_node_id = ''aa'', ar_cmd_id = 9, ar_success = True\<rparr>]"
  "tk_received answered = [one_command]"
  by code_simp+

definition answered_net :: "(string, string \<rightharpoonup> string, string \<rightharpoonup> u16) task_network" where
  "answered_net = \<lparr>tn_tasks = answered, tn_nodes = (\<lambda>i. sensor_boot Map.empty)(0 := one_node),
     tn_air = {[0x21, 9, 0, 1]}\<rparr>"

lemma answered_run:
  "task_net (he_json one_env) map_prefs (map_wifi True) (task_net_start (tasks_at one_start []) (\<lambda>i. Map.empty)) answered_net"
proof -
  let ?t0 = "task_net_start (tasks_at one_start []) (\<lambda>i. Map.empty)"
  have "task_net (he_json one_env) map_prefs (map_wifi True) ?t0
      \<lparr>tn_tasks = tasks_at one_start [], tn_nodes = \<lambda>i. sensor_boot Map.empty, tn_air = {}\<rparr>"
    using task_net.start [of "he_json one_env" map_prefs "map_wifi True" ?t0] by (simp add: task_net_start_def)
  moreover have "list_all (\<lambda>a. \<forall>e. a = HostTask e \<longrightarrow> from_air {} e) talk_schedule"
    by (auto simp: talk_schedule_def list_all_iff)
  ultimately have sent: "task_net (he_json one_env) map_prefs (map_wifi True) ?t0
      \<lparr>tn_tasks = talked, tn_nodes = \<lambda>i. sensor_boot Map.empty, tn_air = {}\<rparr>"
    unfolding talked_def by (intro task_net_idle one_env_air refl)
  have "[0x12, 9, 0, 90, 0] \<in> hub_wrote (tk_hub answered)"
    by (auto simp: hub_wrote_def answered_facts(1))
  from one_node_runs [OF this] one_env_air show ?thesis
    unfolding answered_net_def
    by (intro task_net.act [OF sent refl, of answered]) (auto simp: answered_def simp del: task_do.simps)
qed

theorem scheduled_traffic_is_genuine_witness:
  "acks (hb_ble (tk_hub (tn_tasks answered_net))) \<noteq> []
   \<and> ar_success (hd (acks (hb_ble (tk_hub (tn_tasks answered_net)))))
   \<and> ar_cmd_id (hd (acks (hb_ble (tk_hub (tn_tasks answered_net))))) = 9"
proof -
  have some: "acks (hb_ble (tk_hub (tn_tasks answered_net))) \<noteq> []"
    by (simp add: answered_net_def answered_facts(2))
  moreover note hd_in_set [OF some]
  moreover have "tk_received (tn_tasks answered_net) = [one_command]" by (simp add: answered_net_def answered_facts(3))
  ultimately show ?thesis
    using scheduled_traffic_is_genuine [OF example_boot_mem example_mem_ok one_env_air map_prefs_laws
        answered_run [unfolded one_start_def]]
    by (auto simp: one_command_def)
qed

theorem scheduled_interval_commanded_witness:
  "ns_sleepInterval (sn_state (tn_nodes answered_net 0)) \<in> {60, 90}"
proof -
  have cmds: "tk_received (tn_tasks answered_net) = [one_command]" by (simp add: answered_net_def answered_facts(3))
  have "ns_sleepInterval (ns_begin map_prefs (ns_boot Map.empty)) = 60" by code_simp
  moreover have "clamp_interval 90 = 90" by code_simp
  ultimately show ?thesis
    using scheduled_interval_commanded [OF example_boot_mem example_mem_ok one_env_air map_prefs_laws
        answered_run [unfolded one_start_def], of 0]
    by (auto simp: cmds one_env_json one_json_def)
qed

end
