(* ===== verification/Task_Links.thy ===== *)
theory Task_Links
  imports Task_Content
begin

text \<open>
  The slots, the queues and the pool under every schedule of the three tasks: no client is lost, everything
  stays within its capacity, every command stays under its node.  The clients that a connection in progress
  has in its local variables count as well.
\<close>

section \<open>What a connection in progress holds\<close>

fun connect_held :: "'adr connect_pc \<Rightarrow> nat list" where
  "connect_held (CConnect addr slot c) = [c]"
| "connect_held (CDiscover addr slot c) = [c]"
| "connect_held (CDisconnect slot c) = [c]"
| "connect_held (CStash slot c) = [c]"
| "connect_held (CRegister addr slot c) = [c]"
| "connect_held _ = []"

fun loop_held :: "'adr loop_pc \<Rightarrow> nat list" where
  "loop_held (LConnect c) = connect_held c"
| "loop_held _ = []"

text \<open>
  Its slot stays unused until it is marked, and some slot stays without a client, so that a client whose
  connection fails can be stashed.
\<close>

definition spare_slot :: "nat \<Rightarrow> 'adr ble \<Rightarrow> bool" where
  "spare_slot slot b \<longleftrightarrow> slot < length (bl_nodes b) \<and> \<not> cn_used (bl_nodes b ! slot) \<and> (\<exists>i. free_slot i b)"

fun connect_slot :: "'adr connect_pc \<Rightarrow> 'adr ble \<Rightarrow> bool" where
  "connect_slot (CTake addr slot) b \<longleftrightarrow> slot < length (bl_nodes b) \<and> \<not> cn_used (bl_nodes b ! slot)"
| "connect_slot (CConnect addr slot c) b = spare_slot slot b"
| "connect_slot (CDiscover addr slot c) b = spare_slot slot b"
| "connect_slot (CDisconnect slot c) b = spare_slot slot b"
| "connect_slot (CStash slot c) b = spare_slot slot b"
| "connect_slot (CRegister addr slot c) b = spare_slot slot b"
| "connect_slot (CUse addr slot c cfg) b \<longleftrightarrow> slot < length (bl_nodes b)
     \<and> cn_client (bl_nodes b ! slot) = Some c \<and> \<not> cn_used (bl_nodes b ! slot)"
| "connect_slot _ b = True"

fun loop_slot :: "'adr loop_pc \<Rightarrow> 'adr ble \<Rightarrow> bool" where
  "loop_slot (LConnect c) b = connect_slot c b"
| "loop_slot _ b = True"

text \<open>
  The clients of \<open>lost\<close> are in no slot and in no variable.  There are none as long as the slot of the
  connection has no client of its own, and this holds when the slot is still the first unused one at the
  moment when the client is taken (\<open>in_time\<close>).
\<close>

definition links_ok :: "nat list \<Rightarrow> 'adr loop_pc \<Rightarrow> 'adr ble \<Rightarrow> bool" where
  "links_ok lost pc b \<longleftrightarrow> ble_inv (loop_held pc @ lost) b \<and> loop_slot pc b"

fun connect_clean :: "'adr connect_pc \<Rightarrow> 'adr ble \<Rightarrow> bool" where
  "connect_clean (CConnect addr slot c) b = free_slot slot b"
| "connect_clean (CDiscover addr slot c) b = free_slot slot b"
| "connect_clean (CDisconnect slot c) b = free_slot slot b"
| "connect_clean (CStash slot c) b = free_slot slot b"
| "connect_clean (CRegister addr slot c) b = free_slot slot b"
| "connect_clean _ b = True"

fun loop_clean :: "'adr loop_pc \<Rightarrow> 'adr ble \<Rightarrow> bool" where
  "loop_clean (LConnect c) b = connect_clean c b"
| "loop_clean _ b = True"

fun in_time :: "'adr loop_pc \<Rightarrow> 'adr ble \<Rightarrow> bool" where
  "in_time (LConnect (CTake addr slot)) b \<longleftrightarrow> findEmptySlot b = Some slot"
| "in_time _ b = True"

lemma spare_slot_shrink: "spare_slot slot b \<Longrightarrow> slots_shrink b b' \<Longrightarrow> spare_slot slot b'"
  using free_slot_shrink by (auto simp: spare_slot_def slots_shrink_def)

lemma spare_slot_call: "spare_slot slot b \<Longrightarrow> spare_slot slot (ble_call env b)"
  by (erule spare_slot_shrink) (rule slots_shrink_call)

lemma links_ok_shrink:
  assumes "links_ok lost pc b" and "slots_shrink b b'"
    and "ble_inv (loop_held pc @ lost) b \<Longrightarrow> ble_inv (loop_held pc @ lost) b'"
  shows "links_ok lost pc b' \<and> (loop_clean pc b \<longrightarrow> loop_clean pc b')"
proof -
  have "connect_slot c b \<Longrightarrow> connect_slot c b'" for c
    using assms(2) by (cases c) (auto intro: spare_slot_shrink simp: slots_shrink_def)
  moreover have "connect_clean c b \<Longrightarrow> connect_clean c b'" for c
    using assms(2) by (cases c) (auto intro: free_slot_shrink)
  ultimately show ?thesis using assms by (cases pc) (auto simp: links_ok_def)
qed

text \<open>What the other tasks do to the slots, and a write of the main task.\<close>

lemma send_now_ble:
  assumes "send_now env c h = (ok, h')"
  shows "slots_shrink (hb_ble h) (hb_ble h')" and "ble_inv held (hb_ble h) \<Longrightarrow> ble_inv held (hb_ble h')"
    and "hb_pool h' = hb_pool h"
  using assms trySend_shrink [of "hb_ble h" "he_ble env" "he_json env" c]
    trySend_inv [of held "hb_ble h" "he_ble env" "he_json env" c]
  by (auto simp: send_now_def split: prod.splits)

lemma mqtt_step_ble:
  assumes "mqtt_step env m h = (m', h')"
  shows "slots_shrink (hb_ble h) (hb_ble h') \<and> (ble_inv held (hb_ble h) \<longrightarrow> ble_inv held (hb_ble h'))"
proof -
  have hub: "hb_ble (handleHubCommand env c h) = hb_ble h" for c
    by (simp add: handleHubCommand_def handleHubStatus_def publish_def read_clock_def)
  show ?thesis
    using assms send_now_ble(1,2) hub
    by (cases "(env, m, h)" rule: mqtt_step.cases)
      (auto simp: read_clock_def split: if_splits prod.splits)
qed

lemma flush_step_ble:
  assumes "flush_step env f h = (r, h')"
  shows "slots_shrink (hb_ble h) (hb_ble h') \<and> (ble_inv held (hb_ble h) \<longrightarrow> ble_inv held (hb_ble h'))"
  using assms send_now_ble(1,2)
  by (cases f) (auto simp: read_clock_def Let_def split: if_splits prod.splits option.splits)

section \<open>The main task\<close>

text \<open>The client comes from any unused slot, or it is new; then no unused slot has one.\<close>

lemma acquireClient_spare:
  assumes "ble_inv held b" and "slot < length (bl_nodes b)" and "\<not> cn_used (bl_nodes b ! slot)"
    and "acquireClient env b = (r, b1)"
  shows "case r of None \<Rightarrow> ble_inv held b1 | Some c \<Rightarrow> ble_inv (c # held) b1 \<and> spare_slot slot b1"
proof (cases "findSlotIndex (\<lambda>n. \<not> cn_used n \<and> cn_client n \<noteq> None) b")
  case None
  then have "free_slot slot b" using assms(2,3) by (auto simp: findSlotIndex_def first_index_None free_slot_def)
  then have "spare_slot slot (b\<lparr>bl_created := Suc (bl_created b)\<rparr>)" by (auto simp: spare_slot_def free_slot_def)
  from spare_slot_call [OF this] None assms(1,4) ble_inv_new_client [OF assms(1)] show ?thesis
    by (auto simp: acquireClient_def findReusableClient_def ble_call_inv split: if_splits)
next
  case (Some j)
  note jD = findSlotIndex_SomeD [OF Some]
  obtain c where c: "cn_client (bl_nodes b ! j) = Some c" using jD(2) by auto
  let ?b1 = "setNode j (cn_client_update (\<lambda>_. None)) b"
  have "ble_inv (c # held) ?b1"
    using jD(2) ble_inv_node [OF assms(1) jD(1)]
    by (intro setNode_take_client [OF assms(1) jD(1) c]) (auto simp: node_ok_def)
  moreover have "free_slot j ?b1" using jD by (simp add: free_slot_def setNode_def)
  then have "spare_slot slot ?b1"
    using assms(2,3) by (cases "j = slot") (auto simp: spare_slot_def setNode_def)
  ultimately show ?thesis
    using Some assms(4) by (auto simp: acquireClient_def findReusableClient_def c)
qed

text \<open>A client that is put into a slot which has one already replaces it.\<close>

lemma setNode_replace_client:
  assumes "ble_inv (c # held) b" and "i < length (bl_nodes b)"
    and "cn_client (bl_nodes b ! i) = Some d" and "cn_client (f (bl_nodes b ! i)) = Some c"
    and "node_ok (f (bl_nodes b ! i))"
  shows "ble_inv (d # held) (setNode i f b)"
  using assms clients_split(1) [OF assms(2)] clients_split(2) [OF assms(2), of "f (bl_nodes b ! i)"]
  by (auto simp: ble_inv_def setNode_def queues_ok_def dest!: set_list_update_subset)

definition links_next :: "nat list \<Rightarrow> 'adr connect_pc option \<Rightarrow> 'adr ble \<Rightarrow> bool" where
  "links_next lost r b \<longleftrightarrow>
     (case r of None \<Rightarrow> ble_inv lost b | Some c \<Rightarrow> ble_inv (connect_held c @ lost) b \<and> connect_slot c b)"

definition clean_next :: "'adr connect_pc option \<Rightarrow> 'adr ble \<Rightarrow> bool" where
  "clean_next r b \<longleftrightarrow> (case r of None \<Rightarrow> True | Some c \<Rightarrow> connect_clean c b)"

lemma register_inv:
  assumes "ble_inv (cl # lost) b" and "spare_slot slot b"
  shows "ble_inv (case cn_client (bl_nodes b ! slot) of None \<Rightarrow> lost | Some d \<Rightarrow> d # lost)
    (setNode slot (\<lambda>n. n\<lparr>cn_client := Some cl\<rparr>) b)"
proof -
  have slot: "slot < length (bl_nodes b)" using assms(2) by (simp add: spare_slot_def)
  then show ?thesis
    using assms(2) ble_inv_node [OF assms(1) slot]
    by (auto simp: node_ok_def spare_slot_def intro: setNode_put_client [OF assms(1) slot]
        setNode_replace_client [OF assms(1) slot] split: option.splits)
qed

lemma register_links:
  assumes "ble_inv (cl # lost) b" and "spare_slot slot b"
  shows "\<exists>lost'. links_next lost' (Some (CUse addr slot cl cfg))
      (ble_call e (setNode slot (\<lambda>n. n\<lparr>cn_client := Some cl\<rparr>) b)) \<and> (free_slot slot b \<longrightarrow> lost' = lost)"
proof -
  let ?b1 = "setNode slot (\<lambda>n. n\<lparr>cn_client := Some cl\<rparr>) b"
  let ?lost = "case cn_client (bl_nodes b ! slot) of None \<Rightarrow> lost | Some d \<Rightarrow> d # lost"
  have "slots_shrink ?b1 (ble_call e ?b1)" by (rule slots_shrink_call)
  with register_inv [OF assms] have "links_next ?lost (Some (CUse addr slot cl cfg)) (ble_call e ?b1)"
    using assms(2) by (auto simp: links_next_def spare_slot_def ble_call_inv slots_shrink_def setNode_def)
  then show ?thesis by (intro exI [of _ ?lost]) (simp add: free_slot_def)
qed

lemma connect_step_links:
  assumes "ble_inv (connect_held c @ lost) (hb_ble h)" and "connect_slot c (hb_ble h)"
    and "connect_step env c h = (r, h')"
  shows "\<exists>lost'. links_next lost' r (hb_ble h')
    \<and> (connect_clean c (hb_ble h) \<and> in_time (LConnect c) (hb_ble h) \<longrightarrow> lost' = lost \<and> clean_next r (hb_ble h'))"
proof -
  let ?e = "he_ble env" and ?b = "hb_ble h"
  have stays: ?thesis
    if "links_next lost r (hb_ble h')"
      and "connect_clean c ?b \<Longrightarrow> in_time (LConnect c) ?b \<Longrightarrow> clean_next r (hb_ble h')"
    using that by blast
  show ?thesis
  proof (cases c)
    case (CPick addr)
    with assms show ?thesis
      by (intro stays) (auto simp: links_next_def clean_next_def dest: findEmptySlot_Some split: option.splits)
  next
    case (CTake addr slot)
    obtain r0 b1 where acq: "acquireClient ?e ?b = (r0, b1)" by fastforce
    have slot: "slot < length (bl_nodes ?b)" "\<not> cn_used (bl_nodes ?b ! slot)" and inv: "ble_inv lost ?b"
      using assms(1,2) CTake by simp_all
    from acquireClient_spare [OF inv slot acq] acquireClient_inv [OF inv _ acq, of slot] acq CTake assms(3)
    show ?thesis
      by (intro stays) (auto simp: links_next_def clean_next_def split: option.splits)
  next
    case (CDiscover addr slot cl)
    let ?b1 = "snd (discoverAndSubscribe ?e ?b)"
    have "ble_inv (cl # lost) ?b1 \<and> spare_slot slot ?b1"
      using assms(1,2) CDiscover
      by (intro discoverAndSubscribe_keeps [of "\<lambda>b. ble_inv (cl # lost) b \<and> spare_slot slot b"])
        (auto intro: ble_call_inv spare_slot_call)
    moreover have "free_slot slot ?b \<Longrightarrow> free_slot slot ?b1"
      by (rule discoverAndSubscribe_keeps [of "free_slot slot"]) (rule free_slot_call)
    ultimately show ?thesis
      using assms(3) CDiscover by (intro stays) (auto simp: on_link_def links_next_def clean_next_def)
  next
    case (CStash slot cl)
    with assms(1,2) obtain i where "ble_inv (cl # lost) ?b" "free_slot i ?b" by (auto simp: spare_slot_def)
    from stashClient_inv [OF this] assms(3) CStash show ?thesis
      by (intro stays) (auto simp: on_link_def links_next_def clean_next_def)
  next
    case (CRegister addr slot cl)
    with assms(1,2) have inv: "ble_inv (cl # lost) ?b" "spare_slot slot ?b" by simp_all
    obtain lost' where "links_next lost' r (hb_ble h')" "free_slot slot ?b \<longrightarrow> lost' = lost"
      using register_links [OF inv, of addr "be_characteristic ?e TEMPIO_SERVICE_UUID TEMPIO_CHAR_CONFIG_UUID (bl_calls ?b)" ?e] assms(3) CRegister
      by (auto simp: on_link_def)
    then show ?thesis using CRegister assms(3) by (auto simp: on_link_def clean_next_def)
  next
    case (CUse addr slot cl cfg)
    then have "ble_inv lost (setNode slot (\<lambda>n. n\<lparr>cn_configChar := cfg, cn_addr := addr, cn_used := True\<rparr>) ?b)"
      using assms(1,2) by (intro setNode_same_client) (auto simp: node_ok_def)
    with assms(3) CUse show ?thesis by (intro stays) (auto simp: on_link_def links_next_def clean_next_def)
  next
    case (CFlush f)
    obtain r0 h1 where step: "flush_step env f h = (r0, h1)" by fastforce
    from flush_step_ble [OF this, of lost] assms CFlush step show ?thesis
      by (intro stays) (auto simp: links_next_def clean_next_def split: option.splits)
  qed ((rule stays; use assms in \<open>auto simp: on_link_def links_next_def clean_next_def scan_set_inv ble_call_inv
      hub_ready_inv spare_slot_call free_slot_call\<close>)+)
qed

lemma loop_step_links:
  assumes "links_ok lost pc (hb_ble h)" and "loop_step env up pc h = (r, h')"
  defines "pc' \<equiv> (case r of None \<Rightarrow> LTop | Some pc' \<Rightarrow> pc')"
  shows "\<exists>lost'. links_ok lost' pc' (hb_ble h')
    \<and> (loop_clean pc (hb_ble h) \<and> in_time pc (hb_ble h) \<longrightarrow> lost' = lost \<and> loop_clean pc' (hb_ble h'))"
proof -
  let ?b = "hb_ble h" and ?b' = "hb_ble h'"
  have quiet: ?thesis if "ble_inv lost ?b'" and "loop_held pc' = []" and "\<And>b. loop_slot pc' b \<and> loop_clean pc' b"
    using that by (intro exI [of _ lost]) (simp add: links_ok_def)
  have inv: "ble_inv lost ?b" if "loop_held pc = []" using assms(1) that by (simp add: links_ok_def)
  show ?thesis
  proof (cases pc)
    case (LConnect c)
    obtain r0 h1 where step: "connect_step env c h = (r0, h1)" by fastforce
    from connect_step_links [OF _ _ step, of lost] assms(1,2) LConnect step show ?thesis
      unfolding pc'_def by (cases r0) (auto simp: links_ok_def links_next_def clean_next_def)
  next
    case (LFlush idx f)
    obtain r0 h1 where step: "flush_step env f h = (r0, h1)" by fastforce
    from flush_step_ble [OF step, of lost] inv assms(2) LFlush step show ?thesis
      by (intro quiet) (auto simp: pc'_def split: option.splits)
  next
    case LNext
    obtain r0 q where pop: "tsq_pop PENDING_MAX (bl_pendingQueue ?b) = (r0, q)" by fastforce
    from pop_pending(1) [OF inv pop] assms(2) LNext pop show ?thesis
      by (intro quiet) (auto simp: pc'_def Let_def split: option.splits)
  next
    case LReports
    obtain r0 b where get: "bleGetPendingReport ?b = (r0, b)" by fastforce
    have i: "ble_inv lost ?b" using inv LReports by simp
    then have q: "tsq_inv REPORT_QUEUE_MAX (bl_reportQueue ?b)" by (simp add: ble_inv_def queues_ok_def)
    have "ble_inv lost b"
      using ble_inv_reportQueue [OF i bleGetPendingReport_cases(1) [OF q get]] bleGetPendingReport_cases(2) [OF q get]
      by simp
    with assms(2) LReports get show ?thesis by (intro quiet) (auto simp: pc'_def split: option.splits)
  next
    case LAcks
    obtain r0 b where get: "bleGetPendingAck ?b = (r0, b)" by fastforce
    have i: "ble_inv lost ?b" using inv LAcks by simp
    then have q: "tsq_inv CMD_PENDING_PER_NODE (bl_ackQueue ?b)" by (simp add: ble_inv_def queues_ok_def)
    have "ble_inv lost b"
      using ble_inv_ackQueue [OF i bleGetPendingAck_cases(1) [OF q get]] bleGetPendingAck_cases(2) [OF q get]
      by simp
    with assms(2) LAcks get show ?thesis by (intro quiet) (auto simp: pc'_def split: option.splits)
  next
    case LStatus
    with assms(2) have "ble_inv lost ?b" "h' = printStatus env h" "r = Some LMqtt" using inv by auto
    then show ?thesis by (intro quiet) (auto simp: pc'_def printStatus_def read_clock_def Let_def)
  qed ((rule quiet; use inv assms(2) in \<open>auto simp: pc'_def on_link_def cleanupDisconnected_inv scan_set_inv
      loop_delay_def ble_call_inv publish_def read_clock_def on_mqtt_def Let_def split: if_splits\<close>)+)
qed

section \<open>The pool\<close>

text \<open>Every command under its node: in the pool, and in the hand of a flush.\<close>

fun flush_target :: "flush_pc \<Rightarrow> bool" where
  "flush_target (FSend node c) \<longleftrightarrow> fits 18 (cstr node) \<and> mc_target c = cstr node"
| "flush_target (FSent node c ok) \<longleftrightarrow> fits 18 (cstr node) \<and> mc_target c = cstr node"
| "flush_target _ = True"

fun loop_target :: "'adr loop_pc \<Rightarrow> bool" where
  "loop_target (LConnect (CFlush f)) = flush_target f"
| "loop_target (LFlush idx f) = flush_target f"
| "loop_target _ = True"

definition pool_filed :: "PendingPool \<Rightarrow> bool" where
  "pool_filed p \<longleftrightarrow> pool_inv p \<and> targets_ok p"

lemma pool_filed_pop:
  assumes "pool_filed p" and "pool_pop now p node = (r, p')"
  shows "pool_filed p'" and "r = Some c \<Longrightarrow> fits 18 (cstr node) \<and> mc_target c = cstr node"
proof -
  let ?n = "cstr node"
  have inv: "pool_inv p" and targets: "targets_ok p" using assms(1) by (simp_all add: pool_filed_def)
  have pop: "pool_pop now p ?n = (r, p')" using assms(2) by (simp add: pool_pop_cstr)
  have "pool_filed p' \<and> (r = Some c \<longrightarrow> fits 18 ?n \<and> mc_target c = ?n)"
  proof (cases "fits 18 ?n")
    case False
    then have "(r, p') = (None, p)" using pool_pop_unfit [OF inv] pop by simp
    with assms(1) show ?thesis by simp
  next
    case True
    show ?thesis
    proof (cases r)
      case None
      note popD = pool.pop_NoneD [OF inv True pop [unfolded None]]
      have "targets_ok p'" unfolding targets_ok_def popD(2) using targets by (simp add: targets_ok_def)
      with None popD(1) show ?thesis by (simp add: pool_filed_def)
    next
      case (Some d)
      note popD = pool.pop_SomeD [OF inv True pop [unfolded Some]]
      obtain old cs where p: "pool_abs p ?n = Some (old @ d # cs)" and p': "pool_abs p' = (pool_abs p)(?n \<mapsto> cs)"
        using popD(3) by blast
      have all: "list_all (\<lambda>c. mc_target c = ?n) (old @ d # cs)"
        using targets p unfolding targets_ok_def by blast
      have "targets_ok p'" unfolding targets_ok_def p' using targets all by (auto simp: targets_ok_def)
      with Some True all popD(1) show ?thesis by (auto simp: pool_filed_def)
    qed
  qed
  then show "pool_filed p'" "r = Some c \<Longrightarrow> fits 18 ?n \<and> mc_target c = ?n" by blast+
qed

lemma targets_ok_insert:
  assumes "targets_ok p" and "pool_abs p' \<in> {pool_abs p, (pool_abs p)(node \<mapsto> cs)}"
    and "list_all (\<lambda>c. mc_target c = node) cs"
  shows "targets_ok p'"
  using assms by (auto simp: targets_ok_def split: if_splits)

lemma pool_filed_pushFront:
  assumes "pool_filed p" and "fits 18 (cstr node)" and "mc_target c = cstr node"
  shows "pool_filed (snd (pool_pushFront now p node c))"
proof -
  let ?n = "cstr node"
  have inv: "pool_inv p" and targets: "targets_ok p" using assms(1) by (simp_all add: pool_filed_def)
  obtain ok p' where push: "pool_pushFront now p ?n c = (ok, p')" by fastforce
  have "pool_abs p' \<in> {pool_abs p, (pool_abs p)(?n \<mapsto> c\<lparr>mc_queued_at := now\<rparr> # mb_pending (pool_abs p) ?n)}"
    using pool.abs_pushFront [OF inv assms(2), of now c] push
    by (auto simp: mb_insert_def mb_pending_def split: option.splits if_splits)
  moreover have "list_all (\<lambda>c. mc_target c = ?n) (c\<lparr>mc_queued_at := now\<rparr> # mb_pending (pool_abs p) ?n)"
    using targets_ok_pending [OF targets] assms(3) by (auto simp: list_all_iff)
  ultimately have "targets_ok p'" by (rule targets_ok_insert [OF targets])
  then show ?thesis
    using pool.inv_pushFront [OF inv assms(2), of now c] push by (simp add: pool_filed_def pool_pushFront_cstr)
qed

lemma pool_filed_push:
  assumes "pool_filed p" and "fits 18 (mc_target c)"
  shows "pool_filed (snd (pool_push now p (mc_target c) c))"
proof -
  let ?n = "mc_target c"
  have inv: "pool_inv p" and targets: "targets_ok p" using assms(1) by (simp_all add: pool_filed_def)
  obtain ok p' where push: "pool_push now p ?n c = (ok, p')" by fastforce
  have "pool_abs p' \<in> {pool_abs p, (pool_abs p)(?n \<mapsto> mb_pending (pool_abs p) ?n @ [c\<lparr>mc_queued_at := now\<rparr>])}"
    using pool.abs_push [OF inv assms(2), of now c] push
    by (auto simp: mb_insert_def mb_pending_def split: option.splits if_splits)
  moreover have "list_all (\<lambda>d. mc_target d = ?n) (mb_pending (pool_abs p) ?n @ [c\<lparr>mc_queued_at := now\<rparr>])"
    using targets_ok_pending [OF targets] by (auto simp: list_all_iff)
  ultimately have "targets_ok p'" by (rule targets_ok_insert [OF targets])
  then show ?thesis
    using pool.inv_push [OF inv assms(2), of now c] push by (simp add: pool_filed_def)
qed

lemma flush_step_filed:
  assumes "pool_filed (hb_pool h)" and "flush_target f" and "flush_step env f h = (r, h')"
  shows "pool_filed (hb_pool h') \<and> (\<forall>f'. r = Some f' \<longrightarrow> flush_target f')"
proof (cases f)
  case (FPop node)
  obtain r0 p where pop: "pool_pop (clock env h) (hb_pool h) node = (r0, p)" by fastforce
  from pool_filed_pop [OF assms(1) this] assms(3) FPop pop show ?thesis
    by (auto simp: read_clock_def Let_def split: option.splits)
next
  case (FSent node c ok)
  with assms show ?thesis by (auto simp: read_clock_def pool_filed_pushFront split: if_splits)
qed (use assms in \<open>auto split: if_splits prod.splits dest: send_now_ble(3)\<close>)

lemma loop_step_pool:
  assumes "loop_step env up pc h = (r, h')" and "\<nexists>f idx. pc = LConnect (CFlush f) \<or> pc = LFlush idx f"
  shows "hb_pool h' = hb_pool h \<and> (\<forall>pc'. r = Some pc' \<longrightarrow> loop_target pc')"
proof (cases pc)
  case (LConnect c)
  with assms show ?thesis
    by (cases c) (auto simp: on_link_def split: option.splits prod.splits if_splits)
next
  case LStatus
  with assms show ?thesis by (auto simp: printStatus_def read_clock_def Let_def)
qed (use assms in \<open>auto simp: on_link_def publish_def read_clock_def on_mqtt_def loop_delay_def Let_def
      split: option.splits prod.splits if_splits\<close>)

lemma loop_step_filed:
  assumes "pool_filed (hb_pool h)" and "loop_target pc" and "loop_step env up pc h = (r, h')"
  shows "pool_filed (hb_pool h') \<and> (\<forall>pc'. r = Some pc' \<longrightarrow> loop_target pc')"
proof (cases "\<exists>f idx. pc = LConnect (CFlush f) \<or> pc = LFlush idx f")
  case True
  then obtain f idx where pc: "pc = LConnect (CFlush f) \<or> pc = LFlush idx f" by blast
  obtain r0 h1 where step: "flush_step env f h = (r0, h1)" by fastforce
  have "flush_target f" using assms(2) pc by auto
  from flush_step_filed [OF assms(1) this step] step assms(3) pc show ?thesis
    by (auto split: option.splits)
next
  case False
  from loop_step_pool [OF assms(3) this] assms(1) show ?thesis by simp
qed

lemma mqtt_step_filed:
  assumes "pool_filed (hb_pool h)" and "list_all (\<lambda>c. fits 18 (mc_target c)) (mqtt_hand m)"
    and "mqtt_step env m h = (m', h')"
  shows "pool_filed (hb_pool h') \<and> list_all (\<lambda>c. fits 18 (mc_target c)) (mqtt_hand m')"
  using assms
  by (cases "(env, m, h)" rule: mqtt_step.cases)
    (auto simp: read_clock_def pool_filed_push split: if_splits prod.splits dest: send_now_ble(3))

section \<open>Every schedule\<close>

definition tasks_ok :: "('adr, 'nvs) tasks \<Rightarrow> bool" where
  "tasks_ok t \<longleftrightarrow> pool_filed (hb_pool (tk_hub t)) \<and> loop_target (tk_loop t) \<and> list_all (\<lambda>c. fits 18 (mc_target c)) (mqtt_hand (tk_mqtt t))"

lemma mqttEvent_quiet: "i \<noteq> MQTT_EVENT_DATA
    \<Longrightarrow> hb_ble (mqttEventDispatch env i ev h) = hb_ble h \<and> hb_pool (mqttEventDispatch env i ev h) = hb_pool h"
  by (cases i) (simp_all add: on_mqtt_def)

lemma arrive_quiet:
  assumes "arrive env i ev h = (m, h')"
  shows "hb_ble h' = hb_ble h \<and> hb_pool h' = hb_pool h
    \<and> mqtt_hand m = (if i = MQTT_EVENT_DATA then event_commands env i ev else [])"
  using assms mqttEvent_quiet [of i env ev h] by (cases i) (auto simp: arrive_def)

lemma task_do_arrives:
  "task_do env api (Arrives i ev) t = t \<or> tk_mqtt t = Waiting"
  by (cases "tk_mqtt t") simp_all

lemma task_do_ok:
  assumes "tasks_ok t"
  shows "tasks_ok (task_do env api a t)"
proof (cases a)
  case (MainTask serial up)
  obtain r h' where step: "loop_step env up (tk_loop t) (tk_hub t) = (r, h')" by fastforce
  have "pool_filed (hb_pool h') \<and> (\<forall>pc'. r = Some pc' \<longrightarrow> loop_target pc')"
    using assms by (intro loop_step_filed [OF _ _ step]) (simp_all add: tasks_ok_def)
  then show ?thesis
    using assms step MainTask by (cases r) (simp_all add: tasks_ok_def Let_def)
next
  case MqttTask
  obtain m' h' where step: "mqtt_step env (tk_mqtt t) (tk_hub t) = (m', h')" by fastforce
  have "pool_filed (hb_pool h') \<and> list_all (\<lambda>c. fits 18 (mc_target c)) (mqtt_hand m')"
    using assms by (intro mqtt_step_filed [OF _ _ step]) (simp_all add: tasks_ok_def)
  then show ?thesis using step assms MqttTask by (simp add: tasks_ok_def)
next
  case (Arrives i ev)
  obtain m h' where arr: "arrive env i ev (tk_hub t) = (m, h')" by fastforce
  have "list_all (\<lambda>c. fits 18 (mc_target c)) (event_commands env i ev)"
    using event_commands_fit by (auto simp: list_all_iff)
  with arrive_quiet [OF arr] arr assms task_do_arrives [of env api i ev t] Arrives show ?thesis
    by (auto simp: tasks_ok_def)
next
  case (HostTask e)
  with assms show ?thesis by (simp add: tasks_ok_def on_ble_def)
qed

text \<open>
  The slots.  A connection that is in time takes a client while the slot it has found is still the first
  unused one: no earlier slot has been freed by a callback between the two calls.
\<close>

fun action_in_time :: "'adr task_action \<Rightarrow> ('adr, 'nvs) tasks \<Rightarrow> bool" where
  "action_in_time (MainTask serial wifiUp) t = in_time (tk_loop t) (hb_ble (tk_hub t))"
| "action_in_time _ t = True"

fun schedule_in_time ::
  "('adr, 'j) hub_env \<Rightarrow> 'nvs wifi_api \<Rightarrow> 'adr task_action list \<Rightarrow> ('adr, 'nvs) tasks \<Rightarrow> bool" where
  "schedule_in_time env api [] t = True"
| "schedule_in_time env api (a # as) t \<longleftrightarrow> action_in_time a t \<and> schedule_in_time env api as (task_do env api a t)"

definition links_at :: "nat list \<Rightarrow> ('adr, 'nvs) tasks \<Rightarrow> bool" where
  "links_at lost t \<longleftrightarrow> links_ok lost (tk_loop t) (hb_ble (tk_hub t))"

definition clean_at :: "('adr, 'nvs) tasks \<Rightarrow> bool" where
  "clean_at t \<longleftrightarrow> loop_clean (tk_loop t) (hb_ble (tk_hub t))"

lemma links_at_shrink:
  assumes "links_at lost t" and "tk_loop t' = tk_loop t" and "slots_shrink (hb_ble (tk_hub t)) (hb_ble (tk_hub t'))"
    and "\<And>held. ble_inv held (hb_ble (tk_hub t)) \<Longrightarrow> ble_inv held (hb_ble (tk_hub t'))"
  shows "links_at lost t' \<and> (clean_at t \<longrightarrow> clean_at t')"
  using links_ok_shrink [of lost "tk_loop t", OF _ assms(3) assms(4)] assms(1,2)
  by (simp add: links_at_def clean_at_def)

lemma task_do_links:
  assumes "links_at lost t"
  shows "\<exists>lost'. links_at lost' (task_do env api a t)
    \<and> (clean_at t \<and> action_in_time a t \<longrightarrow> lost' = lost \<and> clean_at (task_do env api a t))"
proof (cases a)
  case (MainTask serial up)
  obtain r h' where step: "loop_step env up (tk_loop t) (tk_hub t) = (r, h')" by fastforce
  from loop_step_links [OF _ step, of lost] assms MainTask step show ?thesis
    by (auto simp: links_at_def clean_at_def Let_def)
next
  case MqttTask
  obtain m' h' where step: "mqtt_step env (tk_mqtt t) (tk_hub t) = (m', h')" by fastforce
  have "links_at lost (task_do env api a t) \<and> (clean_at t \<longrightarrow> clean_at (task_do env api a t))"
    using mqtt_step_ble [OF step] step MqttTask by (intro links_at_shrink [OF assms]) simp_all
  then show ?thesis by blast
next
  case (Arrives i ev)
  obtain m h' where arr: "arrive env i ev (tk_hub t) = (m, h')" by fastforce
  have "links_at lost (task_do env api a t) \<and> (clean_at t \<longrightarrow> clean_at (task_do env api a t))"
    using arrive_quiet [OF arr] arr Arrives task_do_arrives [of env api i ev t]
    by (intro links_at_shrink [OF assms]) auto
  then show ?thesis by blast
next
  case (HostTask e)
  have "links_at lost (task_do env api a t) \<and> (clean_at t \<longrightarrow> clean_at (task_do env api a t))"
    using HostTask slots_shrink_event run_event_inv by (intro links_at_shrink [OF assms]) (auto simp: on_ble_def)
  then show ?thesis by blast
qed

lemma task_run_links:
  "links_at lost t \<Longrightarrow> \<exists>lost'. links_at lost' (task_run env api sched t)
    \<and> (clean_at t \<and> schedule_in_time env api sched t \<longrightarrow> lost' = lost \<and> clean_at (task_run env api sched t))"
proof (induction sched arbitrary: lost t)
  case Nil
  then show ?case by auto
next
  case (Cons a as)
  from task_do_links [OF Cons.prems, of env api a] obtain lost1 where
    "links_at lost1 (task_do env api a t)"
    "clean_at t \<and> action_in_time a t \<longrightarrow> lost1 = lost \<and> clean_at (task_do env api a t)" by blast
  with Cons.IH [of lost1 "task_do env api a t"] show ?case by auto
qed

lemma tasks_ok_start:
  assumes "boot_mem pmem rmem amem" and "pool_mem mem"
    and "t = power_on_tasks env api root_ca mac wifiUp addr0 pmem rmem amem mem nvs"
  shows "tasks_ok t" and "links_at [] t" and "clean_at t"
  unfolding assms(3)
  using hub_power_on_ok [OF assms(1,2), of env api root_ca mac wifiUp addr0 nvs]
  by (simp_all add: tasks_ok_def tasks_at_def links_at_def links_ok_def clean_at_def pool_filed_def sys_ok_def hub_inv_def)

lemma tasks_ok_power_on:
  assumes "boot_mem pmem rmem amem" and "pool_mem mem"
  shows "tasks_ok (task_run env api sched (power_on_tasks env api root_ca mac wifiUp addr0 pmem rmem amem mem nvs))"
  by (rule task_run_keeps [of tasks_ok, OF tasks_ok_start(1) [OF assms refl] task_do_ok])

section \<open>Properties\<close>

lemma free_slot_clients:
  assumes "free_slot i b"
  shows "length (clients (bl_nodes b)) < length (bl_nodes b)"
proof -
  have i: "i < length (bl_nodes b)" "cn_client (bl_nodes b ! i) = None"
    using assms by (simp_all add: free_slot_def)
  have "clients (bl_nodes b) = clients (take i (bl_nodes b)) @ clients (drop (Suc i) (bl_nodes b))"
    using clients_split(1) [OF i(1)] i(2) by simp
  moreover have "length (clients (take i (bl_nodes b))) \<le> i"
    using length_clients [of "take i (bl_nodes b)"] by simp
  moreover have "length (clients (drop (Suc i) (bl_nodes b))) \<le> length (bl_nodes b) - Suc i"
    using length_clients [of "drop (Suc i) (bl_nodes b)"] by simp
  ultimately show ?thesis using i(1) by (simp only: length_append)
qed

lemma held_room:
  assumes "loop_clean pc b"
  shows "length (loop_held pc @ clients (bl_nodes b)) \<le> length (bl_nodes b)"
proof (cases pc rule: loop_held.cases)
  case (1 c)
  with assms length_clients [of "bl_nodes b"] show ?thesis
    by (cases c) (auto simp: less_eq_Suc_le [symmetric] dest: free_slot_clients)
qed (use length_clients [of "bl_nodes b"] in auto)

text \<open>
  C6: the BLE clients under every schedule of the three tasks: at every moment no client is in two slots, or in
  a slot and in the hands of the connection in progress; and as long as every connection takes its client
  in time, no client is lost, so that never more than five are created.
\<close>

theorem scheduled_no_client_lost:
  assumes "boot_mem pmem rmem amem" and "pool_mem mem"
    and "t0 = power_on_tasks env api root_ca mac wifiUp addr0 pmem rmem amem mem nvs"
    and "b = hb_ble (tk_hub (task_run env api sched t0))"
    and "cs = loop_held (tk_loop (task_run env api sched t0)) @ clients (bl_nodes b)"
  shows "distinct cs \<and> set cs \<subseteq> {..<bl_created b}
    \<and> (schedule_in_time env api sched t0 \<longrightarrow> set cs = {..<bl_created b} \<and> bl_created b \<le> 5)"
proof -
  let ?pc = "tk_loop (task_run env api sched t0)"
  obtain lost where links: "links_ok lost ?pc b"
    and clean: "schedule_in_time env api sched t0 \<Longrightarrow> lost = [] \<and> loop_clean ?pc b"
    using task_run_links [OF tasks_ok_start(2) [OF assms(1-3)], of env api sched] tasks_ok_start(3) [OF assms(1-3)]
      assms(4) by (fastforce simp: links_at_def clean_at_def)
  have inv: "ble_inv (loop_held ?pc @ lost) b" using links by (simp add: links_ok_def)
  then have "distinct cs" "set cs \<subseteq> {..<bl_created b}" by (auto simp: ble_inv_def assms(5))
  moreover have "set cs = {..<bl_created b} \<and> bl_created b \<le> 5" if "schedule_in_time env api sched t0"
  proof -
    have all: "set cs = {..<bl_created b}" using inv clean [OF that] by (simp add: ble_inv_def assms(5))
    then have "bl_created b = card (set cs)" by simp
    also have "\<dots> \<le> length cs" by (rule card_length)
    also have "\<dots> \<le> 5"
      using held_room [of ?pc b] clean [OF that] ble_inv_length [OF inv] by (simp add: assms(5) config_defs)
    finally show ?thesis using all by simp
  qed
  ultimately show ?thesis by simp
qed

theorem scheduled_no_client_lost_witness:
  "let t = task_run one_env (map_wifi True) (take 8 pause_schedule) (tasks_at one_start []) in
   loop_held (tk_loop t) = [0] \<and> schedule_in_time one_env (map_wifi True) (take 8 pause_schedule) (tasks_at one_start [])
   \<and> bl_created (hb_ble (tk_hub t)) \<le> 5"
proof -
  have "loop_held (tk_loop (task_run one_env (map_wifi True) (take 8 pause_schedule) (tasks_at one_start []))) = [0]"
    and "schedule_in_time one_env (map_wifi True) (take 8 pause_schedule) (tasks_at one_start [])"
    by code_simp+
  with scheduled_no_client_lost [OF example_boot_mem example_mem_ok refl refl refl, of one_env "map_wifi True"
      "take 8 pause_schedule" "[]" "''AA:BB''" True "[]" Map.empty, folded one_start_def]
  show ?thesis by (simp add: Let_def)
qed

text \<open>
  C30: the same for the memory: at every moment, between any two steps of any tasks, the pool holds commands
  for at most five nodes, at most four for each, every command under the node it is meant for; the queues of
  reports, acknowledgements and addresses never hold more than 8, 4 and 8 items.
\<close>

theorem scheduled_memory_bounded:
  assumes "boot_mem pmem rmem amem" and "pool_mem mem"
    and "t = task_run env api sched (power_on_tasks env api root_ca mac wifiUp addr0 pmem rmem amem mem nvs)"
  shows "let p = pool_abs (hb_pool (tk_hub t)); b = hb_ble (tk_hub t) in
    card (dom p) \<le> 5 \<and> length (mb_pending p node) \<le> 4
    \<and> list_all (\<lambda>c. mc_target c = node) (mb_pending p node)
    \<and> length (reports b) \<le> 8 \<and> length (acks b) \<le> 4 \<and> length (found b) \<le> 8"
proof -
  have "tasks_ok t" unfolding assms(3) by (rule tasks_ok_power_on [OF assms(1,2)])
  then have pool: "pool_inv (hb_pool (tk_hub t))" "targets_ok (hb_pool (tk_hub t))"
    by (simp_all add: tasks_ok_def pool_filed_def)
  obtain lost where "links_at lost t"
    using task_run_links [OF tasks_ok_start(2) [OF assms(1,2) refl], of env api sched] assms(3) by blast
  then have "queues_ok (hb_ble (tk_hub t))" by (auto simp: links_at_def links_ok_def intro: ble_inv_queues)
  with pool show ?thesis by (intro memory_bounds)
qed

theorem scheduled_memory_bounded_witness:
  "length (reports (hb_ble (tk_hub paused))) \<le> 8 \<and> length (acks (hb_ble (tk_hub paused))) \<le> 4"
  using scheduled_memory_bounded [OF example_boot_mem example_mem_ok paused_def [unfolded one_start_def]]
  by (simp add: Let_def)

end
