(* ===== verification/Task_Addresses.thy ===== *)
theory Task_Addresses
  imports Task_Links
begin

text \<open>
  No node twice, under every schedule of the tasks.  The address of a connection in progress is not in use, and
  the queued addresses and those in use are all different, whatever NimBLE delivers and when; the one step
  that can put an address in two places is the one that marks a slot as used, and only if a scan result has
  queued the address again since it was taken out of the queue.
\<close>

section \<open>The address of a connection in progress\<close>

text \<open>From the \<open>pop\<close> of \<open>processNextPending\<close> on, until the slot is marked as used.\<close>

fun connect_addrs :: "'adr connect_pc \<Rightarrow> 'adr list" where
  "connect_addrs (CStop addr) = [addr]"
| "connect_addrs (CPick addr) = [addr]"
| "connect_addrs (CTake addr slot) = [addr]"
| "connect_addrs (CConnect addr slot c) = [addr]"
| "connect_addrs (CDiscover addr slot c) = [addr]"
| "connect_addrs (CRegister addr slot c) = [addr]"
| "connect_addrs (CUse addr slot c cfg) = [addr]"
| "connect_addrs _ = []"

fun loop_addrs :: "'adr loop_pc \<Rightarrow> 'adr list" where
  "loop_addrs (LConnect c) = connect_addrs c"
| "loop_addrs _ = []"

definition addrs_ok :: "'adr loop_pc \<Rightarrow> 'adr ble \<Rightarrow> bool" where
  "addrs_ok pc b \<longleftrightarrow> addr_inv [] b \<and> set (loop_addrs pc) \<inter> set (used_addrs b) = {}"

text \<open>\<open>uses_clean\<close>: the address has not been queued again when the slot is marked as used.\<close>

fun uses_clean :: "'adr loop_pc \<Rightarrow> 'adr ble \<Rightarrow> bool" where
  "uses_clean (LConnect (CUse addr slot c cfg)) b \<longleftrightarrow> addr \<notin> set (found b)"
| "uses_clean _ b = True"

lemma used_addrs_shrink:
  assumes "slots_shrink b b'"
  shows "set (used_addrs b') \<subseteq> set (used_addrs b)"
proof
  fix a assume "a \<in> set (used_addrs b')"
  then obtain i where "i < length (bl_nodes b')" "cn_used (bl_nodes b' ! i)" "a = cn_addr (bl_nodes b' ! i)"
    by (auto simp: used_addrs_def table_keys_def in_set_conv_nth)
  with assms show "a \<in> set (used_addrs b)"
    by (auto simp: slots_shrink_def used_addrs_def table_keys_def in_set_conv_nth intro!: image_eqI [of _ _ "bl_nodes b ! i"])
qed

lemma addrs_ok_shrink:
  assumes "addrs_ok pc b" and "slots_shrink b b'" and "addr_inv [] b \<Longrightarrow> addr_inv [] b'"
    and "set (loop_addrs pc') \<subseteq> set (loop_addrs pc)"
  shows "addrs_ok pc' b'"
  using assms used_addrs_shrink [OF assms(2)] by (auto simp: addrs_ok_def)

section \<open>The steps\<close>

lemma send_now_addr:
  assumes "send_now env c h = (ok, h')" and "ble_inv held (hb_ble h)"
    and "addr_inv [] (hb_ble h)"
  shows "addr_inv [] (hb_ble h')"
  using assms trySend_addr_inv [OF assms(2,3), of "he_ble env" "he_json env" c] by (auto simp: send_now_def split: prod.splits)

lemma flush_step_addr:
  assumes "flush_step env f h = (r, h')" and "ble_inv held (hb_ble h)"
    and "addr_inv [] (hb_ble h)"
  shows "addr_inv [] (hb_ble h')"
  using assms send_now_addr [OF _ assms(2,3)]
  by (cases f) (auto simp: read_clock_def Let_def split: if_splits prod.splits option.splits)

lemma mqtt_step_addr:
  assumes "mqtt_step env m h = (m', h')" and "ble_inv held (hb_ble h)"
    and "addr_inv [] (hb_ble h)"
  shows "addr_inv [] (hb_ble h')"
proof -
  have hub: "hb_ble (handleHubCommand env c h) = hb_ble h" for c
    by (simp add: handleHubCommand_def handleHubStatus_def publish_def read_clock_def)
  show ?thesis
    using assms send_now_addr [OF _ assms(2,3)] hub
    by (cases "(env, m, h)" rule: mqtt_step.cases) (auto simp: read_clock_def split: if_splits prod.splits)
qed

text \<open>The slots that the connection code touches are not in use, so their addresses do not count.\<close>

lemma slots_shrink_used: "slots_shrink b b' \<Longrightarrow> a \<notin> set (used_addrs b) \<Longrightarrow> a \<notin> set (used_addrs b')"
  using used_addrs_shrink by blast

lemma acquireClient_used:
  assumes "acquireClient env b = (r, b1)"
  shows "set (used_addrs b1) \<subseteq> set (used_addrs b)"
proof -
  obtain r0 b0 where reuse: "findReusableClient b = (r0, b0)" by fastforce
  have b0: "used_addrs b0 = used_addrs b"
    using reuse by (auto simp: findReusableClient_def dest: findSlotIndex_SomeD(1) split: option.splits
        intro!: used_addrs_setNode)
  have called: "set (used_addrs (ble_call env b')) \<subseteq> set (used_addrs b')" for b'
    by (rule used_addrs_shrink [OF slots_shrink_call])
  show ?thesis
  proof (cases r0)
    case (Some c)
    with assms reuse b0 show ?thesis by (simp add: acquireClient_def)
  next
    case None
    then have "b1 = ble_call env b0 \<or> b1 = ble_call env (b0\<lparr>bl_created := Suc (bl_created b0)\<rparr>)"
      using assms reuse by (auto simp: acquireClient_def split: if_splits)
    moreover have "used_addrs (b0\<lparr>bl_created := Suc (bl_created b0)\<rparr>) = used_addrs b0" by (simp add: used_addrs_def)
    ultimately show ?thesis using called b0 by metis
  qed
qed

lemma connect_step_addr:
  assumes "connect_step env c h = (r, h')" and "ble_inv (connect_held c @ lost) (hb_ble h)"
    and "connect_slot c (hb_ble h)"
    and "addrs_ok (LConnect c) (hb_ble h)" and "uses_clean (LConnect c) (hb_ble h)"
  shows "addrs_ok (case r of None \<Rightarrow> LStatus | Some c' \<Rightarrow> LConnect c') (hb_ble h')"
proof -
  let ?e = "he_ble env" and ?b = "hb_ble h"
  have addr: "addr_inv [] ?b" and fresh: "a \<in> set (connect_addrs c) \<Longrightarrow> a \<notin> set (used_addrs ?b)" for a
    using assms(4) by (auto simp: addrs_ok_def)
  have call: "addr_inv [] (ble_call ?e ?b)" by (rule addr_inv_call [OF assms(2) addr]) simp
  have called: "a \<notin> set (used_addrs ?b) \<Longrightarrow> a \<notin> set (used_addrs (ble_call ?e ?b))" for a
    by (rule slots_shrink_used [OF slots_shrink_call])
  show ?thesis
  proof (cases c)
    case (CStop addr)
    have "addr_inv [] (scan_set ?e False ?b)" using assms(2) addr by (intro scan_set_addr) simp_all
    moreover have shrink: "slots_shrink ?b (scan_set ?e False ?b)"
      using slots_shrink_call [of "?b\<lparr>bl_scanning := False\<rparr>" ?e] by (simp add: scan_set_def slots_shrink_def)
    moreover have "addr \<notin> set (used_addrs (scan_set ?e False ?b))"
      using fresh CStop by (intro slots_shrink_used [OF shrink]) simp_all
    ultimately show ?thesis using assms(1) CStop by (auto simp: on_link_def addrs_ok_def)
  next
    case (CPick addr)
    with assms(1) addr fresh show ?thesis by (auto simp: addrs_ok_def split: option.splits)
  next
    case (CTake addr slot)
    obtain r0 b1 where acq: "acquireClient ?e ?b = (r0, b1)" by fastforce
    have "addr_inv [] b1" by (rule acquireClient_addr [OF assms(2) addr _ acq]) simp
    moreover have "addr \<notin> set (used_addrs b1)" using acquireClient_used [OF acq] fresh CTake by auto
    ultimately show ?thesis using acq CTake assms(1) by (auto simp: addrs_ok_def split: option.splits)
  next
    case (CConnect addr slot cl)
    with assms(1) call called fresh show ?thesis by (auto simp: on_link_def addrs_ok_def split: if_splits)
  next
    case (CDiscover addr slot cl)
    let ?b1 = "snd (discoverAndSubscribe ?e ?b)"
    have "ble_inv (cl # lost) ?b1 \<and> addr_inv [] ?b1 \<and> addr \<notin> set (used_addrs ?b1)"
      using assms(2) addr fresh CDiscover
      by (intro discoverAndSubscribe_keeps [of "\<lambda>b. ble_inv (cl # lost) b \<and> addr_inv [] b \<and> addr \<notin> set (used_addrs b)"])
        (auto intro: ble_call_inv addr_inv_call dest: slots_shrink_used [OF slots_shrink_call])
    with assms(1) CDiscover show ?thesis by (auto simp: on_link_def addrs_ok_def split: if_splits)
  next
    case (CRegister addr slot cl)
    let ?b1 = "setNode slot (\<lambda>n. n\<lparr>cn_client := Some cl\<rparr>) ?b"
    have slot: "slot < length (bl_nodes ?b)" using assms(3) CRegister by (simp add: spare_slot_def)
    have "ble_inv (cl # lost) ?b" "spare_slot slot ?b" using assms(2,3) CRegister by simp_all
    note inv1 = register_inv(1) [OF this]
    have "addr_inv [] ?b1" and used1: "used_addrs ?b1 = used_addrs ?b"
      using addr addr_inv_setNode [OF slot, of "\<lambda>n. n\<lparr>cn_client := Some cl\<rparr>" "[]"]
        used_addrs_setNode [of slot ?b "\<lambda>n. n\<lparr>cn_client := Some cl\<rparr>", OF slot] by simp_all
    from addr_inv_call [OF inv1 this(1)] have "addr_inv [] (ble_call ?e ?b1)" by simp
    moreover have "addr \<notin> set (used_addrs (ble_call ?e ?b1))"
      using slots_shrink_used [OF slots_shrink_call, of addr ?b1] fresh CRegister by (simp add: used1)
    ultimately show ?thesis using assms(1) CRegister by (auto simp: on_link_def addrs_ok_def)
  next
    case (CUse addr slot cl cfg)
    with assms(1,3,5) addr fresh setNode_use_addr [of slot ?b "[]" addr cfg] show ?thesis
      by (auto simp: on_link_def addrs_ok_def)
  next
    case (CFlush f)
    obtain r0 h1 where step: "flush_step env f h = (r0, h1)" by fastforce
    from flush_step_addr [OF this assms(2) addr] assms(1) CFlush step show ?thesis
      by (auto simp: addrs_ok_def split: option.splits)
  next
    case CStart
    with assms(1,2) addr show ?thesis by (auto simp: addrs_ok_def intro: scan_set_addr)
  qed (use assms(1,2) addr call in \<open>auto simp: on_link_def addrs_ok_def hub_ready_addr\<close>)
qed

lemma loop_step_addr:
  assumes "loop_step env up pc h = (r, h')" and "links_ok lost pc (hb_ble h)"
    and "addrs_ok pc (hb_ble h)" and "uses_clean pc (hb_ble h)"
  shows "addrs_ok (case r of None \<Rightarrow> LTop | Some pc' \<Rightarrow> pc') (hb_ble h')"
proof -
  let ?e = "he_ble env" and ?b = "hb_ble h"
  have inv: "ble_inv (loop_held pc @ lost) ?b" using assms(2) by (simp add: links_ok_def)
  have addr: "addr_inv [] ?b" using assms(3) by (simp add: addrs_ok_def)
  have queues: "bleGetPendingReport ?b = (x, b) \<Longrightarrow> addr_inv [] ?b \<Longrightarrow> addr_inv [] b"
    "bleGetPendingAck ?b = (y, b) \<Longrightarrow> addr_inv [] ?b \<Longrightarrow> addr_inv [] b" for x y b
    by (auto simp: bleGetPendingReport_def bleGetPendingAck_def addr_inv_def used_addrs_def Let_def
        split: prod.splits if_splits)
  show ?thesis
  proof (cases pc)
    case (LConnect c)
    obtain r0 h1 where step: "connect_step env c h = (r0, h1)" by fastforce
    have "addrs_ok (case r0 of None \<Rightarrow> LStatus | Some c' \<Rightarrow> LConnect c') (hb_ble h1)"
      using assms(2-4) LConnect by (intro connect_step_addr [OF step, of lost]) (simp_all add: links_ok_def)
    then show ?thesis using assms(1) LConnect step by (auto split: option.splits)
  next
    case LNext
    obtain r0 q where pop: "tsq_pop PENDING_MAX (bl_pendingQueue ?b) = (r0, q)" by fastforce
    note popD = pop_pending [OF inv pop]
    show ?thesis
    proof (cases r0)
      case None
      then have "tsq_items PENDING_MAX q = []"
        using tsq.pop_NoneE(2) [of PENDING_MAX "bl_pendingQueue ?b" q] pop inv
        by (simp add: ble_inv_def queues_ok_def tsq_unsafe_same)
      with None assms(1) LNext pop addr show ?thesis
        by (auto simp: addrs_ok_def addr_inv_def used_addrs_def)
    next
      case (Some a)
      with assms(1) LNext pop addr popD(2) show ?thesis
        by (auto simp: addrs_ok_def addr_inv_def used_addrs_def)
    qed
  next
    case (LFlush idx f)
    obtain r0 h1 where step: "flush_step env f h = (r0, h1)" by fastforce
    from flush_step_addr [OF this inv addr] assms(1) LFlush step show ?thesis
      by (auto simp: addrs_ok_def split: option.splits)
  next
    case LTop
    with assms(1) addr cleanupDisconnected_addr [OF inv] show ?thesis by (auto simp: on_link_def addrs_ok_def)
  next
    case LRescan
    have "addr_inv [] (scan_set ?e True (?b\<lparr>bl_doScan := False\<rparr>))"
      using inv addr LRescan by (intro scan_set_addr [of lost]) simp_all
    with assms(1) addr LRescan show ?thesis by (auto simp: on_link_def addrs_ok_def)
  next
    case LDelay
    with assms(1) addr addr_inv_call [OF inv addr] show ?thesis
      by (auto simp: loop_delay_def addrs_ok_def)
  next
    case LStatus
    with assms(1) addr show ?thesis by (auto simp: addrs_ok_def)
  next
    case (LFlushAll idx)
    with assms(1) addr show ?thesis by (auto simp: addrs_ok_def Let_def split: if_splits)
  qed (use assms(1) addr queues in \<open>auto simp: addrs_ok_def publish_def read_clock_def on_mqtt_def
      split: prod.splits option.splits\<close>)
qed

section \<open>Every schedule\<close>

fun action_uses_clean :: "'adr task_action \<Rightarrow> ('adr, 'nvs) tasks \<Rightarrow> bool" where
  "action_uses_clean (MainTask serial wifiUp) t = uses_clean (tk_loop t) (hb_ble (tk_hub t))"
| "action_uses_clean _ t = True"

text \<open>
  A schedule in which, whenever \<open>registerNode\<close> marks a slot as used, no scan result has queued the slot's address
  again since \<open>processNextPending\<close> took it out of the queue.
\<close>

fun schedule_uses_clean ::
  "('adr, 'j) hub_env \<Rightarrow> 'nvs wifi_api \<Rightarrow> 'adr task_action list \<Rightarrow> ('adr, 'nvs) tasks \<Rightarrow> bool" where
  "schedule_uses_clean env api [] t = True"
| "schedule_uses_clean env api (a # as) t \<longleftrightarrow>
     action_uses_clean a t \<and> schedule_uses_clean env api as (task_do env api a t)"

definition addrs_at :: "('adr, 'nvs) tasks \<Rightarrow> bool" where
  "addrs_at t \<longleftrightarrow> addrs_ok (tk_loop t) (hb_ble (tk_hub t))"

lemma task_do_addr:
  assumes "links_at lost t" and "addrs_at t" and "action_uses_clean a t"
  shows "addrs_at (task_do env api a t)"
proof -
  let ?pc = "tk_loop t" and ?b = "hb_ble (tk_hub t)"
  have inv: "ble_inv (loop_held ?pc @ lost) ?b" and ok: "addrs_ok ?pc ?b"
    using assms(1,2) by (simp_all add: addrs_at_def links_at_def links_ok_def)
  show ?thesis
  proof (cases a)
    case (MainTask serial up)
    obtain r h' where step: "loop_step env up (tk_loop t) (tk_hub t) = (r, h')" by fastforce
    from loop_step_addr [OF this, of lost] assms MainTask step show ?thesis
      by (auto simp: addrs_at_def links_at_def Let_def)
  next
    case MqttTask
    obtain m' h' where step: "mqtt_step env (tk_mqtt t) (tk_hub t) = (m', h')" by fastforce
    have "addrs_ok ?pc (hb_ble h')"
      using mqtt_step_ble [OF step] mqtt_step_addr [OF step inv] by (intro addrs_ok_shrink [OF ok]) simp_all
    then show ?thesis using step MqttTask by (simp add: addrs_at_def)
  next
    case (Arrives i ev)
    obtain m h' where arr: "arrive env i ev (tk_hub t) = (m, h')" by fastforce
    with arrive_quiet [OF arr] assms(2) task_do_arrives [of env api i ev t] Arrives show ?thesis
      by (auto simp: addrs_at_def)
  next
    case (HostTask e)
    have "addrs_ok ?pc (run_event (he_ble env) e ?b)"
      using addr_inv_event [OF inv] by (intro addrs_ok_shrink [OF ok slots_shrink_event]) simp_all
    then show ?thesis using HostTask by (simp add: addrs_at_def on_ble_def)
  qed
qed

lemma task_run_addr:
  assumes "links_at lost t" and "addrs_at t" and "schedule_uses_clean env api sched t"
  shows "addrs_at (task_run env api sched t)"
  using assms
proof (induction sched arbitrary: lost t)
  case (Cons a as)
  moreover obtain lost1 where "links_at lost1 (task_do env api a t)" using task_do_links [OF Cons.prems(1)] by blast
  moreover have "addrs_at (task_do env api a t)"
    using task_do_addr [OF Cons.prems(1,2), where a = a and env = env and api = api] Cons.prems(3) by simp
  ultimately show ?case by simp
qed simp

text \<open>
  C15: no node twice, under every schedule of the three tasks and with scan results at any time: at every moment
  the queued addresses and those of the connected nodes are all different, and the address of the connection in
  progress, from the \<open>pop\<close> of \<open>processNextPending\<close> until its slot is marked as used, is that of no connected
  node; provided that, whenever a slot is marked as used, its address has not been queued again since that \<open>pop\<close>.
  \<open>scan_result_requeues\<close> shows that it can be queued again, and what comes of it.
\<close>

theorem scheduled_no_node_twice:
  assumes "boot_mem pmem rmem amem" and "pool_mem mem"
    and "t0 = power_on_tasks env api root_ca mac wifiUp addr0 pmem rmem amem mem nvs"
    and "schedule_uses_clean env api sched t0" and "t = task_run env api sched t0"
  shows "distinct (found (hb_ble (tk_hub t)) @ used_addrs (hb_ble (tk_hub t)))
    \<and> set (loop_addrs (tk_loop t)) \<inter> set (used_addrs (hb_ble (tk_hub t))) = {}"
proof -
  have "tk_loop t0 = LTop" "addr_inv [] (hb_ble (tk_hub t0))"
    using hub_power_on_addr [OF assms(1), of env api root_ca mac wifiUp addr0 mem nvs]
    by (simp_all add: assms(3) tasks_at_def)
  then have "addrs_at t0" by (simp add: addrs_at_def addrs_ok_def)
  from task_run_addr [OF tasks_ok_start(2) [OF assms(1,2,3)] this assms(4)] show ?thesis
    by (simp add: assms(5) addrs_at_def addrs_ok_def addr_inv_def)
qed

theorem scheduled_no_node_twice_witness:
  "let t = task_run one_env (map_wifi True) (take 8 pause_schedule) (tasks_at one_start []) in
   loop_addrs (tk_loop t) = [''aa'']
   \<and> distinct (found (hb_ble (tk_hub t)) @ used_addrs (hb_ble (tk_hub t))) \<and> ''aa'' \<notin> set (used_addrs (hb_ble (tk_hub t)))"
proof -
  have "loop_addrs (tk_loop (task_run one_env (map_wifi True) (take 8 pause_schedule) (tasks_at one_start []))) = [''aa'']"
    and "schedule_uses_clean one_env (map_wifi True) (take 8 pause_schedule) (tasks_at one_start [])"
    by code_simp+
  with scheduled_no_node_twice [OF example_boot_mem example_mem_ok, of _ one_env "map_wifi True" "[]" "''AA:BB''" True
      "[]" Map.empty "take 8 pause_schedule", folded one_start_def, OF refl _ refl]
  show ?thesis by (simp add: Let_def)
qed

end
