(* ===== verification/Task_Races.thy ===== *)
theory Task_Races
  imports Task_Links
begin

text \<open>
  What the interleaving of the tasks means for a single node.  Every schedule of the whole hub is, for each
  node, a run of the interleaved pool operations of \<open>Pool_Race\<close>, so the order of the commands that go through the
  pool is kept.
\<close>

section \<open>The hub refines the race of the pool\<close>

fun flush_race_hand :: "string \<Rightarrow> flush_pc \<Rightarrow> MqttCommand option" where
  "flush_race_hand node (FSend n c) = (if cstr n = node then Some c else None)"
| "flush_race_hand node (FSent n c ok) = (if cstr n = node \<and> \<not> ok then Some c else None)"
| "flush_race_hand node _ = None"

fun loop_race_hand :: "string \<Rightarrow> 'adr loop_pc \<Rightarrow> MqttCommand option" where
  "loop_race_hand node (LConnect (CFlush f)) = flush_race_hand node f"
| "loop_race_hand node (LFlush idx f) = flush_race_hand node f"
| "loop_race_hand node _ = None"

abbreviation cmds_for :: "string \<Rightarrow> MqttCommand list \<Rightarrow> MqttCommand list" where
  "cmds_for node cs \<equiv> map unstamp (filter (\<lambda>c. mc_target c = node) cs)"

text \<open>
  What a state of the race has in common with a state of the hub: the pool, and the command in the hand of a
  flush; what the race has accepted, followed by what the MQTT task has still to handle, has arrived in this
  order; and the commands it has sent are on the wire in their order.
\<close>

definition race_view :: "'j json_api \<Rightarrow> string \<Rightarrow> ('adr, 'nvs) tasks \<Rightarrow> race \<Rightarrow> bool" where
  "race_view js node t r \<longleftrightarrow> ra_pool r = hb_pool (tk_hub t) \<and> ra_hand r = loop_race_hand node (tk_loop t)
     \<and> subseq (map unstamp (ra_accepted r) @ cmds_for node (mqtt_hand (tk_mqtt t)))
         (cmds_for node (tk_received t))
     \<and> subseq (map (the \<circ> packet_of js) (ra_sent r)) (ok_packets (bl_writes (hb_ble (tk_hub t))))"

definition race_moves :: "'j json_api \<Rightarrow> string \<Rightarrow> race \<Rightarrow> race \<Rightarrow> byte list list \<Rightarrow> bool" where
  "race_moves js node r r' sent \<longleftrightarrow> (r' = r \<or> race_step node r r') \<and> ra_accepted r' = ra_accepted r
     \<and> (\<exists>s. ra_sent r' = ra_sent r @ s \<and> subseq (map (the \<circ> packet_of js) s) sent)"

lemma race_moves_other:
  assumes "p = ra_pool r \<or> (fits 18 n \<and> n \<noteq> node \<and> p \<in> {snd (pool_push now (ra_pool r) n c),
      snd (pool_pushFront now (ra_pool r) n c), snd (pool_pop now (ra_pool r) n)})"
  shows "race_moves js node r (r\<lparr>ra_pool := p\<rparr>) sent"
proof -
  have "r\<lparr>ra_pool := p\<rparr> = r \<or> race_step node r (r\<lparr>ra_pool := p\<rparr>)"
    using assms by (auto intro: race_step.other)
  then show ?thesis by (simp add: race_moves_def)
qed

lemma send_now_writes:
  assumes "send_now env c h = (ok, h')"
  shows "\<exists>w. bl_writes (hb_ble h') = bl_writes (hb_ble h) @ w
    \<and> ok_packets w = (if ok then [the (packet_of (he_json env) c)] else [])"
  using assms trySend_log [of "he_ble env" "he_json env" c "hb_ble h"]
  by (auto simp: send_now_def split: prod.splits)

lemma flush_race:
  assumes "pool_filed (hb_pool h)" and "fits 18 node" and "flush_target f"
    and "ra_pool r = hb_pool h" and "ra_hand r = flush_race_hand node f"
    and "flush_step env f h = (res, h')"
  shows "\<exists>r' w. bl_writes (hb_ble h') = bl_writes (hb_ble h) @ w \<and> race_moves (he_json env) node r r' (ok_packets w)
    \<and> ra_pool r' = hb_pool h'
    \<and> ra_hand r' = (case res of None \<Rightarrow> None | Some f' \<Rightarrow> flush_race_hand node f')"
proof (cases f)
  case (FCheck n)
  with assms show ?thesis
    by (intro exI [of _ r] exI [of _ "[]"]) (auto simp: race_moves_def split: if_splits)
next
  case (FPop n)
  obtain res0 p where pop: "pool_pop (clock env h) (hb_pool h) n = (res0, p)" by fastforce
  have h': "hb_pool h' = p" "bl_writes (hb_ble h') = bl_writes (hb_ble h)"
    and res: "res = map_option (FSend n) res0"
    using assms(6) FPop pop by (auto simp: read_clock_def Let_def split: option.splits)
  have hand: "ra_hand r = None" using assms(5) FPop by simp
  have inv: "pool_inv (hb_pool h)" using assms(1) by (simp add: pool_filed_def)
  show ?thesis
  proof (cases "cstr n = node")
    case True
    let ?r' = "r\<lparr>ra_pool := p, ra_hand := res0,
        ra_expired := ra_expired r @ expired_at (clock env h) (ra_pool r) node\<rparr>"
    have "pool_pop (clock env h) (ra_pool r) node = (res0, p)"
      using pop pool_pop_cstr [of "clock env h" "hb_pool h" n] True assms(4) by simp
    from race_step.take [OF hand this] True h' res show ?thesis
      by (intro exI [of _ ?r'] exI [of _ "[]"]) (auto simp: race_moves_def split: option.splits)
  next
    case False
    have p: "pool_pop (clock env h) (ra_pool r) (cstr n) = (res0, p)"
      using pop by (simp add: pool_pop_cstr assms(4))
    have "p = ra_pool r \<or> (fits 18 (cstr n) \<and> cstr n \<noteq> node \<and> p = snd (pool_pop (clock env h) (ra_pool r) (cstr n)))"
      using p False pool_pop_unfit [of "ra_pool r" "cstr n" "clock env h"] inv assms(4)
      by (cases "fits 18 (cstr n)") auto
    then have "race_moves (he_json env) node r (r\<lparr>ra_pool := p\<rparr>) (ok_packets [])"
      by (intro race_moves_other [where n = "cstr n" and now = "clock env h"]) blast
    then show ?thesis
      using h' res hand False
      by (intro exI [of _ "r\<lparr>ra_pool := p\<rparr>"] exI [of _ "[]"]) (auto split: option.splits)
  qed
next
  case (FSend n c)
  obtain ok h1 where send: "send_now env c h = (ok, h1)" by fastforce
  then have h1: "h' = h1" "res = Some (FSent n c ok)" using assms(6) FSend by auto
  obtain w where w: "bl_writes (hb_ble h1) = bl_writes (hb_ble h) @ w"
      "ok_packets w = (if ok then [the (packet_of (he_json env) c)] else [])"
    using send_now_writes [OF send] by blast
  note pool = send_now_ble(3) [OF send]
  show ?thesis
  proof (cases "cstr n = node \<and> ok")
    case True
    then have "ra_hand r = Some c" using assms(5) FSend by simp
    from race_step.sent [OF this] h1 w pool True assms(4) show ?thesis
      by (intro exI [of _ "r\<lparr>ra_hand := None, ra_sent := ra_sent r @ [c]\<rparr>"] exI [of _ w])
        (simp add: race_moves_def)
  next
    case False
    with h1 w pool assms(4,5) FSend show ?thesis
      by (intro exI [of _ r] exI [of _ w]) (auto simp: race_moves_def)
  qed
next
  case (FSent n c ok)
  show ?thesis
  proof (cases ok)
    case True
    with assms FSent show ?thesis
      by (intro exI [of _ r] exI [of _ "[]"]) (auto simp: race_moves_def)
  next
    case False
    obtain put_ok p where put: "pool_pushFront (clock env h) (hb_pool h) n c = (put_ok, p)" by fastforce
    have h': "hb_pool h' = p" "bl_writes (hb_ble h') = bl_writes (hb_ble h)" and res: "res = None"
      using assms(6) FSent False put by (auto simp: read_clock_def)
    have fit: "fits 18 (cstr n)" using assms(3) FSent by simp
    show ?thesis
    proof (cases "cstr n = node")
      case True
      then have hand: "ra_hand r = Some c" using assms(5) FSent False by simp
      have "pool_pushFront (clock env h) (ra_pool r) node c = (put_ok, p)"
        using put pool_pushFront_cstr [of "clock env h" "hb_pool h" n c] True assms(4) by simp
      from race_step.put_back [OF hand this] h' res show ?thesis
        by (intro exI [of _ "r\<lparr>ra_pool := p, ra_hand := None,
          ra_lost := ra_lost r @ (if put_ok then [] else [c])\<rparr>"] exI [of _ "[]"]) (simp add: race_moves_def)
    next
      case other: False
      have "p = snd (pool_pushFront (clock env h) (ra_pool r) (cstr n) c)"
        using put by (simp add: pool_pushFront_cstr assms(4))
      with fit other have "race_moves (he_json env) node r (r\<lparr>ra_pool := p\<rparr>) (ok_packets [])"
        by (intro race_moves_other [where n = "cstr n" and now = "clock env h" and c = c]) blast
      then show ?thesis
        using h' res other assms(5) FSent
        by (intro exI [of _ "r\<lparr>ra_pool := p\<rparr>"] exI [of _ "[]"]) simp
    qed
  qed
qed

text \<open>The other steps of the main task leave the pool alone, and the log of the writes only grows.\<close>

lemma hub_ready_writes: "\<exists>w. bl_writes (hub_ready e slot b) = bl_writes b @ w"
  by (auto simp: hub_ready_def writeValue_def Let_def split: option.splits)

lemma connect_step_writes:
  assumes "connect_step env c h = (r, h')" and "\<nexists>f. c = CFlush f"
  shows "\<exists>w. bl_writes (hb_ble h') = bl_writes (hb_ble h) @ w"
proof (cases c)
  case (CTake addr slot)
  obtain r0 b where acq: "acquireClient (he_ble env) (hb_ble h) = (r0, b)" by fastforce
  then have "bl_writes b = bl_writes (hb_ble h)"
    using connect_steps_writes(3) [of "he_ble env" "hb_ble h"] by simp
  with assms(1) CTake acq show ?thesis by (auto split: option.splits)
qed (use assms hub_ready_writes [of "he_ble env" _ "hb_ble h"] in \<open>auto simp: on_link_def split: option.splits\<close>)

lemma loop_step_writes:
  assumes "loop_step env up pc h = (r, h')" and "\<nexists>f idx. pc = LConnect (CFlush f) \<or> pc = LFlush idx f"
  shows "\<exists>w. bl_writes (hb_ble h') = bl_writes (hb_ble h) @ w"
proof (cases pc)
  case (LConnect c)
  obtain r0 h1 where step: "connect_step env c h = (r0, h1)" by fastforce
  then have "h' = h1" using assms(1) LConnect by (auto split: option.splits)
  with connect_step_writes [OF step] assms(2) LConnect show ?thesis by blast
next
  case LStatus
  with assms(1) show ?thesis by (auto simp: printStatus_def read_clock_def Let_def)
qed (use assms in \<open>auto simp: on_link_def publish_def read_clock_def on_mqtt_def loop_delay_def
      cleanupDisconnected_def bleGetPendingReport_def bleGetPendingAck_def Let_def
      split: option.splits prod.splits if_splits\<close>)

lemma loop_step_hands:
  assumes "loop_step env up pc h = (res, h')" and "\<nexists>f idx. pc = LConnect (CFlush f) \<or> pc = LFlush idx f"
  shows "\<forall>pc'. res = Some pc' \<longrightarrow> loop_race_hand node pc' = None"
proof (cases pc)
  case (LConnect c)
  with assms show ?thesis by (cases c) (auto simp: on_link_def split: option.splits prod.splits if_splits)
qed (use assms in \<open>auto simp: on_link_def Let_def split: option.splits prod.splits if_splits\<close>)

lemma loop_race:
  assumes "pool_filed (hb_pool h)" and "fits 18 node" and "loop_target pc"
    and "ra_pool r = hb_pool h" and "ra_hand r = loop_race_hand node pc"
    and "loop_step env up pc h = (res, h')"
  shows "\<exists>r' w. bl_writes (hb_ble h') = bl_writes (hb_ble h) @ w \<and> race_moves (he_json env) node r r' (ok_packets w)
    \<and> ra_pool r' = hb_pool h'
    \<and> ra_hand r' = (case res of None \<Rightarrow> None | Some pc' \<Rightarrow> loop_race_hand node pc')"
proof (cases "\<exists>f idx. pc = LConnect (CFlush f) \<or> pc = LFlush idx f")
  case True
  then obtain f idx where pc: "pc = LConnect (CFlush f) \<or> pc = LFlush idx f" by blast
  obtain r0 h1 where step: "flush_step env f h = (r0, h1)" by fastforce
  have "flush_target f" and "ra_hand r = flush_race_hand node f" using assms(3,5) pc by auto
  from flush_race [OF assms(1,2) this(1) assms(4) this(2) step] step assms(6) pc show ?thesis
    by (auto split: option.splits)
next
  case False
  have hand: "loop_race_hand node pc = None"
    using False by (cases "(node, pc)" rule: loop_race_hand.cases) auto
  have hands: "\<forall>pc'. res = Some pc' \<longrightarrow> loop_race_hand node pc' = None"
    by (rule loop_step_hands [OF assms(6) False])
  obtain w where "bl_writes (hb_ble h') = bl_writes (hb_ble h) @ w" using loop_step_writes [OF assms(6) False] by blast
  with loop_step_pool [OF assms(6) False] hand hands assms(4,5) show ?thesis
    by (intro exI [of _ r] exI [of _ w], cases res) (simp_all add: race_moves_def)
qed

text \<open>A step of any task is at most one step of the race.\<close>

lemma race_view_moves:
  assumes "race_view js node t r" and "race_moves js node r r' (ok_packets w)"
    and "bl_writes (hb_ble (tk_hub t')) = bl_writes (hb_ble (tk_hub t)) @ w"
    and "ra_pool r' = hb_pool (tk_hub t')" and "ra_hand r' = loop_race_hand node (tk_loop t')"
    and "tk_mqtt t' = tk_mqtt t" and "tk_received t' = tk_received t"
  shows "(r' = r \<or> race_step node r r') \<and> race_view js node t' r'"
  using assms by (auto simp: race_view_def race_moves_def ok_packets_def intro: list_emb_append_mono)

lemma main_task_race:
  assumes "tasks_ok t" and "fits 18 node" and "race_view (he_json env) node t r"
  shows "\<exists>r'. (r' = r \<or> race_step node r r') \<and> race_view (he_json env) node (task_do env api (MainTask serial up) t) r'"
proof -
  obtain res h' where step: "loop_step env up (tk_loop t) (tk_hub t) = (res, h')" by fastforce
  have "ra_pool r = hb_pool (tk_hub t)" "ra_hand r = loop_race_hand node (tk_loop t)"
    using assms(3) by (simp_all add: race_view_def)
  from loop_race [OF _ assms(2) _ this step] assms(1) obtain r' w where
    r': "bl_writes (hb_ble h') = bl_writes (hb_ble (tk_hub t)) @ w" "race_moves (he_json env) node r r' (ok_packets w)"
      "ra_pool r' = hb_pool h'" "ra_hand r' = (case res of None \<Rightarrow> None | Some pc' \<Rightarrow> loop_race_hand node pc')"
    by (auto simp: tasks_ok_def)
  have "(r' = r \<or> race_step node r r') \<and> race_view (he_json env) node (task_do env api (MainTask serial up) t) r'"
    using step r'(1,3,4) by (intro race_view_moves [OF assms(3) r'(2)]) (simp_all add: Let_def split: option.splits)
  then show ?thesis by blast
qed

lemma mqtt_step_race:
  assumes "fits 18 node" and "list_all (\<lambda>c. fits 18 (mc_target c)) (mqtt_hand m)"
    and "ra_pool r = hb_pool h" and "mqtt_step env m h = (m', h')"
  shows "\<exists>r' w. (r' = r \<or> race_step node r r') \<and> bl_writes (hb_ble h') = bl_writes (hb_ble h) @ w
    \<and> ra_pool r' = hb_pool h' \<and> ra_hand r' = ra_hand r \<and> ra_sent r' = ra_sent r
    \<and> subseq (map unstamp (ra_accepted r') @ cmds_for node (mqtt_hand m'))
        (map unstamp (ra_accepted r) @ cmds_for node (mqtt_hand m))"
proof (cases "\<exists>c cs. m = Sent c False cs")
  case True
  then obtain c cs where m: "m = Sent c False cs" by blast
  obtain ok p where push: "pool_push (clock env h) (ra_pool r) (mc_target c) c = (ok, p)" by fastforce
  have h': "m' = Handling cs" "hb_pool h' = p" "bl_writes (hb_ble h') = bl_writes (hb_ble h)"
    using assms(3,4) m push by (auto simp: read_clock_def)
  show ?thesis
  proof (cases "mc_target c = node")
    case True
    with push have "race_step node r (r\<lparr>ra_pool := p, ra_accepted := ra_accepted r @ (if ok then [c] else [])\<rparr>)"
      by (intro race_step.push) simp
    with h' m True show ?thesis
      by (intro exI [of _ "r\<lparr>ra_pool := p, ra_accepted := ra_accepted r @ (if ok then [c] else [])\<rparr>"]
          exI [of _ "[]"]) (auto intro: list_emb_append_mono)
  next
    case False
    have "fits 18 (mc_target c)" using assms(2) m by simp
    with push False have "race_step node r (r\<lparr>ra_pool := p\<rparr>)"
      by (intro race_step.other [where now = "clock env h" and n = "mc_target c" and c = c]) simp_all
    with h' m False show ?thesis
      by (intro exI [of _ "r\<lparr>ra_pool := p\<rparr>"] exI [of _ "[]"]) simp
  qed
next
  case False
  have hub: "bl_writes (hb_ble (handleHubCommand env c h)) = bl_writes (hb_ble h)"
      "hb_pool (handleHubCommand env c h) = hb_pool h" for c
    by (simp_all add: handleHubCommand_def handleHubStatus_def publish_def read_clock_def)
  have "\<exists>w. bl_writes (hb_ble h') = bl_writes (hb_ble h) @ w"
    using assms(4) False hub send_now_writes
    by (cases "(env, m, h)" rule: mqtt_step.cases) (auto split: if_splits prod.splits, blast+)
  then obtain w where w: "bl_writes (hb_ble h') = bl_writes (hb_ble h) @ w" by blast
  have "hb_pool h' = hb_pool h" and "subseq (cmds_for node (mqtt_hand m')) (cmds_for node (mqtt_hand m))"
    using assms(4) False hub send_now_ble(3)
    by (cases "(env, m, h)" rule: mqtt_step.cases; force split: if_splits prod.splits)+
  with w assms(3) show ?thesis
    by (intro exI [of _ r] exI [of _ w]) (simp add: list_emb_append_mono)
qed

lemma task_do_race:
  assumes "tasks_ok t" and "fits 18 node" and "race_view (he_json env) node t r"
  shows "\<exists>r'. (r' = r \<or> race_step node r r') \<and> race_view (he_json env) node (task_do env api a t) r'"
proof (cases a)
  case (MainTask serial up)
  with main_task_race [OF assms] show ?thesis by simp
next
  case MqttTask
  obtain m' h' where step: "mqtt_step env (tk_mqtt t) (tk_hub t) = (m', h')" by fastforce
  have view: "ra_pool r = hb_pool (tk_hub t)"
      "subseq (map unstamp (ra_accepted r) @ cmds_for node (mqtt_hand (tk_mqtt t))) (cmds_for node (tk_received t))"
    using assms(3) by (simp_all add: race_view_def)
  have "list_all (\<lambda>c. fits 18 (mc_target c)) (mqtt_hand (tk_mqtt t))" using assms(1) by (simp add: tasks_ok_def)
  from mqtt_step_race [OF assms(2) this view(1) step] obtain r' w where
    r': "r' = r \<or> race_step node r r'" "bl_writes (hb_ble h') = bl_writes (hb_ble (tk_hub t)) @ w"
      "ra_pool r' = hb_pool h'" "ra_hand r' = ra_hand r" "ra_sent r' = ra_sent r"
      "subseq (map unstamp (ra_accepted r') @ cmds_for node (mqtt_hand m'))
        (map unstamp (ra_accepted r) @ cmds_for node (mqtt_hand (tk_mqtt t)))" by blast
  from subseq_order.trans [OF r'(6) view(2)]
  have "race_view (he_json env) node (task_do env api MqttTask t) r'"
    using assms(3) r'(2-5) step by (auto simp: race_view_def ok_packets_def intro: list_emb_append2 list_emb_prefix)
  with r'(1) MqttTask show ?thesis by blast
next
  case (Arrives i ev)
  obtain m h' where arr: "arrive env i ev (tk_hub t) = (m, h')" by fastforce
  have "race_view (he_json env) node (task_do env api a t) r"
    using arrive_quiet [OF arr] arr assms(3) Arrives task_do_arrives [of env api i ev t]
    by (auto simp: race_view_def intro: list_emb_append_mono)
  then show ?thesis by blast
next
  case (HostTask e)
  with assms(3) show ?thesis by (intro exI [of _ r]) (simp add: race_view_def on_ble_def)
qed

text \<open>
  A run of the race beside a schedule: a state for each prefix of the schedule, each one step after the one
  before, or the same, and in agreement with the hub.
\<close>

lemma schedule_race:
  assumes "tasks_ok t" and "fits 18 node" and "race_view (he_json env) node t (f0)"
  shows "\<exists>f. f 0 = f0 \<and> (\<forall>i<length sched. f (Suc i) = f i \<or> race_step node (f i) (f (Suc i)))
    \<and> (\<forall>i\<le>length sched. race_view (he_json env) node (task_run env api (take i sched) t) (f i))"
proof (induction sched rule: rev_induct)
  case Nil
  from assms(3) show ?case by (intro exI [of _ "\<lambda>_. f0"]) simp
next
  case (snoc a sched)
  let ?t = "task_run env api sched t" and ?n = "length sched"
  from snoc obtain f where f: "f 0 = f0" "\<forall>i<?n. f (Suc i) = f i \<or> race_step node (f i) (f (Suc i))"
    "\<forall>i\<le>?n. race_view (he_json env) node (task_run env api (take i sched) t) (f i)" by blast
  have "tasks_ok ?t" using assms(1) by (rule task_run_keeps) (rule task_do_ok)
  moreover have "race_view (he_json env) node ?t (f ?n)" using f(3) by force
  ultimately obtain r' where r': "r' = f ?n \<or> race_step node (f ?n) r'"
    "race_view (he_json env) node (task_do env api a ?t) r'"
    using task_do_race [OF _ assms(2)] by blast
  let ?f = "f(Suc ?n := r')"
  have "\<forall>i<length (sched @ [a]). ?f (Suc i) = ?f i \<or> race_step node (?f i) (?f (Suc i))"
    using f(2) r'(1) by (auto simp: less_Suc_eq)
  moreover have "\<forall>i\<le>length (sched @ [a]). race_view (he_json env) node (task_run env api (take i (sched @ [a])) t) (?f i)"
    using f(3) r'(2) by (auto simp: le_Suc_eq)
  ultimately show ?case using f(1) by (intro exI [of _ ?f]) simp
qed

lemma race_view_start:
  "race_view js node (power_on_tasks env api root_ca mac wifiUp addr0 pmem rmem amem mem nvs) (race_start mem)"
  by (simp add: race_view_def tasks_at_def race_start_def hub_power_on_def hub_setup_def on_mqtt_def Let_def)

lemma flush_race_in_hand:
  "flush_target f \<Longrightarrow> map unstamp (case flush_race_hand node f of None \<Rightarrow> [] | Some c \<Rightarrow> [c]) = cmds_for node (flush_hand f)"
  by (cases f) auto

lemma loop_race_in_hand:
  assumes "loop_target pc" and "ra_hand r = loop_race_hand node pc"
  shows "map unstamp (in_hand r) = cmds_for node (loop_hand pc)"
  using assms flush_race_in_hand
  by (cases "(node, pc)" rule: loop_race_hand.cases) (auto simp: in_hand_def simp del: flush_hand.simps)

section \<open>Properties of the interleaving\<close>

text \<open>
  C7: the hub under any schedule of its tasks refines, for every node, the interleaved pool: beside the
  schedule there is a run of the race, one state for each prefix, each one race step after the one before or
  the same; at every moment it has the hub's pool and the command in the hand of a flush, it has accepted
  commands in the order in which they have arrived, and what it has sent is on the wire in this order.
\<close>

theorem hub_refines_race:
  assumes "boot_mem pmem rmem amem" and "pool_mem mem" and "fits 18 node"
    and "t0 = power_on_tasks env api root_ca mac wifiUp addr0 pmem rmem amem mem nvs"
  shows "\<exists>f. f 0 = race_start mem \<and> (\<forall>i<length sched. f (Suc i) = f i \<or> race_step node (f i) (f (Suc i)))
    \<and> (\<forall>i\<le>length sched. race_view (he_json env) node (task_run env api (take i sched) t0) (f i))"
  unfolding assms(4)
  by (rule schedule_race [OF tasks_ok_start(1) [OF assms(1,2) refl] assms(3) race_view_start])

theorem hub_refines_race_witness:
  "\<exists>f. f 0 = race_start example_mem \<and> ra_pool (f (13 :: nat)) = hb_pool (tk_hub overtaken)
     \<and> subseq (map unstamp (ra_accepted (f 13))) [one_command]"
proof -
  have "fits 18 ''aa''" by (simp add: fits_def)
  from hub_refines_race [where env = one_env and api = "map_wifi True" and sched = "pause_schedule @ [MqttTask]"
      and root_ca = "[]" and mac = "''AA:BB''" and wifiUp = True and ?addr0.0 = "[]" and nvs = Map.empty,
      OF example_boot_mem example_mem_ok this refl, folded one_start_def] obtain f where
    f: "f 0 = race_start example_mem"
      "\<forall>i\<le>length (pause_schedule @ [MqttTask]). race_view (he_json one_env) ''aa''
        (task_run one_env (map_wifi True) (take i (pause_schedule @ [MqttTask])) (tasks_at one_start [])) (f i)" by blast
  have len: "length (pause_schedule @ [MqttTask]) = 13" by (simp add: pause_schedule_def)
  with f(2) have "race_view (he_json one_env) ''aa'' overtaken (f 13)"
    unfolding overtaken_run by (metis order_refl take_all)
  then have pool: "ra_pool (f 13) = hb_pool (tk_hub overtaken)"
    and "subseq (map unstamp (ra_accepted (f 13)) @ cmds_for ''aa'' []) (cmds_for ''aa'' [one_command])"
    unfolding race_view_def overtaken_facts mqtt_hand.simps by (simp_all del: list.map filter.simps)
  moreover have "cmds_for ''aa'' [one_command] = [one_command]" by (simp add: one_command_def unstamp_def)
  ultimately show ?thesis using f(1) by (intro exI [of _ f]) simp
qed

lemma race_trace_reach:
  assumes "\<forall>i<n. f (Suc i) = f i \<or> race_step node (f i) (f (Suc i))"
  shows "race_reach node (f 0) (f n)"
  using assms
proof (induction n)
  case 0
  show ?case by (rule race_reach.start)
next
  case (Suc n)
  then have "race_reach node (f 0) (f n)" and "f (Suc n) = f n \<or> race_step node (f n) (f (Suc n))" by simp_all
  then show ?case by (elim disjE) (simp, rule race_reach.step)
qed

text \<open>
  C10: no command overtakes another one on its way to the pool or in it: however the tasks are scheduled, the
  command that a flush has taken for a node, then those that wait in the pool for it, then those the MQTT task has
  still to handle, are a subsequence of the commands received for it, in the order of their arrival.
\<close>

theorem scheduled_keeps_order:
  assumes "boot_mem pmem rmem amem" and "pool_mem mem" and "fits 18 node"
    and "t = task_run env api sched (power_on_tasks env api root_ca mac wifiUp addr0 pmem rmem amem mem nvs)"
  shows "subseq (cmds_for node (loop_hand (tk_loop t)) @ map unstamp (mb_pending (pool_abs (hb_pool (tk_hub t))) node)
      @ cmds_for node (mqtt_hand (tk_mqtt t))) (cmds_for node (tk_received t))"
proof -
  let ?t0 = "power_on_tasks env api root_ca mac wifiUp addr0 pmem rmem amem mem nvs" and ?n = "length sched"
  have start: "tasks_ok ?t0" "race_view (he_json env) node ?t0 (race_start mem)"
    by (rule tasks_ok_start(1) [OF assms(1,2) refl], rule race_view_start)
  from schedule_race [OF start(1) assms(3) start(2), of sched api]
  obtain f where f: "f 0 = race_start mem" "\<forall>i<?n. f (Suc i) = f i \<or> race_step node (f i) (f (Suc i))"
      "\<forall>i\<le>?n. race_view (he_json env) node (task_run env api (take i sched) ?t0) (f i)"
    by (elim exE conjE)
  let ?r = "f ?n"
  have view: "race_view (he_json env) node t ?r" using f(3) by (force simp: assms(4))
  have ok: "race_ok node ?r"
    using race_reach_ok [OF race_trace_reach [OF f(2)] assms(3)] race_start_ok [OF assms(2)] f(1) by simp
  have "tasks_ok t" unfolding assms(4) by (rule tasks_ok_power_on [OF assms(1,2)])
  then have target: "loop_target (tk_loop t)" by (simp add: tasks_ok_def)
  have hand: "map unstamp (in_hand ?r) = cmds_for node (loop_hand (tk_loop t))"
    using loop_race_in_hand [OF target] view by (simp add: race_view_def)
  let ?line = "cmds_for node (loop_hand (tk_loop t)) @ map unstamp (mb_pending (pool_abs (hb_pool (tk_hub t))) node)"
  have "subseq (map unstamp (ra_sent ?r) @ ?line) (map unstamp (ra_accepted ?r))"
    using ok view hand by (simp add: race_ok_def race_line_def race_view_def)
  then have "subseq ?line (map unstamp (ra_accepted ?r))" by (rule subseq_order.trans [rotated]) auto
  then have "subseq (?line @ cmds_for node (mqtt_hand (tk_mqtt t)))
      (map unstamp (ra_accepted ?r) @ cmds_for node (mqtt_hand (tk_mqtt t)))"
    by (rule list_emb_append_mono) simp
  also have "subseq \<dots> (cmds_for node (tk_received t))" using view by (simp add: race_view_def)
  finally show ?thesis by simp
qed

theorem scheduled_keeps_order_witness:
  "subseq (cmds_for ''aa'' (mqtt_hand (tk_mqtt paused))) (cmds_for ''aa'' (tk_received paused))
   \<and> mqtt_hand (tk_mqtt paused) = [one_command]"
proof -
  have "fits 18 ''aa''" by (simp add: fits_def)
  from scheduled_keeps_order [OF example_boot_mem example_mem_ok this paused_def [unfolded one_start_def]]
  show ?thesis
    using paused_facts(1,2) by (auto dest: list_emb_appendD intro: subseq_order.trans [rotated])
qed

end
