(* ===== verification/Hub_Progress.thy ===== *)
theory Hub_Progress
  imports Hub_Traffic
begin

text \<open>
  Progress of the hub in a calm environment: no callback interferes and nothing that the hub asks of
  NimBLE fails.  The nodes that have been found get connected one per pass, and what is pending for a node
  that is connected, or found, is written within a bounded number of passes.
\<close>

section \<open>A calm environment\<close>

definition calm :: "'adr ble_env \<Rightarrow> bool" where
  "calm e \<longleftrightarrow> (\<forall>n. be_events e n = [] \<and> be_create e n \<and> be_connect e n \<and> be_write e n
     \<and> be_service e TEMPIO_SERVICE_UUID n
     \<and> be_characteristic e TEMPIO_SERVICE_UUID TEMPIO_CHAR_DATA_UUID n \<noteq> None
     \<and> be_characteristic e TEMPIO_SERVICE_UUID TEMPIO_CHAR_CONFIG_UUID n \<noteq> None
     \<and> be_canNotify e TEMPIO_SERVICE_UUID TEMPIO_CHAR_DATA_UUID n)"

text \<open>Every connected node has its configuration characteristic.\<close>

definition configured :: "'adr ble \<Rightarrow> bool" where
  "configured b \<longleftrightarrow> (\<forall>n \<in> set (bl_nodes b). cn_used n \<longrightarrow> cn_configChar n \<noteq> None)"

definition same_links :: "'adr ble \<Rightarrow> 'adr ble \<Rightarrow> bool" where
  "same_links b b' \<longleftrightarrow> bl_nodes b' = bl_nodes b \<and> bl_pendingQueue b' = bl_pendingQueue b"

lemma same_links_refl [simp, intro]: "same_links b b"
  by (simp add: same_links_def)

lemma same_links_trans: "same_links b b' \<Longrightarrow> same_links b' b'' \<Longrightarrow> same_links b b''"
  by (simp add: same_links_def)

lemma same_linksD:
  assumes "same_links b b'"
  shows "configured b' = configured b" and "isAlreadyConnected b' addr = isAlreadyConnected b addr"
    and "findEmptySlot b' = findEmptySlot b" and "activeCount b' = activeCount b" and "found b' = found b"
    and "bleIsNodeConnected e b' node = bleIsNodeConnected e b node"
  using assms
  by (simp_all add: same_links_def configured_def isAlreadyConnected_def findSlotIndex_def findEmptySlot_def
      activeCount_def bleIsNodeConnected_def)

lemma calm_call: "calm e \<Longrightarrow> ble_call e b = b\<lparr>bl_calls := Suc (bl_calls b)\<rparr>"
  by (simp add: calm_def ble_call_def run_events_def)

lemma calm_write:
  "calm e \<Longrightarrow> writeValue e b ch d
     = (True, b\<lparr>bl_writes := bl_writes b @ [(ch, d, True)], bl_calls := Suc (bl_calls b)\<rparr>)"
  by (simp add: writeValue_def calm_call Let_def) (simp add: calm_def)

lemma isAlreadyConnected_nodes:
  "isAlreadyConnected b addr \<longleftrightarrow> (\<exists>n \<in> set (bl_nodes b). cn_used n \<and> cn_addr n = addr)"
  by (auto simp: isAlreadyConnected_def findSlotIndex_def first_index_None simp del: not_None_eq)

text \<open>What the loop sees of the slots: address and characteristic of the connected nodes.\<close>

definition view :: "'adr ble \<Rightarrow> ('adr \<times> nat option) option list" where
  "view b = map (\<lambda>n. if cn_used n then Some (cn_addr n, cn_configChar n) else None) (bl_nodes b)"

lemma view_facts:
  "configured b \<longleftrightarrow> (\<forall>a. Some (a, None) \<notin> set (view b))"
  "isAlreadyConnected b a \<longleftrightarrow> (\<exists>c. Some (a, c) \<in> set (view b))"
  "findEmptySlot b = first_index (\<lambda>x. x = None) (view b)"
  "activeCount b = length (filter (\<lambda>x. x \<noteq> None) (view b))"
proof -
  have "Some (a, None) \<in> set (view b) \<longleftrightarrow>
      (\<exists>n \<in> set (bl_nodes b). cn_used n \<and> cn_addr n = a \<and> cn_configChar n = None)" for a
    by (auto simp: view_def image_iff split: if_splits)
  then show "configured b \<longleftrightarrow> (\<forall>a. Some (a, None) \<notin> set (view b))"
    unfolding configured_def by metis
  show "isAlreadyConnected b a \<longleftrightarrow> (\<exists>c. Some (a, c) \<in> set (view b))"
    by (auto simp: isAlreadyConnected_nodes view_def image_iff split: if_splits)
  show "findEmptySlot b = first_index (\<lambda>x. x = None) (view b)"
    unfolding findEmptySlot_def findSlotIndex_def view_def first_index_map
    by (rule first_index_cong) simp
  show "activeCount b = length (filter (\<lambda>x. x \<noteq> None) (view b))"
    by (simp add: activeCount_def view_def filter_map comp_def)
qed

lemma view_nodes: "bl_nodes b' = bl_nodes b \<Longrightarrow> view b' = view b"
  by (simp add: view_def)

lemma view_setNode:
  "i < length (bl_nodes b) \<Longrightarrow> view (setNode i f b) = (view b)[i :=
     (let n = f (bl_nodes b ! i) in if cn_used n then Some (cn_addr n, cn_configChar n) else None)]"
  by (simp add: view_def setNode_def map_update Let_def)

lemma view_setNode_free:
  assumes "i < length (bl_nodes b)" and "\<not> cn_used (bl_nodes b ! i)" and "\<not> cn_used (f (bl_nodes b ! i))"
  shows "view (setNode i f b) = view b"
  using assms by (simp add: view_setNode Let_def) (simp add: view_def list_update_same_conv)

text \<open>
  \<open>node_char\<close>: the configuration characteristic of a slot in use that holds the node's address.  Here
  writes to the node go.
\<close>

definition node_char :: "'adr ble_env \<Rightarrow> 'adr ble \<Rightarrow> string \<Rightarrow> nat \<Rightarrow> bool" where
  "node_char e b node ch \<longleftrightarrow> Some (be_addr e (cstr node), Some ch) \<in> set (view b)"

text \<open>Sending changes no link, and succeeds if it can.\<close>

lemma calm_trySend:
  assumes "calm e" and "trySend e js c b = (ok, b')"
  shows "same_links b b'"
proof (cases "packet_of js c")
  case None
  with assms(2) show ?thesis by (simp add: trySend_packet)
next
  case (Some pkt)
  with assms show ?thesis
    by (auto simp: trySend_packet bleSendToNode_def calm_write same_links_def split: option.splits)
qed

lemma calm_send:
  fixes js :: "'j json_api"
  assumes "calm e" and "configured b" and "bleIsNodeConnected e b node"
  shows "\<exists>ch. node_char e b node ch
    \<and> (\<forall>b1 c pkt. same_links b b1 \<and> mc_target c = node \<and> packet_of js c = Some pkt
        \<longrightarrow> (\<exists>b'. trySend e js c b1 = (True, b') \<and> bl_writes b' = bl_writes b1 @ [(ch, pkt, True)]))"
proof -
  let ?a = "be_addr e (cstr node)"
  obtain i where i: "findSlotByAddr b ?a = Some i"
    using assms(3) by (auto simp: bleIsNodeConnected_def isAlreadyConnected_def findSlotByAddr_def)
  note iD = findSlotByAddr_Some [OF i]
  then obtain ch where ch: "cn_configChar (bl_nodes b ! i) = Some ch"
    using assms(2) by (fastforce simp: configured_def)
  have "Some (?a, Some ch) = view b ! i" "i < length (view b)"
    using iD ch by (simp_all add: view_def)
  then have "node_char e b node ch" unfolding node_char_def by (metis nth_mem)
  moreover have "\<exists>b'. trySend e js c b1 = (True, b') \<and> bl_writes b' = bl_writes b1 @ [(ch, pkt, True)]"
    if "same_links b b1" "mc_target c = node" "packet_of js c = Some pkt" for b1 c pkt
  proof -
    have nodes: "bl_nodes b1 = bl_nodes b" using that(1) by (simp add: same_links_def)
    then have "findSlotByAddr b1 ?a = Some i" using i by (simp add: findSlotByAddr_def findSlotIndex_def)
    with that ch nodes assms(1) show ?thesis by (simp add: trySend_packet bleSendToNode_def calm_write)
  qed
  ultimately show ?thesis by blast
qed

lemma calm_flush_links:
  "calm (he_ble env) \<Longrightarrow> same_links (hb_ble h) (hb_ble (flushNodePending env node h))"
  by (rule flushNodePending_keeps(1) [of "same_links (hb_ble h)"])
    (auto intro: same_links_trans calm_trySend prod.collapse [symmetric])

text \<open>
  A flush of a connected node whose commands can all be sent leaves nothing behind, and every write of it
  goes to the node: \<open>can\<close> says that a send over the present links succeeds and goes to \<open>ch\<close>.
\<close>

lemma calm_flush_list:
  assumes "flush_list env n b cs = (b', n', r)" and "calm (he_ble env)"
    and can: "\<And>b1 c. same_links b0 b1 \<Longrightarrow> c \<in> set cs
      \<Longrightarrow> \<exists>b' pkt. trySend (he_ble env) (he_json env) c b1 = (True, b') \<and> bl_writes b' = bl_writes b1 @ [(ch, pkt, True)]"
    and "same_links b0 b"
  shows "r = None \<and> (\<exists>w. bl_writes b' = bl_writes b @ w \<and> (\<forall>(h, pkt, ok) \<in> set w. h = ch))"
  using assms
proof (induction env n b cs rule: flush_list.induct)
  case (1 env n b cs)
  show ?case
  proof (cases "dropWhile (\<lambda>c. \<not> cmd_fresh (he_millis env n) c) cs")
    case Nil
    then have "flush_list env n b cs = (b, Suc n, None)"
      by (subst flush_list.simps) (simp only: list.case)
    with "1.prems"(1) show ?thesis by simp
  next
    case (Cons c rest)
    then have c: "c \<in> set cs" and rest: "set rest \<subseteq> set cs"
      using set_dropWhileD [of _ "\<lambda>c. \<not> cmd_fresh (he_millis env n) c" cs] by auto
    from "1.prems"(3) [OF "1.prems"(4) c] obtain b1 pkt
      where send: "trySend (he_ble env) (he_json env) c b = (True, b1)"
        and w: "bl_writes b1 = bl_writes b @ [(ch, pkt, True)]"
      by blast
    have links: "same_links b0 b1"
      using calm_trySend [OF "1.prems"(2) send] "1.prems"(4) by (rule same_links_trans [rotated])
    have fl: "flush_list env (Suc n) b1 rest = (b', n', r)"
      using "1.prems"(1) Cons send by (simp add: flush_list.simps [of env n b cs])
    have "r = None \<and> (\<exists>w. bl_writes b' = bl_writes b1 @ w \<and> (\<forall>(h, pkt, ok) \<in> set w. h = ch))"
      using rest by (intro "1.IH" [OF Cons send [symmetric] refl fl "1.prems"(2) _ links] "1.prems"(3)) auto
    then obtain w' where "r = None" "bl_writes b' = bl_writes b1 @ w'" "\<forall>(h, pkt, ok) \<in> set w'. h = ch" by blast
    then show ?thesis by (intro conjI exI [of _ "(ch, pkt, True) # w'"]) (auto simp: w)
  qed
qed

lemma node_char_view:
  "node_char e b node ch \<longleftrightarrow>
     (\<exists>n \<in> set (bl_nodes b). cn_used n \<and> cn_addr n = be_addr e (cstr node) \<and> cn_configChar n = Some ch)"
  by (auto simp: node_char_def view_def image_iff split: if_splits) (metis IntI mem_Collect_eq)

section \<open>What becomes of a command\<close>

text \<open>
  Seen from a state \<open>h0\<close> on, a command is \<open>settled\<close> when it has since been written with success to
  its node, or has been found to be too old at one of the readings of the clock made since.  \<open>extends\<close>: what
  every step of the hub does in a calm environment; the log of writes grows, the clock is read on, and no link is lost.
\<close>

definition settled :: "('adr, 'j) hub_env \<Rightarrow> 'adr hub \<Rightarrow> 'adr hub \<Rightarrow> MqttCommand \<Rightarrow> bool" where
  "settled env h0 h c \<longleftrightarrow>
     (\<exists>w ch. bl_writes (hb_ble h) = bl_writes (hb_ble h0) @ w \<and> node_char (he_ble env) (hb_ble h) (mc_target c) ch
        \<and> (ch, the (packet_of (he_json env) c), True) \<in> set w)
     \<or> (\<exists>t \<in> {hb_reads h0 ..< hb_reads h}. \<not> cmd_fresh (he_millis env t) c)"

definition extends_ble :: "'adr ble \<Rightarrow> 'adr ble \<Rightarrow> bool" where
  "extends_ble b b' \<longleftrightarrow> (\<exists>w. bl_writes b' = bl_writes b @ w) \<and> (\<forall>x. Some x \<in> set (view b) \<longrightarrow> Some x \<in> set (view b'))"

definition extends :: "'adr hub \<Rightarrow> 'adr hub \<Rightarrow> bool" where
  "extends h h' \<longleftrightarrow> extends_ble (hb_ble h) (hb_ble h') \<and> hb_reads h \<le> hb_reads h'"

lemma extends_ble_trans: "extends_ble b b' \<Longrightarrow> extends_ble b' b'' \<Longrightarrow> extends_ble b b''"
  by (auto simp: extends_ble_def)

lemma extends_trans: "extends h h' \<Longrightarrow> extends h' h'' \<Longrightarrow> extends h h''"
  by (auto simp: extends_def intro: extends_ble_trans)

lemma extends_refl [simp]: "extends_ble b b" "extends h h"
  by (simp_all add: extends_def extends_ble_def)

lemma extends_same:
  assumes "bl_nodes b' = bl_nodes b" and "bl_writes b' = bl_writes b"
  shows "extends_ble b b'"
  using view_nodes [OF assms(1)] assms(2) by (simp add: extends_ble_def)

definition accounted :: "('adr, 'j) hub_env \<Rightarrow> 'adr hub \<Rightarrow> string \<Rightarrow> MqttCommand list \<Rightarrow> 'adr hub \<Rightarrow> bool" where
  "accounted env h0 node cs h \<longleftrightarrow> extends h0 h
     \<and> (\<forall>c \<in> set cs. settled env h0 h c \<or> c \<in> set (mb_pending (pool_abs (hb_pool h)) node))
     \<and> set (mb_pending (pool_abs (hb_pool h)) node) \<subseteq> set cs"

definition progress_ok :: "('adr, 'j) hub_env \<Rightarrow> 'adr hub \<Rightarrow> string \<Rightarrow> MqttCommand list \<Rightarrow> 'adr hub \<Rightarrow> bool" where
  "progress_ok env h0 node cs h \<longleftrightarrow> hub_inv [] h \<and> configured (hb_ble h) \<and> accounted env h0 node cs h"

lemma settled_mono:
  assumes "settled env h0 h c" and "extends h h'"
  shows "settled env h0 h' c"
  using assms(1) unfolding settled_def
proof (elim disjE exE conjE bexE)
  fix w ch
  assume w: "bl_writes (hb_ble h) = bl_writes (hb_ble h0) @ w" "node_char (he_ble env) (hb_ble h) (mc_target c) ch"
    "(ch, the (packet_of (he_json env) c), True) \<in> set w"
  obtain w' where "bl_writes (hb_ble h') = bl_writes (hb_ble h) @ w'" "node_char (he_ble env) (hb_ble h') (mc_target c) ch"
    using assms(2) w(2) by (auto simp: extends_def extends_ble_def node_char_def)
  with w show "(\<exists>w ch. bl_writes (hb_ble h') = bl_writes (hb_ble h0) @ w
        \<and> node_char (he_ble env) (hb_ble h') (mc_target c) ch \<and> (ch, the (packet_of (he_json env) c), True) \<in> set w)
     \<or> (\<exists>t \<in> {hb_reads h0 ..< hb_reads h'}. \<not> cmd_fresh (he_millis env t) c)"
    by (intro disjI1 exI [of _ "w @ w'"] exI [of _ ch]) simp
qed (use assms(2) in \<open>auto simp: extends_def\<close>)

lemma accounted_mono:
  assumes "accounted env h0 node cs h" and "extends h h'" and "pool_abs (hb_pool h') node = pool_abs (hb_pool h) node"
  shows "accounted env h0 node cs h'"
proof -
  have "mb_pending (pool_abs (hb_pool h')) node = mb_pending (pool_abs (hb_pool h)) node"
    using assms(3) by (simp add: mb_pending_def)
  with assms(1) show ?thesis
    using settled_mono [OF _ assms(2), of env h0] extends_trans [OF _ assms(2), of h0] unfolding accounted_def by auto
qed

lemma flush_trace_settled:
  assumes "flush_trace env n b cs w n' b' None ds" and "c \<in> set cs"
    and "\<forall>(h, pkt, ok) \<in> set w. h = ch"
  shows "(ch, the (packet_of (he_json env) c), True) \<in> set w \<or> (\<exists>t \<in> {n..<n'}. \<not> cmd_fresh (he_millis env t) c)"
proof -
  obtain s where s: "(c, s) \<in> set ds" using assms(1,2) by (auto simp: flush_trace_def)
  show ?thesis
  proof (cases s)
    case True
    with s have "(c, True) \<in> set (filter snd ds)" by simp
    moreover have "ok_packets w = map (\<lambda>(c, s). the (packet_of (he_json env) c)) (filter snd ds)"
      using assms(1) by (simp add: flush_trace_def)
    ultimately have "the (packet_of (he_json env) c) \<in> set (ok_packets w)"
      by (simp only: set_map) (rule image_eqI [where x = "(c, True)"], simp_all)
    then obtain h where "(h, the (packet_of (he_json env) c), True) \<in> set w" by (auto simp: ok_packets_def)
    with bspec [OF assms(3) this] show ?thesis by simp
  next
    case False
    have "\<forall>(c, s) \<in> set ds. if s then packet_of (he_json env) c \<noteq> None
        else (\<exists>t \<in> {n..<n'}. \<not> cmd_fresh (he_millis env t) c)"
      using assms(1) by (simp add: flush_trace_def)
    from bspec [OF this s] False show ?thesis by simp
  qed
qed

lemma calm_flush_node:
  assumes "calm (he_ble env)" and "progress_ok env h0 node cs h" and "fits 18 node"
    and "\<forall>c \<in> set cs. mc_target c = node \<and> packet_of (he_json env) c \<noteq> None"
    and "bleIsNodeConnected (he_ble env) (hb_ble h) node"
  shows "accounted env h0 node cs (flushNodePending env node h)
    \<and> mb_pending (pool_abs (hb_pool (flushNodePending env node h))) node = []"
proof -
  let ?cs = "mb_pending (pool_abs (hb_pool h)) node"
  have inv: "pool_inv (hb_pool h)" and conf: "configured (hb_ble h)" and acc: "accounted env h0 node cs h"
    using assms(2) by (simp_all add: progress_ok_def hub_inv_def)
  obtain b n r where fl: "flush_list env (hb_reads h) (hb_ble h) ?cs = (b, n, r)"
    by (metis prod_cases3)
  obtain ch where ch: "node_char (he_ble env) (hb_ble h) node ch"
    and can: "\<And>b1 c pkt. same_links (hb_ble h) b1 \<Longrightarrow> mc_target c = node \<Longrightarrow> packet_of (he_json env) c = Some pkt
        \<Longrightarrow> \<exists>b'. trySend (he_ble env) (he_json env) c b1 = (True, b') \<and> bl_writes b' = bl_writes b1 @ [(ch, pkt, True)]"
    using calm_send [OF assms(1) conf assms(5)] by blast
  have sub: "c \<in> set ?cs \<Longrightarrow> mc_target c = node \<and> packet_of (he_json env) c \<noteq> None" for c
    using acc assms(4) by (auto simp: accounted_def)
  have "\<exists>b' pkt. trySend (he_ble env) (he_json env) c b1 = (True, b') \<and> bl_writes b' = bl_writes b1 @ [(ch, pkt, True)]"
    if links: "same_links (hb_ble h) b1" and c: "c \<in> set ?cs" for b1 c
  proof -
    obtain pkt where "packet_of (he_json env) c = Some pkt" using sub [OF c] by blast
    from can [OF links conjunct1 [OF sub [OF c]] this] show ?thesis by blast
  qed
  from calm_flush_list [OF fl assms(1) this same_links_refl]
  have "r = None \<and> (\<exists>w. bl_writes b = bl_writes (hb_ble h) @ w \<and> (\<forall>(h, pkt, ok) \<in> set w. h = ch))" .
  then obtain w where r: "r = None" and w: "bl_writes b = bl_writes (hb_ble h) @ w"
    and to: "\<forall>(h, pkt, ok) \<in> set w. h = ch" by blast
  obtain ds w' where less: "hb_reads h < n" and tr: "flush_trace env (hb_reads h) (hb_ble h) ?cs w' n b r ds"
    using flush_list_trace [OF fl] by blast
  have "w' = w" using tr w by (simp add: flush_trace_def)
  note tr = tr [unfolded this r]
  let ?h = "flushNodePending env node h"
  have h: "hb_ble ?h = b" "hb_reads ?h = n" "pool_abs (hb_pool ?h) = (pool_abs (hb_pool h))(node := None)"
    using flushNode_loop_refines [OF inv assms(3) fl] assms(5) r by (simp_all add: flushNodePending_def)
  have links: "view b = view (hb_ble h)"
    using calm_flush_links [OF assms(1), of h node] unfolding h(1) same_links_def by (auto intro: view_nodes)
  have ext: "extends h ?h" using less by (simp add: extends_def extends_ble_def h w links)
  obtain v where v: "bl_writes (hb_ble h) = bl_writes (hb_ble h0) @ v" and le: "hb_reads h0 \<le> hb_reads h"
    using acc by (auto simp: accounted_def extends_def extends_ble_def)
  have settled: "settled env h0 ?h c" if "c \<in> set cs" for c
  proof (cases "c \<in> set ?cs")
    case True
    from flush_trace_settled [OF tr True to] show ?thesis
    proof
      assume "(ch, the (packet_of (he_json env) c), True) \<in> set w"
      then show ?thesis
        using ch v w sub [OF True] unfolding settled_def h
        by (intro disjI1 exI [of _ "v @ w"] exI [of _ ch]) (simp add: node_char_def links)
    next
      assume "\<exists>t \<in> {hb_reads h..<n}. \<not> cmd_fresh (he_millis env t) c"
      then show ?thesis using le unfolding settled_def h by (intro disjI2) auto
    qed
  next
    case False
    with acc that have "settled env h0 h c" by (auto simp: accounted_def)
    then show ?thesis using ext by (rule settled_mono)
  qed
  moreover have "extends h0 ?h" using acc ext by (auto simp: accounted_def intro: extends_trans)
  ultimately show ?thesis by (simp add: accounted_def h mb_pending_def)
qed

lemma flushNodePending_reads: "hb_reads h \<le> hb_reads (flushNodePending env m h)"
proof -
  have "hb_reads h \<le> hb_reads (flushNode_loop env m h)"
  proof (induction env m h rule: flushNode_loop.induct)
    case (1 env node h)
    obtain r p where pop: "pool_pop (clock env h) (hb_pool h) node = (r, p)" by fastforce
    show ?case
    proof (cases r)
      case None
      with pop show ?thesis by (subst flushNode_loop.simps) (simp add: read_clock_def)
    next
      case (Some c)
      obtain ok h2 where now: "send_now env c ((read_clock h)\<lparr>hb_pool := p\<rparr>) = (ok, h2)" by fastforce
      then have reads: "hb_reads h2 = Suc (hb_reads h)"
        by (auto simp: send_now_def read_clock_def split: prod.splits)
      show ?thesis
      proof (cases ok)
        case True
        from "1.IH" [OF refl pop [symmetric] refl Some now [symmetric] eq_True [THEN iffD2, OF True]]
        have "hb_reads h2 \<le> hb_reads (flushNode_loop env node h2)" .
        with reads pop Some now True show ?thesis by (subst flushNode_loop.simps) simp
      next
        case False
        with reads pop Some now show ?thesis by (subst flushNode_loop.simps) (simp add: read_clock_def)
      qed
    qed
  qed
  then show ?thesis by (simp add: flushNodePending_def)
qed

lemma flushNodePending_other:
  assumes "pool_inv (hb_pool h)" and "CHR 0x00 \<notin> set m" and "m \<noteq> node \<or> \<not> bleIsNodeConnected (he_ble env) (hb_ble h) m"
  shows "pool_abs (hb_pool (flushNodePending env m h)) node = pool_abs (hb_pool h) node"
proof (cases "fits 18 m \<and> bleIsNodeConnected (he_ble env) (hb_ble h) m")
  case True
  then obtain b n r where "flush_list env (hb_reads h) (hb_ble h) (mb_pending (pool_abs (hb_pool h)) m) = (b, n, r)"
    by (metis prod_cases3)
  from flushNode_loop_refines(5) [OF assms(1) _ this] True assms(3) show ?thesis
    by (simp add: flushNodePending_def)
next
  case False
  then consider "\<not> bleIsNodeConnected (he_ble env) (hb_ble h) m" | "\<not> fits 18 m" by blast
  then show ?thesis
  proof cases
    case 2
    with assms(2) have "\<not> fits 18 (cstr m)" by simp
    from pool_pop_unfit [OF assms(1) this] show ?thesis
      unfolding flushNodePending_def by (subst flushNode_loop.simps) (simp add: read_clock_def)
  qed (simp add: flushNodePending_def)
qed

lemma calm_flush:
  assumes "calm (he_ble env)" and "progress_ok env h0 node cs h" and "fits 18 node" and "CHR 0x00 \<notin> set m"
    and "\<forall>c \<in> set cs. mc_target c = node \<and> packet_of (he_json env) c \<noteq> None"
  shows "progress_ok env h0 node cs (flushNodePending env m h)"
proof -
  have inv: "hub_inv [] h" using assms(2) by (simp add: progress_ok_def)
  have "accounted env h0 node cs (flushNodePending env m h)"
  proof (cases "m = node \<and> bleIsNodeConnected (he_ble env) (hb_ble h) node")
    case True
    with calm_flush_node [OF assms(1-3,5)] show ?thesis by simp
  next
    case False
    have acc: "accounted env h0 node cs h" and pool: "pool_inv (hb_pool h)"
      using assms(2) by (simp_all add: progress_ok_def hub_inv_def)
    have ext: "extends h (flushNodePending env m h)"
      using flushNodePending_writes [of env m h] calm_flush_links [OF assms(1), of h m] flushNodePending_reads
      by (auto simp: extends_def extends_ble_def same_links_def dest: view_nodes)
    from False have "m \<noteq> node \<or> \<not> bleIsNodeConnected (he_ble env) (hb_ble h) m" by blast
    note same = flushNodePending_other [OF pool assms(4) this]
    show ?thesis by (rule accounted_mono [OF acc ext same])
  qed
  then show ?thesis
    using assms(2) flushNodePending_inv [OF inv assms(4)] same_linksD(1) [OF calm_flush_links [OF assms(1)]]
    by (simp add: progress_ok_def)
qed

section \<open>Connecting\<close>

text \<open>\<open>quiet_step\<close>: no link and no address in the queue changes, and the log of writes grows.\<close>

definition quiet_step :: "'adr ble \<Rightarrow> 'adr ble \<Rightarrow> bool" where
  "quiet_step b b' \<longleftrightarrow> view b' = view b \<and> bl_pendingQueue b' = bl_pendingQueue b
     \<and> (\<exists>w. bl_writes b' = bl_writes b @ w)"

lemma quiet_extends: "quiet_step b b' \<Longrightarrow> extends_ble b b'"
  by (simp add: quiet_step_def extends_ble_def)

lemma quiet_step_trans [trans]: "quiet_step b b' \<Longrightarrow> quiet_step b' b'' \<Longrightarrow> quiet_step b b''"
  by (auto simp: quiet_step_def)

lemma quiet_step_refl [simp]: "quiet_step b b"
  by (simp add: quiet_step_def)

lemma calm_quiet:
  assumes "calm e"
  shows "quiet_step b (ble_call e b)" and "quiet_step b (scan_set e on b)"
    and "quiet_step b (snd (writeValue e b ch d))" and "quiet_step b (hub_ready e slot b)"
  using assms
  by (auto simp: quiet_step_def view_def scan_set_def hub_ready_def calm_call calm_write split: option.splits)

lemma calm_acquire:
  assumes "calm e" and "findEmptySlot b = Some slot"
  shows "\<exists>c b1. acquireClient e b = (Some c, b1) \<and> quiet_step b b1"
proof -
  obtain r b0 where reuse: "findReusableClient b = (r, b0)" by fastforce
  show ?thesis
  proof (cases r)
    case None
    with findReusableClient_None(1) [OF assms(2) reuse [unfolded None]] assms(1) reuse show ?thesis
      by (simp add: acquireClient_def calm_call quiet_step_def view_def) (simp add: calm_def)
  next
    case (Some c)
    then obtain j where j: "findSlotIndex (\<lambda>n. \<not> cn_used n \<and> cn_client n \<noteq> None) b = Some j"
      and b0: "b0 = setNode j (cn_client_update (\<lambda>_. None)) b"
      using reuse by (auto simp: findReusableClient_def split: option.splits)
    note jD = findSlotIndex_SomeD [OF j]
    have "view b0 = view b"
      unfolding b0 using jD by (intro view_setNode_free) auto
    then have "quiet_step b b0" by (simp add: quiet_step_def b0) (simp add: setNode_def)
    with reuse Some show ?thesis by (simp add: acquireClient_def)
  qed
qed

lemma calm_discover:
  "calm e \<Longrightarrow> \<exists>b'. discoverAndSubscribe e b = (True, b') \<and> quiet_step b b'"
  by (simp add: discoverAndSubscribe_def calm_call Let_def quiet_step_def view_def) (simp add: calm_def)

lemma calm_register:
  assumes "calm e" and "slot < length (bl_nodes b)" and "\<not> cn_used (bl_nodes b ! slot)"
  shows "\<exists>ch. view (register_slot e slot c addr b) = (view b)[slot := Some (addr, Some ch)]"
    and "bl_pendingQueue (register_slot e slot c addr b) = bl_pendingQueue b"
proof -
  obtain ch where "be_characteristic e TEMPIO_SERVICE_UUID TEMPIO_CHAR_CONFIG_UUID (bl_calls b) = Some ch"
    using assms(1) unfolding calm_def by (metis option.exhaust)
  with assms show "\<exists>ch. view (register_slot e slot c addr b) = (view b)[slot := Some (addr, Some ch)]"
    by (intro exI [of _ ch]) (simp add: register_slot_def calm_call view_def setNode_def map_update)
  show "bl_pendingQueue (register_slot e slot c addr b) = bl_pendingQueue b"
    using assms(1) by (simp add: register_slot_def calm_call setNode_def)
qed

text \<open>
  A connection succeeds: it takes the empty slot, and then flushes for the new node.  Nothing else
  changes.
\<close>

lemma calm_connect:
  assumes "calm (he_ble env)" and "findEmptySlot (hb_ble h) = Some slot" and "hub_inv [] h"
  shows "\<exists>b ch. connectToNode env addr h
      = (True, flushNodePending env (cstr (be_toString (he_ble env) addr)) (h\<lparr>hb_ble := b\<rparr>))
    \<and> hub_inv [] (h\<lparr>hb_ble := b\<rparr>) \<and> view b = (view (hb_ble h))[slot := Some (addr, Some ch)]
    \<and> bl_pendingQueue b = bl_pendingQueue (hb_ble h)
    \<and> (\<exists>w. bl_writes b = bl_writes (hb_ble h) @ w)"
proof -
  let ?e = "he_ble env"
  have inv: "ble_inv [] (hb_ble h)" and pool: "pool_inv (hb_pool h)"
    using assms(3) by (simp_all add: hub_inv_def)
  obtain c b1 where acq: "acquireClient ?e (hb_ble h) = (Some c, b1)" and q1: "quiet_step (hb_ble h) b1"
    using calm_acquire [OF assms(1,2)] by blast
  obtain b3 where disc: "discoverAndSubscribe ?e (ble_call ?e b1) = (True, b3)"
    and q3: "quiet_step (ble_call ?e b1) b3"
    using calm_discover [OF assms(1)] by blast
  have "ble_inv [c] b1 \<and> free_slot slot b1"
    using acquireClient_inv [OF inv assms(2) acq] by simp
  then have b3: "ble_inv [c] b3 \<and> free_slot slot b3"
    using discoverAndSubscribe_keeps [of "\<lambda>b. ble_inv [c] b \<and> free_slot slot b" ?e "ble_call ?e b1"]
    by (simp add: disc ble_call_inv free_slot_call)
  define b4 where "b4 = register_slot ?e slot c addr b3"
  define b where "b = (hub_ready ?e slot (ble_call ?e b4))\<lparr>bl_led := True\<rparr>"
  have connected: "be_connect ?e (bl_calls b1)" using assms(1) by (simp add: calm_def)
  have "quiet_step (hb_ble h) b3"
    using quiet_step_trans [OF quiet_step_trans [OF q1 calm_quiet(1) [OF assms(1)]] q3] .
  then have q: "view b3 = view (hb_ble h)" "bl_pendingQueue b3 = bl_pendingQueue (hb_ble h)"
    by (simp_all add: quiet_step_def)
  have slot: "slot < length (bl_nodes b3)" "\<not> cn_used (bl_nodes b3 ! slot)"
    using b3 by (simp_all add: free_slot_def)
  have "quiet_step b4 (hub_ready ?e slot (ble_call ?e b4))"
    by (rule quiet_step_trans [OF calm_quiet(1) calm_quiet(4)]) (rule assms(1))+
  then have "view b = view b4" "bl_pendingQueue b = bl_pendingQueue b4" "\<exists>w. bl_writes b = bl_writes b4 @ w"
    by (simp_all add: quiet_step_def b_def view_def)
  moreover have "bl_writes b4 = bl_writes (hb_ble h)"
  proof -
    have "bl_writes b1 = bl_writes (hb_ble h)" using connect_steps_writes(3) [of ?e "hb_ble h"] acq by simp
    then have "bl_writes b3 = bl_writes (hb_ble h)"
      using connect_steps_writes(4) [of ?e "ble_call ?e b1"] disc by simp
    then show ?thesis by (simp add: b4_def)
  qed
  moreover have "hub_inv [] (h\<lparr>hb_ble := b\<rparr>)"
    using b3 pool by (simp add: hub_inv_ble b_def b4_def hub_ready_inv ble_call_inv register_slot_inv(1))
  moreover have "connectToNode env addr h
      = (True, flushNodePending env (cstr (be_toString ?e addr)) (h\<lparr>hb_ble := b\<rparr>))"
    using assms(2) acq connected disc
    by (simp add: connectToNode_def registerNode_steps b_def b4_def Let_def)
  moreover obtain ch where "view b4 = (view (hb_ble h))[slot := Some (addr, Some ch)]"
    using calm_register(1) [OF assms(1) slot, of c addr] q(1) by (auto simp: b4_def)
  moreover have "bl_pendingQueue b4 = bl_pendingQueue (hb_ble h)"
    using calm_register(2) [OF assms(1) slot, of c addr] q(2) by (simp add: b4_def)
  ultimately show ?thesis
    by (intro exI [of _ b] exI [of _ ch]) simp
qed

section \<open>One pass\<close>

text \<open>\<open>cs\<close> are the commands of \<open>node\<close> that are followed; each can be encoded.\<close>

definition calm_for :: "('adr, 'j) hub_env \<Rightarrow> string \<Rightarrow> MqttCommand list \<Rightarrow> bool" where
  "calm_for env node cs \<longleftrightarrow> calm (he_ble env) \<and> fits 18 node
     \<and> (\<forall>c \<in> set cs. mc_target c = node \<and> packet_of (he_json env) c \<noteq> None)"

lemma progress_ble:
  assumes "progress_ok env h0 node cs h" and "hub_inv [] (h\<lparr>hb_ble := b\<rparr>)" and "configured b"
    and "extends_ble (hb_ble h) b"
  shows "progress_ok env h0 node cs (h\<lparr>hb_ble := b\<rparr>)"
  using assms accounted_mono [of env h0 node cs h "h\<lparr>hb_ble := b\<rparr>"] by (simp add: progress_ok_def extends_def)

lemma progress_scan:
  assumes "progress_ok env h0 node cs h" and "calm (he_ble env)"
  shows "progress_ok env h0 node cs (h\<lparr>hb_ble := scan_set (he_ble env) on (hb_ble h)\<rparr>)"
    and "view (scan_set (he_ble env) on (hb_ble h)) = view (hb_ble h)"
    and "found (scan_set (he_ble env) on (hb_ble h)) = found (hb_ble h)"
proof -
  have q: "quiet_step (hb_ble h) (scan_set (he_ble env) on (hb_ble h))"
    by (rule calm_quiet(2) [OF assms(2)])
  then show "view (scan_set (he_ble env) on (hb_ble h)) = view (hb_ble h)"
    "found (scan_set (he_ble env) on (hb_ble h)) = found (hb_ble h)"
    by (simp_all add: quiet_step_def)
  have "hub_inv [] (h\<lparr>hb_ble := scan_set (he_ble env) on (hb_ble h)\<rparr>)"
    using assms(1) by (auto simp: progress_ok_def hub_inv_def intro: scan_set_inv)
  moreover have "configured (scan_set (he_ble env) on (hb_ble h))"
    using assms(1) q unfolding progress_ok_def quiet_step_def view_facts(1) by simp
  ultimately show "progress_ok env h0 node cs (h\<lparr>hb_ble := scan_set (he_ble env) on (hb_ble h)\<rparr>)"
    using assms(1) quiet_extends [OF q] by (intro progress_ble)
qed

lemma flush_same:
  assumes "calm (he_ble env)"
  shows "view (hb_ble (flushNodePending env m h)) = view (hb_ble h)"
    and "found (hb_ble (flushNodePending env m h)) = found (hb_ble h)"
  using calm_flush_links [OF assms, of h m] unfolding same_links_def by (auto intro: view_nodes)

lemma connected_view: "view b' = view b \<Longrightarrow> bleIsNodeConnected e b' m = bleIsNodeConnected e b m"
  by (simp add: bleIsNodeConnected_def view_facts(2))

lemma flush_seq:
  assumes "progress_ok env h0 node cs h" and "calm_for env node cs" and "\<forall>m \<in> set ms. CHR 0x00 \<notin> set m"
  defines "h' \<equiv> foldl (\<lambda>h m. flushNodePending env m h) h ms"
  shows "progress_ok env h0 node cs h'" and "view (hb_ble h') = view (hb_ble h)" and "found (hb_ble h') = found (hb_ble h)"
    and "mb_pending (pool_abs (hb_pool h)) node = []
      \<or> node \<in> set ms \<and> bleIsNodeConnected (he_ble env) (hb_ble h) node
      \<Longrightarrow> mb_pending (pool_abs (hb_pool h')) node = []"
proof -
  have calm: "calm (he_ble env)" and node: "fits 18 node"
    and sendable: "\<forall>c \<in> set cs. mc_target c = node \<and> packet_of (he_json env) c \<noteq> None"
    using assms(2) by (simp_all add: calm_for_def)
  have all: "progress_ok env h0 node cs h' \<and> view (hb_ble h') = view (hb_ble h) \<and> found (hb_ble h') = found (hb_ble h)
    \<and> (mb_pending (pool_abs (hb_pool h)) node = []
      \<or> node \<in> set ms \<and> bleIsNodeConnected (he_ble env) (hb_ble h) node
      \<longrightarrow> mb_pending (pool_abs (hb_pool h')) node = [])"
    using assms(1,3) unfolding h'_def
  proof (induction ms arbitrary: h)
    case (Cons m ms)
    let ?h = "flushNodePending env m h"
    have inv: "pool_inv (hb_pool h)" using Cons.prems(1) by (simp add: progress_ok_def hub_inv_def)
    have ok: "progress_ok env h0 node cs ?h" using calm_flush [OF calm Cons.prems(1) node _ sendable] Cons.prems(2) by simp
    have "mb_pending (pool_abs (hb_pool ?h)) node = []"
      if "mb_pending (pool_abs (hb_pool h)) node = []
        \<or> m = node \<and> bleIsNodeConnected (he_ble env) (hb_ble h) node"
    proof (cases "m = node \<and> bleIsNodeConnected (he_ble env) (hb_ble h) node")
      case True
      with calm_flush_node [OF calm Cons.prems(1) node sendable] show ?thesis by simp
    next
      case False
      with flushNodePending_other [OF inv, of m node env] that Cons.prems(2) show ?thesis
        by (auto simp: mb_pending_def)
    qed
    with Cons.IH [OF ok] Cons.prems(2) show ?case
      by (auto simp: flush_same [OF calm] connected_view [OF flush_same(1) [OF calm]])
  qed simp
  then show "progress_ok env h0 node cs h'" "view (hb_ble h') = view (hb_ble h)" "found (hb_ble h') = found (hb_ble h)"
    "mb_pending (pool_abs (hb_pool h)) node = []
      \<or> node \<in> set ms \<and> bleIsNodeConnected (he_ble env) (hb_ble h) node
      \<Longrightarrow> mb_pending (pool_abs (hb_pool h')) node = []"
    by blast+
qed

lemma flush_all_progress:
  assumes "progress_ok env h0 node cs h" and "calm_for env node cs"
  defines "h' \<equiv> flushAllPending env h"
  shows "progress_ok env h0 node cs h'" and "view (hb_ble h') = view (hb_ble h)" and "found (hb_ble h') = found (hb_ble h)"
    and "bleIsNodeConnected (he_ble env) (hb_ble h) node \<Longrightarrow> mb_pending (pool_abs (hb_pool h')) node = []"
proof -
  let ?ms = "waiting (hb_pool h) 0"
  have inv: "pool_inv (hb_pool h)" using assms(1) by (simp add: progress_ok_def hub_inv_def)
  have h': "h' = foldl (\<lambda>h m. flushNodePending env m h) h ?ms"
    unfolding h'_def flushAllPending_def by (rule flushAll_loop_waiting [OF inv])
  have nul: "\<forall>m \<in> set ?ms. CHR 0x00 \<notin> set m"
    using inv by (auto simp: waiting_def pool_inv_def slot_ok_def fits_def)
  note seq = flush_seq [OF assms(1,2) nul, folded h']
  show "progress_ok env h0 node cs h'" "view (hb_ble h') = view (hb_ble h)" "found (hb_ble h') = found (hb_ble h)"
    by (rule seq)+
  have "node \<in> set ?ms" if "mb_pending (pool_abs (hb_pool h)) node \<noteq> []"
    using that table_map_dom [of sl_used sl_node_id slot_items "pp_slots (hb_pool h)"]
    unfolding waiting_keys [OF inv]
    by (auto simp: mb_pending_def pool_abs_def table_keys_def split: option.splits)
  then show "bleIsNodeConnected (he_ble env) (hb_ble h) node \<Longrightarrow> mb_pending (pool_abs (hb_pool h')) node = []"
    using seq(4) by blast
qed

text \<open>Publishing changes neither links nor pending commands.\<close>

lemma publish_progress:
  assumes "progress_ok env h0 node cs h"
  defines "h' \<equiv> publish_acks env (publish_reports env h)"
  shows "progress_ok env h0 node cs h'" and "view (hb_ble h') = view (hb_ble h)"
    and "found (hb_ble h') = found (hb_ble h)"
proof -
  have inv: "hub_inv [] h" using assms(1) by (simp add: progress_ok_def)
  then have qs: "tsq_inv REPORT_QUEUE_MAX (bl_reportQueue (hb_ble h))"
      "tsq_inv CMD_PENDING_PER_NODE (bl_ackQueue (hb_ble h))"
    by (simp_all add: hub_inv_def ble_inv_def queues_ok_def)
  obtain q m n where h1: "publish_reports env h
      = h\<lparr>hb_ble := (hb_ble h)\<lparr>bl_reportQueue := q\<rparr>, hb_mqtt := m, hb_reads := hb_reads h + n\<rparr>"
    using publish_reports_spec [OF qs(1), of env] by blast
  have "tsq_inv CMD_PENDING_PER_NODE (bl_ackQueue (hb_ble (publish_reports env h)))"
    using qs(2) by (simp add: h1)
  from publish_acks_spec [OF this, of env] obtain q' m' where
    "h' = (publish_reports env h)\<lparr>hb_ble := (hb_ble (publish_reports env h))\<lparr>bl_ackQueue := q'\<rparr>, hb_mqtt := m'\<rparr>"
    unfolding h'_def by blast
  then have h': "h' = h\<lparr>hb_ble := (hb_ble h)\<lparr>bl_reportQueue := q, bl_ackQueue := q'\<rparr>, hb_mqtt := m',
      hb_reads := hb_reads h + n\<rparr>"
    by (simp add: h1)
  show "view (hb_ble h') = view (hb_ble h)" "found (hb_ble h') = found (hb_ble h)"
    by (simp_all add: h' view_def)
  have "accounted env h0 node cs h'"
    using assms(1) accounted_mono [of env h0 node cs h h']
    by (simp add: progress_ok_def h' extends_def extends_ble_def view_def)
  moreover have "configured (hb_ble h')"
    using assms(1) by (simp add: progress_ok_def h' configured_def)
  ultimately show "progress_ok env h0 node cs h'"
    using publish_loops(1) [OF inv, of env] by (simp add: progress_ok_def h'_def)
qed

lemma print_progress:
  "progress_ok env h0 node cs h \<Longrightarrow> progress_ok env h0 node cs (printStatus env h)"
  "view (hb_ble (printStatus env h)) = view (hb_ble h)" "found (hb_ble (printStatus env h)) = found (hb_ble h)"
proof -
  have frame: "bl_nodes (hb_ble (printStatus env h)) = bl_nodes (hb_ble h)"
      "bl_pendingQueue (hb_ble (printStatus env h)) = bl_pendingQueue (hb_ble h)"
      "hb_reads h \<le> hb_reads (printStatus env h)" "bl_writes (hb_ble (printStatus env h)) = bl_writes (hb_ble h)"
    by (simp_all add: printStatus_def read_clock_def Let_def)
  show "view (hb_ble (printStatus env h)) = view (hb_ble h)" "found (hb_ble (printStatus env h)) = found (hb_ble h)"
    by (simp_all add: view_def frame)
  assume ok: "progress_ok env h0 node cs h"
  have "accounted env h0 node cs (printStatus env h)"
    using ok frame accounted_mono [of env h0 node cs h "printStatus env h"]
    by (simp add: progress_ok_def extends_def extends_ble_def view_def)
  with ok show "progress_ok env h0 node cs (printStatus env h)"
    by (simp add: progress_ok_def configured_def frame)
qed

text \<open>What one step of the queue of addresses does to the links.\<close>

definition link_step :: "('adr \<times> nat option) option list \<Rightarrow> 'adr list \<Rightarrow> ('adr \<times> nat option) option list \<Rightarrow> bool" where
  "link_step v as v' \<longleftrightarrow>
     (case as of [] \<Rightarrow> v' = v
      | a # _ \<Rightarrow> (case first_index (\<lambda>x. x = None) v of None \<Rightarrow> v' = v
                  | Some i \<Rightarrow> \<exists>ch. v' = v[i := Some (a, Some ch)]))"

lemma link_set_keeps:
  "first_index (\<lambda>x. x = None) v = Some i \<Longrightarrow> Some x \<in> set v \<Longrightarrow> Some x \<in> set (v[i := y])"
  by (auto simp: first_index_Some in_set_conv_nth nth_list_update) (metis option.distinct(1))

lemma link_step_keeps: "link_step v as v' \<Longrightarrow> Some x \<in> set v \<Longrightarrow> Some x \<in> set v'"
  by (auto simp: link_step_def link_set_keeps split: list.splits option.splits)

lemma connect_progress:
  assumes "progress_ok env h0 node cs h" and "calm_for env node cs" and "h' = snd (connectToNode env addr h)"
  shows "progress_ok env h0 node cs h' \<and> found (hb_ble h') = found (hb_ble h)
    \<and> link_step (view (hb_ble h)) (addr # as) (view (hb_ble h'))"
proof (cases "findEmptySlot (hb_ble h)")
  case None
  with assms(1,3) show ?thesis by (simp add: connectToNode_def link_step_def view_facts(3))
next
  case (Some slot)
  let ?txt = "cstr (be_toString (he_ble env) addr)"
  have calm: "calm (he_ble env)" and node: "fits 18 node"
    and sendable: "\<forall>c \<in> set cs. mc_target c = node \<and> packet_of (he_json env) c \<noteq> None"
    using assms(2) by (simp_all add: calm_for_def)
  have inv: "hub_inv [] h" using assms(1) by (simp add: progress_ok_def)
  obtain b ch where conn: "connectToNode env addr h = (True, flushNodePending env ?txt (h\<lparr>hb_ble := b\<rparr>))"
    and b: "hub_inv [] (h\<lparr>hb_ble := b\<rparr>)" "view b = (view (hb_ble h))[slot := Some (addr, Some ch)]"
      "bl_pendingQueue b = bl_pendingQueue (hb_ble h)" "\<exists>w. bl_writes b = bl_writes (hb_ble h) @ w"
    using calm_connect [OF calm Some inv] by blast
  have "configured b"
    using assms(1) set_update_subset_insert [of "view (hb_ble h)" slot "Some (addr, Some ch)"]
    unfolding progress_ok_def view_facts(1) b(2) by blast
  moreover have "extends_ble (hb_ble h) b"
    using b(4) link_set_keeps [of "view (hb_ble h)" slot] Some unfolding extends_ble_def b(2) view_facts(3) by blast
  ultimately have "progress_ok env h0 node cs (h\<lparr>hb_ble := b\<rparr>)" by (rule progress_ble [OF assms(1) b(1)])
  from calm_flush [OF calm this node _ sendable]
  have "progress_ok env h0 node cs (flushNodePending env ?txt (h\<lparr>hb_ble := b\<rparr>))" by simp
  moreover have "link_step (view (hb_ble h)) (addr # as) (view b)"
    using Some b(2) by (auto simp: link_step_def view_facts(3))
  moreover have "h' = flushNodePending env ?txt (h\<lparr>hb_ble := b\<rparr>)" using conn assms(3) by simp
  moreover have "view (hb_ble (flushNodePending env ?txt (h\<lparr>hb_ble := b\<rparr>))) = view b"
    "found (hb_ble (flushNodePending env ?txt (h\<lparr>hb_ble := b\<rparr>))) = found (hb_ble h)"
    unfolding flush_same [OF calm] by (simp_all add: b(3))
  ultimately show ?thesis by metis
qed

lemma process_progress:
  assumes "progress_ok env h0 node cs h" and "calm_for env node cs" and "h' = processNextPending env h"
  shows "progress_ok env h0 node cs h' \<and> found (hb_ble h') = tl (found (hb_ble h))
    \<and> link_step (view (hb_ble h)) (found (hb_ble h)) (view (hb_ble h'))"
proof -
  let ?e = "he_ble env"
  have calm: "calm ?e" using assms(2) by (simp add: calm_for_def)
  have inv: "ble_inv [] (hb_ble h)" "hub_inv [] h" using assms(1) by (simp_all add: progress_ok_def hub_inv_def)
  obtain r q where pop: "tsq_pop PENDING_MAX (bl_pendingQueue (hb_ble h)) = (r, q)" by fastforce
  note popD = pop_pending [OF inv(1) pop]
  let ?b = "(hb_ble h)\<lparr>bl_pendingQueue := q\<rparr>"
  have popped: "progress_ok env h0 node cs (h\<lparr>hb_ble := ?b\<rparr>)"
    using assms(1) popD(1) inv(2)
    by (intro progress_ble) (simp_all add: progress_ok_def hub_inv_def configured_def extends_same)
  have view: "view ?b = view (hb_ble h)" by (rule view_nodes) simp
  show ?thesis
  proof (cases r)
    case None
    then have "found ?b = []"
      using tsq.pop_NoneE(2) [of PENDING_MAX "bl_pendingQueue (hb_ble h)" q] pop inv(1)
      by (simp add: ble_inv_def queues_ok_def tsq_unsafe_same)
    with popped view None pop popD(2) assms(3) show ?thesis
      by (simp add: processNextPending_def link_step_def)
  next
    case (Some addr)
    let ?h1 = "h\<lparr>hb_ble := scan_set ?e False ?b\<rparr>"
    define h2 where "h2 = snd (connectToNode env addr ?h1)"
    have h1: "progress_ok env h0 node cs ?h1" "view (hb_ble ?h1) = view (hb_ble h)"
        "found (hb_ble ?h1) = tsq_items PENDING_MAX q"
      using progress_scan [OF popped calm, of False] view by simp_all
    note conn = connect_progress [OF h1(1) assms(2) h2_def, of "tsq_items PENDING_MAX q"]
    have "h' = h2\<lparr>hb_ble := scan_set ?e True (hb_ble h2)\<rparr>"
      using pop Some assms(3) by (simp add: processNextPending_def h2_def Let_def)
    with progress_scan [OF conjunct1 [OF conn] calm, of True] conn popD(2) Some
    show ?thesis unfolding h1(2,3) by simp
  qed
qed

text \<open>One pass of the whole loop.\<close>

definition calm_state :: "('adr, 'j) hub_env \<Rightarrow> 'adr hub \<Rightarrow> string \<Rightarrow> MqttCommand list \<Rightarrow> ('adr, 'nvs) hub_sys \<Rightarrow> bool" where
  "calm_state env h0 node cs s \<longleftrightarrow> progress_ok env h0 node cs (hs_hub s)"

lemma central_progress:
  assumes "progress_ok env h0 node cs h" and "calm_for env node cs" and "h' = bleCentralLoop env h"
  shows "progress_ok env h0 node cs h' \<and> found (hb_ble h') = tl (found (hb_ble h))
    \<and> link_step (view (hb_ble h)) (found (hb_ble h)) (view (hb_ble h'))"
proof -
  let ?e = "he_ble env"
  have calm: "calm ?e" using assms(2) by (simp add: calm_for_def)
  have inv: "ble_inv [] (hb_ble h)" "hub_inv [] h" using assms(1) by (simp_all add: progress_ok_def hub_inv_def)
  define b where "b = (if bl_doScan (hb_ble h) then scan_set ?e True ((hb_ble h)\<lparr>bl_doScan := False\<rparr>) else hb_ble h)"
  define h1 where "h1 = h\<lparr>hb_ble := (hb_ble h)\<lparr>bl_doScan := False\<rparr>\<rparr>"
  have "progress_ok env h0 node cs h1"
    using assms(1) unfolding h1_def by (intro progress_ble) (simp_all add: progress_ok_def hub_inv_def configured_def extends_same)
  note scan = progress_scan [OF this calm, of True]
  have same: "view (hb_ble h1) = view (hb_ble h)" "found (hb_ble h1) = found (hb_ble h)"
    by (simp_all add: h1_def view_def)
  have hb: "progress_ok env h0 node cs (h\<lparr>hb_ble := b\<rparr>)" "view b = view (hb_ble h)" "found b = found (hb_ble h)"
    using scan same assms(1) by (simp_all add: b_def h1_def)
  have loop: "h' = printStatus env (processNextPending env (h\<lparr>hb_ble := b\<rparr>))"
    using cleanupDisconnected_idle [OF inv(1)] assms(3) by (simp add: bleCentralLoop_def b_def Let_def)
  from process_progress [OF hb(1) assms(2) refl] hb(2,3) show ?thesis
    unfolding loop by (simp add: print_progress)
qed

lemma pass_progress:
  assumes "calm_state env h0 node cs s" and "calm_for env node cs" and "s' = hub_loop env api serial wifiUp s"
  shows "calm_state env h0 node cs s'"
    and "found (hb_ble (hs_hub s')) = tl (found (hb_ble (hs_hub s)))"
    and "link_step (view (hb_ble (hs_hub s))) (found (hb_ble (hs_hub s))) (view (hb_ble (hs_hub s')))"
    and "bleIsNodeConnected (he_ble env) (hb_ble (hs_hub s')) node
      \<Longrightarrow> mb_pending (pool_abs (hb_pool (hs_hub s'))) node = []"
proof -
  let ?e = "he_ble env"
  define h1 where "h1 = bleCentralLoop env (hs_hub s)"
  define h2 where "h2 = publish_acks env (publish_reports env (on_mqtt (mqttLoop wifiUp) h1))"
  define h3 where "h3 = flushAllPending env h2"
  have calm: "calm ?e" using assms(2) by (simp add: calm_for_def)
  have ok: "progress_ok env h0 node cs (hs_hub s)" using assms(1) by (simp add: calm_state_def)
  note c = central_progress [OF ok assms(2) h1_def]
  have m: "progress_ok env h0 node cs (on_mqtt (mqttLoop wifiUp) h1)"
    using c by (simp add: progress_ok_def on_mqtt_def hub_inv_def accounted_def settled_def extends_def)
  note p = publish_progress [OF m, folded h2_def]
  note f = flush_all_progress [OF p(1) assms(2), folded h3_def]
  have s': "hs_hub s' = h3\<lparr>hb_ble := ble_call ?e (hb_ble h3)\<rparr>"
    by (simp add: assms(3) hub_loop_def loop_delay_def h1_def h2_def h3_def)
  have q: "quiet_step (hb_ble h3) (ble_call ?e (hb_ble h3))" by (rule calm_quiet(1) [OF calm])
  have view: "view (hb_ble (hs_hub s')) = view (hb_ble h1)" and found: "found (hb_ble (hs_hub s')) = found (hb_ble h1)"
    using q f(2,3) p(2,3) by (simp_all add: s' quiet_step_def on_mqtt_def)
  show "found (hb_ble (hs_hub s')) = tl (found (hb_ble (hs_hub s)))"
    "link_step (view (hb_ble (hs_hub s))) (found (hb_ble (hs_hub s))) (view (hb_ble (hs_hub s')))"
    using c unfolding view found by simp_all
  have "configured (ble_call ?e (hb_ble h3))"
    using f(1) q unfolding progress_ok_def quiet_step_def view_facts(1) by simp
  moreover have "hub_inv [] (h3\<lparr>hb_ble := ble_call ?e (hb_ble h3)\<rparr>)"
    using f(1) by (simp add: progress_ok_def hub_inv_def ble_call_inv)
  ultimately show "calm_state env h0 node cs s'"
    using progress_ble [OF f(1)] quiet_extends [OF q] by (simp add: calm_state_def s')
  assume "bleIsNodeConnected ?e (hb_ble (hs_hub s')) node"
  then have "bleIsNodeConnected ?e (hb_ble h2) node"
    using connected_view [of "hb_ble (hs_hub s')" "hb_ble h2"] q f(2) by (simp add: s' quiet_step_def)
  from f(4) [OF this] show "mb_pending (pool_abs (hb_pool (hs_hub s'))) node = []"
    by (simp add: s')
qed

section \<open>Any number of passes\<close>

text \<open>Each pass has its serial input and its WiFi state.\<close>

definition passes ::
  "('adr, 'j) hub_env \<Rightarrow> 'nvs wifi_api \<Rightarrow> (string option \<times> bool) list \<Rightarrow> ('adr, 'nvs) hub_sys
   \<Rightarrow> ('adr, 'nvs) hub_sys" where
  "passes env api ins s = foldl (\<lambda>s (serial, wifiUp). hub_loop env api serial wifiUp s) s ins"

lemma passes_simps [simp]:
  "passes env api [] s = s"
  "passes env api ((serial, wifiUp) # ins) s = passes env api ins (hub_loop env api serial wifiUp s)"
  by (simp_all add: passes_def)

text \<open>The links after a step, when there is room for all that have been found.\<close>

definition linked :: "('adr \<times> nat option) option list \<Rightarrow> 'adr set" where
  "linked v = {a. \<exists>c. Some (a, c) \<in> set v}"

lemma isAlreadyConnected_linked: "isAlreadyConnected b a \<longleftrightarrow> a \<in> linked (view b)"
  by (simp add: linked_def view_facts(2))

lemma room_None: "Suc n \<le> length (filter (\<lambda>x. x = None) v) \<Longrightarrow> None \<in> set v"
  by (induction v) (auto split: if_splits)

lemma link_step_room:
  assumes "link_step v as v'" and "length as \<le> length (filter (\<lambda>x. x = None) v)"
  shows "length (tl as) \<le> length (filter (\<lambda>x. x = None) v')" and "linked v' = linked v \<union> set (take 1 as)"
    and "length (filter (\<lambda>x. x \<noteq> None) v') = length (filter (\<lambda>x. x \<noteq> None) v) + length (take 1 as)"
proof -
  have "length (tl as) \<le> length (filter (\<lambda>x. x = None) v') \<and> linked v' = linked v \<union> set (take 1 as)
    \<and> length (filter (\<lambda>x. x \<noteq> None) v') = length (filter (\<lambda>x. x \<noteq> None) v) + length (take 1 as)"
  proof (cases as)
    case Nil
    with assms(1) show ?thesis by (simp add: link_step_def)
  next
    case (Cons a as')
    with assms(2) have "None \<in> set v" by (intro room_None [of "length as'"]) simp
    then obtain i where i: "first_index (\<lambda>x. x = None) v = Some i"
      using first_index_None [of "\<lambda>x. x = None" v] by auto
    with assms(1) Cons obtain ch where v': "v' = v[i := Some (a, Some ch)]" by (auto simp: link_step_def)
    have "i < length v" "v ! i = None" using first_index_SomeD [OF i] by simp_all
    then have parts: "v = take i v @ None # drop (Suc i) v" "v' = take i v @ Some (a, Some ch) # drop (Suc i) v"
      by (metis id_take_nth_drop, simp add: v' upd_conv_take_nth_drop)
    obtain xs ys where "v = xs @ None # ys" "v' = xs @ Some (a, Some ch) # ys" using parts by blast
    with assms(2) Cons show ?thesis by (auto simp: linked_def)
  qed
  then show "length (tl as) \<le> length (filter (\<lambda>x. x = None) v')" "linked v' = linked v \<union> set (take 1 as)"
    "length (filter (\<lambda>x. x \<noteq> None) v') = length (filter (\<lambda>x. x \<noteq> None) v) + length (take 1 as)"
    by blast+
qed

lemma take_Suc_tl: "set (take 1 as) \<union> set (take n (tl as)) = set (take (Suc n) as)"
  "length (take 1 as) + length (take n (tl as)) = length (take (Suc n) as)"
  by (cases as; simp)+

lemma passes_connect:
  assumes "calm_state env h0 node cs s" and "calm_for env node cs"
    and "length (found (hb_ble (hs_hub s))) \<le> length (filter (\<lambda>x. x = None) (view (hb_ble (hs_hub s))))"
    and s': "s' = passes env api ins s"
  shows "calm_state env h0 node cs s'"
    and "found (hb_ble (hs_hub s')) = drop (length ins) (found (hb_ble (hs_hub s)))"
    and "isAlreadyConnected (hb_ble (hs_hub s')) a \<longleftrightarrow> isAlreadyConnected (hb_ble (hs_hub s)) a
      \<or> a \<in> set (take (length ins) (found (hb_ble (hs_hub s))))"
    and "activeCount (hb_ble (hs_hub s'))
      = activeCount (hb_ble (hs_hub s)) + length (take (length ins) (found (hb_ble (hs_hub s))))"
proof -
  let ?found = "\<lambda>s. found (hb_ble (hs_hub s))" and ?view = "\<lambda>s. view (hb_ble (hs_hub s))"
  let ?active = "\<lambda>s. length (filter (\<lambda>x. x \<noteq> None) (?view s))"
  have all: "calm_state env h0 node cs s' \<and> ?found s' = drop (length ins) (?found s)
      \<and> linked (?view s') = linked (?view s) \<union> set (take (length ins) (?found s))
      \<and> ?active s' = ?active s + length (take (length ins) (?found s))"
    using assms(1,3) unfolding s'
  proof (induction ins arbitrary: s)
    case (Cons i ins)
    obtain serial wifiUp where i: "i = (serial, wifiUp)" by fastforce
    let ?s1 = "hub_loop env api serial wifiUp s"
    note pass = pass_progress [OF Cons.prems(1) assms(2) refl, of api serial wifiUp]
    note step = link_step_room [OF pass(3) Cons.prems(2)]
    have room: "length (?found ?s1) \<le> length (filter (\<lambda>x. x = None) (?view ?s1))"
      using step(1) pass(2) by simp
    note ih = Cons.IH [OF pass(1) room]
    have "?found (passes env api (i # ins) s) = drop (length (i # ins)) (?found s)"
      using ih pass(2) by (simp add: i drop_Suc)
    moreover have "linked (?view (passes env api (i # ins) s))
        = linked (?view s) \<union> set (take (length (i # ins)) (?found s))"
      using ih pass(2) step(2) take_Suc_tl(1) [of "?found s" "length ins"] by (simp add: i Un_assoc)
    moreover have "?active (passes env api (i # ins) s) = ?active s + length (take (length (i # ins)) (?found s))"
      using ih pass(2) step(3) take_Suc_tl(2) [of "?found s" "length ins"] by (simp add: i)
    ultimately show ?case using ih by (simp add: i)
  qed simp
  then show "calm_state env h0 node cs s'" "?found s' = drop (length ins) (?found s)" by blast+
  show "isAlreadyConnected (hb_ble (hs_hub s')) a \<longleftrightarrow> isAlreadyConnected (hb_ble (hs_hub s)) a
      \<or> a \<in> set (take (length ins) (?found s))"
    using all unfolding isAlreadyConnected_linked by blast
  show "activeCount (hb_ble (hs_hub s')) = activeCount (hb_ble (hs_hub s)) + length (take (length ins) (?found s))"
    using all unfolding view_facts(4) by blast
qed

section \<open>Properties\<close>

lemma room_view:
  assumes "ble_inv held b" and "length (found b) + activeCount b \<le> MAX_NODES"
  shows "length (found b) \<le> length (filter (\<lambda>x. x = None) (view b))"
proof -
  have "length (view b) = MAX_NODES" using assms(1) by (simp add: view_def ble_inv_def)
  with sum_length_filter_compl [of "\<lambda>x. x = None" "view b"] assms(2) show ?thesis
    by (simp add: view_facts(4))
qed

lemma unused_id:
  assumes "pool_inv p"
  shows "\<exists>n. fits 18 n \<and> mb_pending (pool_abs p) n = []"
proof -
  let ?S = "{''a'', ''b'', ''c'', ''d'', ''e'', ''f''}"
  have "card (dom (pool_abs p)) \<le> 5"
    using pool_activeSlots_abs [OF assms] length_filter_le [of sl_used "pp_slots p"] assms
    by (simp add: pool_activeSlots_def pool_inv_def config_defs)
  moreover have "card ?S = 6" by simp
  moreover have "finite (dom (pool_abs p))" by (rule pool.finite_abs [OF assms])
  ultimately have "\<not> ?S \<subseteq> dom (pool_abs p)"
    using card_mono [of "dom (pool_abs p)" ?S] by linarith
  then obtain n where "n \<in> ?S" "pool_abs p n = None" by blast
  then show ?thesis by (intro exI [of _ n]) (auto simp: mb_pending_def fits_def)
qed

text \<open>
  C17: the nodes that have been found get connected one per pass, in the order in which they were found.  In a
  calm environment, and with a slot left for each of them, \<open>n\<close> passes (or as many as there are addresses) take
  exactly the first \<open>n\<close> addresses off the queue and connect exactly these nodes, each in a slot of its
  own; no other node is connected, and none that was is lost, whatever comes over the serial line and whatever WiFi does.
\<close>

theorem found_nodes_connect:
  assumes "calm (he_ble env)" and "hub_inv [] (hs_hub s)" and "configured (hb_ble (hs_hub s))"
    and "length (found (hb_ble (hs_hub s))) + activeCount (hb_ble (hs_hub s)) \<le> MAX_NODES"
  shows "let b = hb_ble (hs_hub s); b' = hb_ble (hs_hub (passes env api ins s)); n = length ins in
    found b' = drop n (found b)
    \<and> (\<forall>a. isAlreadyConnected b' a \<longleftrightarrow> isAlreadyConnected b a \<or> a \<in> set (take n (found b)))
    \<and> activeCount b' = activeCount b + min n (length (found b))"
proof -
  have inv: "ble_inv [] (hb_ble (hs_hub s))" "pool_inv (hb_pool (hs_hub s))"
    using assms(2) by (simp_all add: hub_inv_def)
  obtain node where node: "fits 18 node" "mb_pending (pool_abs (hb_pool (hs_hub s))) node = []"
    using unused_id [OF inv(2)] by blast
  have state: "calm_state env (hs_hub s) node [] s"
    using assms(2,3) node(2) by (simp add: calm_state_def progress_ok_def accounted_def)
  have cf: "calm_for env node []" using assms(1) node(1) by (simp add: calm_for_def)
  note run = passes_connect [OF state cf room_view [OF inv(1) assms(4)] refl, of api ins]
  show ?thesis using run by (simp add: Let_def min.commute)
qed

text \<open>A hub that has found node \<open>aa\<close> and holds a command for it.\<close>

definition one_waiting :: "(string, string \<rightharpoonup> string) hub_sys" where
  "one_waiting = hub_do one_env (map_wifi True) one_message
     (hub_do one_env (map_wifi True) (Callback (ScanResult [TEMPIO_SERVICE_UUID] ''aa'')) one_start)"

lemma one_waiting_ok: "sys_ok one_env one_waiting"
proof -
  have "hub_reach one_env (map_wifi True) one_start one_waiting"
    unfolding one_waiting_def
    by (rule hub_reach.step [OF hub_reach.step [OF hub_reach.start hub_do_step] hub_do_step])
  from hub_reachable [OF example_boot_mem example_mem_ok this [unfolded one_start_def]] show ?thesis .
qed

lemma one_waiting_facts:
  "found (hb_ble (hs_hub one_waiting)) = [''aa'']" "activeCount (hb_ble (hs_hub one_waiting)) = 0"
  "configured (hb_ble (hs_hub one_waiting))"
  "mb_pending (pool_abs (hb_pool (hs_hub one_waiting))) ''aa'' =
     [\<lparr>mc_target = ''aa'', mc_type = ''SET_INTERVAL'', mc_payload = [], mc_cmd_id = 9, mc_queued_at = 200000\<rparr>]"
  by code_simp+

lemma one_waiting_reads: "hb_reads (hs_hub (hub_loop one_env (map_wifi True) None True one_waiting)) < 300"
  by code_simp

lemma one_fresh:
  assumes "t < 300" and "mc_queued_at c = 200000"
  shows "cmd_fresh (he_millis one_env t) c"
proof -
  have "unat (word_of_nat t :: 32 word) = t" using assms(1) by (simp add: unat_of_nat take_bit_nat_eq_self)
  then have "unat (1000 * word_of_nat t :: 32 word) = 1000 * t"
    using assms(1) by (simp add: unat_word_ariths)
  then show ?thesis
    using assms by (simp add: cmd_fresh_def CMD_TTL_MS_def one_env_def example_hub_env_def word_less_nat_alt)
qed

lemma one_calm: "calm (he_ble one_env)" "be_addr (he_ble one_env) = id"
  by (simp_all add: calm_def one_env_def example_hub_env_def example_env_def)

theorem found_nodes_connect_witness:
  "let b = hb_ble (hs_hub (passes one_env (map_wifi True) [(None, True)] one_waiting)) in
    found b = [] \<and> isAlreadyConnected b ''aa'' \<and> \<not> isAlreadyConnected b ''bb'' \<and> activeCount b = 1"
proof -
  have "hub_inv [] (hs_hub one_waiting)" using one_waiting_ok by (simp add: sys_ok_def)
  from found_nodes_connect [OF one_calm(1) this one_waiting_facts(3), of "map_wifi True" "[(None, True)]"]
  moreover have "\<not> isAlreadyConnected (hb_ble (hs_hub one_waiting)) ''bb''"
    using one_waiting_facts(2) by (auto simp: view_facts filter_empty_conv)
  ultimately show ?thesis by (simp add: one_waiting_facts MAX_NODES_def Let_def)
qed

text \<open>
  C2: a pending command reaches its node: in a calm environment, with a slot left for every node that has
  been found, if the node is connected, or found at position \<open>k\<close> of the queue, then after \<open>k + 1\<close> passes (one,
  if it is connected) nothing is pending for it, and each of the commands that were pending at the start has been
  written with success, by one of these passes, to the configuration characteristic of a connection of
  that node, except those that had expired at a reading of the clock made during these passes.
\<close>

theorem pending_reaches_node:
  assumes "calm (he_ble env)" and "hub_inv [] (hs_hub s)" and "configured (hb_ble (hs_hub s))"
    and "targets_ok (hb_pool (hs_hub s))" and "fits 18 node"
    and "\<forall>c \<in> set (mb_pending (pool_abs (hb_pool (hs_hub s))) node). packet_of (he_json env) c \<noteq> None"
    and "length (found (hb_ble (hs_hub s))) + activeCount (hb_ble (hs_hub s)) \<le> MAX_NODES"
    and "bleIsNodeConnected (he_ble env) (hb_ble (hs_hub s)) node \<and> ins \<noteq> []
      \<or> (\<exists>k < length ins. k < length (found (hb_ble (hs_hub s)))
            \<and> found (hb_ble (hs_hub s)) ! k = be_addr (he_ble env) (cstr node))"
  shows "let h = hs_hub s; h' = hs_hub (passes env api ins s) in
    mb_pending (pool_abs (hb_pool h')) node = []
    \<and> (\<exists>w. bl_writes (hb_ble h') = bl_writes (hb_ble h) @ w
        \<and> (\<forall>c \<in> set (mb_pending (pool_abs (hb_pool h)) node).
             (\<exists>n ch. n \<in> set (bl_nodes (hb_ble h')) \<and> cn_used n \<and> cn_addr n = be_addr (he_ble env) (cstr node)
                \<and> cn_configChar n = Some ch \<and> (ch, the (packet_of (he_json env) c), True) \<in> set w)
             \<or> (\<exists>t. hb_reads h \<le> t \<and> t < hb_reads h' \<and> \<not> cmd_fresh (he_millis env t) c)))"
proof -
  let ?cs = "mb_pending (pool_abs (hb_pool (hs_hub s))) node" and ?a = "be_addr (he_ble env) (cstr node)"
  have inv: "ble_inv [] (hb_ble (hs_hub s))" using assms(2) by (simp add: hub_inv_def)
  have state: "calm_state env (hs_hub s) node ?cs s"
    using assms(2,3) by (simp add: calm_state_def progress_ok_def accounted_def)
  have targets: "c \<in> set ?cs \<Longrightarrow> mc_target c = node" for c by (rule targets_ok_pending [OF assms(4)])
  have cf: "calm_for env node ?cs" using assms(1,5,6) targets by (auto simp: calm_for_def)
  have "ins \<noteq> []" using assms(8) by auto
  then obtain ins' serial wifiUp where ins: "ins = ins' @ [(serial, wifiUp)]"
    by (metis append_butlast_last_id surj_pair)
  let ?s1 = "passes env api ins' s" and ?s2 = "passes env api ins s"
  have last: "?s2 = hub_loop env api serial wifiUp ?s1" by (simp add: ins passes_def)
  note room = room_view [OF inv assms(7)]
  note run1 = passes_connect(1) [OF state cf room, of ?s1 api ins', OF refl]
  note run2 = passes_connect [OF state cf room, of ?s2 api ins, OF refl]
  have "isAlreadyConnected (hb_ble (hs_hub ?s2)) ?a"
    using assms(8) unfolding run2(3) by (auto simp: bleIsNodeConnected_def in_set_conv_nth)
  then have none: "mb_pending (pool_abs (hb_pool (hs_hub ?s2))) node = []"
    using pass_progress(4) [OF run1 cf last] by (simp add: bleIsNodeConnected_def)
  have acc: "accounted env (hs_hub s) node ?cs (hs_hub ?s2)"
    using run2(1) by (simp add: calm_state_def progress_ok_def)
  then obtain w where w: "bl_writes (hb_ble (hs_hub ?s2)) = bl_writes (hb_ble (hs_hub s)) @ w"
    by (auto simp: accounted_def extends_def extends_ble_def)
  have "(\<exists>n ch. n \<in> set (bl_nodes (hb_ble (hs_hub ?s2))) \<and> cn_used n \<and> cn_addr n = ?a
            \<and> cn_configChar n = Some ch \<and> (ch, the (packet_of (he_json env) c), True) \<in> set w)
        \<or> (\<exists>t. hb_reads (hs_hub s) \<le> t \<and> t < hb_reads (hs_hub ?s2) \<and> \<not> cmd_fresh (he_millis env t) c)"
    if c: "c \<in> set ?cs" for c
  proof -
    have "settled env (hs_hub s) (hs_hub ?s2) c" using acc c none by (simp add: accounted_def)
    then show ?thesis using w targets [OF c] by (auto simp: settled_def node_char_view)
  qed
  then show ?thesis using none w by (auto simp: Let_def)
qed

text \<open>The command of \<open>one_waiting\<close> is written, to the characteristic of the slot that \<open>aa\<close> gets.\<close>

theorem pending_reaches_node_witness:
  "let h = hs_hub one_waiting; h' = hs_hub (passes one_env (map_wifi True) [(None, True)] one_waiting);
       c = \<lparr>mc_target = ''aa'', mc_type = ''SET_INTERVAL'', mc_payload = [], mc_cmd_id = 9, mc_queued_at = 200000\<rparr> in
    mb_pending (pool_abs (hb_pool h')) ''aa'' = []
    \<and> (\<exists>w n ch. bl_writes (hb_ble h') = bl_writes (hb_ble h) @ w \<and> n \<in> set (bl_nodes (hb_ble h')) \<and> cn_used n
          \<and> cn_addr n = ''aa'' \<and> cn_configChar n = Some ch
          \<and> (ch, the (packet_of (he_json one_env) c), True) \<in> set w)"
proof -
  let ?c = "\<lparr>mc_target = ''aa'', mc_type = ''SET_INTERVAL'', mc_payload = [], mc_cmd_id = 9, mc_queued_at = 200000\<rparr>"
  let ?h = "hs_hub one_waiting" and ?h' = "hs_hub (passes one_env (map_wifi True) [(None, True)] one_waiting)"
  have ok: "hub_inv [] ?h" "targets_ok (hb_pool ?h)"
    using one_waiting_ok by (simp_all add: sys_ok_def)
  have "packet_of (he_json one_env) c \<noteq> None" if "c \<in> set (mb_pending (pool_abs (hb_pool ?h)) ''aa'')" for c
    using that by (simp add: one_waiting_facts packet_of_def one_env_def one_json_def cstr_def)
  then have main: "mb_pending (pool_abs (hb_pool ?h')) ''aa'' = []
    \<and> (\<exists>w. bl_writes (hb_ble ?h') = bl_writes (hb_ble ?h) @ w
        \<and> (\<forall>c \<in> set (mb_pending (pool_abs (hb_pool ?h)) ''aa'').
             (\<exists>n ch. n \<in> set (bl_nodes (hb_ble ?h')) \<and> cn_used n \<and> cn_addr n = ''aa''
                \<and> cn_configChar n = Some ch \<and> (ch, the (packet_of (he_json one_env) c), True) \<in> set w)
             \<or> (\<exists>t. hb_reads ?h \<le> t \<and> t < hb_reads ?h' \<and> \<not> cmd_fresh (he_millis one_env t) c)))"
    using pending_reaches_node [OF one_calm(1) ok(1) one_waiting_facts(3) ok(2), of "''aa''" "[(None, True)]" "map_wifi True"]
    by (simp add: one_waiting_facts one_calm(2) MAX_NODES_def fits_def cstr_def Let_def)
  have fresh: "cmd_fresh (he_millis one_env t) ?c" if "t < hb_reads ?h'" for t
    using one_fresh [of t] that one_waiting_reads by simp
  obtain w where none: "mb_pending (pool_abs (hb_pool ?h')) ''aa'' = []" and w: "bl_writes (hb_ble ?h') = bl_writes (hb_ble ?h) @ w"
    and each: "\<forall>c \<in> set (mb_pending (pool_abs (hb_pool ?h)) ''aa'').
             (\<exists>n ch. n \<in> set (bl_nodes (hb_ble ?h')) \<and> cn_used n \<and> cn_addr n = ''aa''
                \<and> cn_configChar n = Some ch \<and> (ch, the (packet_of (he_json one_env) c), True) \<in> set w)
             \<or> (\<exists>t. hb_reads ?h \<le> t \<and> t < hb_reads ?h' \<and> \<not> cmd_fresh (he_millis one_env t) c)"
    using main by blast
  have "?c \<in> set (mb_pending (pool_abs (hb_pool ?h)) ''aa'')" unfolding one_waiting_facts by simp
  from bspec [OF each this] fresh obtain n ch where "n \<in> set (bl_nodes (hb_ble ?h'))" "cn_used n" "cn_addr n = ''aa''"
      "cn_configChar n = Some ch" "(ch, the (packet_of (he_json one_env) ?c), True) \<in> set w" by blast
  with none w show ?thesis unfolding Let_def by blast
qed

end
