(* ===== verification/Task_Hazards.thy ===== *)
theory Task_Hazards
  imports Task_Addresses Ble_Reports Hub_Progress
begin

text \<open>
  Four moments at which the interleaving of the tasks matters: a command that is written before HUB_READY, a
  slot that is freed between two searches, a scan result for the address of a connection in progress, and a link that
  is lost between the test of its characteristic and the use.  Each is a theorem about any state of the moment,
  with a state in which it can be met.
\<close>

section \<open>A command before HUB_READY\<close>


lemma send_now_connected:
  assumes "packet_of (he_json env) c = Some pkt"
    and "findSlotByAddr (hb_ble h) (be_addr (he_ble env) (cstr (mc_target c))) = Some slot"
    and "cn_configChar (bl_nodes (hb_ble h) ! slot) = Some ch"
  shows "bl_writes (hb_ble (snd (send_now env c h))) = bl_writes (hb_ble h)
    @ [(ch, pkt, be_write (he_ble env) (bl_calls (hb_ble h)))]"
  using assms by (simp add: send_now_def trySend_packet bleSendToNode_def writeValue_def Let_def split_def)

text \<open>
  C28: the delay before HUB_READY does not hold back the MQTT task.  While \<open>registerNode\<close> waits for the MTU
  negotiation the slot is marked as used already; the MQTT task handles a command for this node meanwhile,
  and writes its packet: it comes before HUB_READY on the wire, and within the time in which, as
  the comment says, a write makes the BLE stack unstable.
\<close>

theorem command_overtakes_hub_ready:
  assumes "tk_loop t = LConnect (CPause addr slot)" and "tk_mqtt t = Handling (c # cs)"
    and "cstr (mc_target c) \<noteq> []" and "packet_of (he_json env) c = Some pkt"
    and "findSlotByAddr (hb_ble (tk_hub t)) (be_addr (he_ble env) (cstr (mc_target c))) = Some slot"
    and "cn_configChar (bl_nodes (hb_ble (tk_hub t)) ! slot) = Some ch"
  shows "let t' = task_do env api MqttTask t in
    (\<exists>ok. bl_writes (hb_ble (tk_hub t')) = bl_writes (hb_ble (tk_hub t)) @ [(ch, pkt, ok)])
    \<and> tk_loop t' = LConnect (CPause addr slot)"
  using assms send_now_connected [OF assms(4-6)] by (simp add: Let_def split_def)

theorem command_overtakes_hub_ready_witness:
  "\<exists>ok. bl_writes (hb_ble (tk_hub (task_do one_env (map_wifi True) MqttTask paused))) = [(7, [0x12, 9, 0, 90, 0], ok)]
     \<and> tk_loop (task_do one_env (map_wifi True) MqttTask paused) = LConnect (CPause ''aa'' 0)"
proof -
  have "findSlotByAddr (hb_ble (tk_hub paused)) (be_addr (he_ble one_env) (cstr (mc_target one_command))) = Some 0"
    and "cn_configChar (bl_nodes (hb_ble (tk_hub paused)) ! 0) = Some 7"
    and "cstr (mc_target one_command) \<noteq> []"
    by code_simp+
  from command_overtakes_hub_ready [OF paused_facts(1,2) this(3) one_command_packet this(1,2), of "map_wifi True"]
  show ?thesis by (simp add: paused_facts(4) Let_def del: task_do.simps)
qed

section \<open>A slot that is freed between the two searches\<close>

lemma client_in_slot: "c \<in> set (clients ns) \<longleftrightarrow> (\<exists>i < length ns. cn_client (ns ! i) = Some c)"
  by (force simp: clients_def in_set_conv_nth split: option.splits)

lemma connect_four_steps:
  assumes "acquireClient (he_ble env) (hb_ble h) = (Some c, b1)" and "calm (he_ble env)"
    and "t = \<lparr>tk_sys = \<lparr>hs_hub = h, hs_wifi = w\<rparr>, tk_loop = LConnect (CTake addr slot), tk_mqtt = m, tk_received = rs\<rparr>"
    and "t' = task_run env api (replicate 4 (MainTask serial up)) t"
  shows "bl_nodes (hb_ble (tk_hub t')) = (bl_nodes b1)[slot := (bl_nodes b1 ! slot)\<lparr>cn_client := Some c\<rparr>]
    \<and> loop_held (tk_loop t') = []"
proof -
  have call: "ble_call (he_ble env) x = x\<lparr>bl_calls := Suc (bl_calls x)\<rparr>" for x
    using assms(2) by (simp add: ble_call_def run_events_def calm_def)
  have "be_characteristic (he_ble env) TEMPIO_SERVICE_UUID TEMPIO_CHAR_DATA_UUID n \<noteq> None" for n
    using assms(2) by (simp add: calm_def del: not_None_eq)
  then have disc: "discoverAndSubscribe (he_ble env) x = (True, x\<lparr>bl_calls := Suc (Suc (Suc (bl_calls x)))\<rparr>)" for x
    using assms(2) by (simp add: discoverAndSubscribe_def call Let_def del: not_None_eq) (simp add: calm_def)
  have four: "replicate 4 (MainTask serial up) = [MainTask serial up, MainTask serial up, MainTask serial up, MainTask serial up]"
    by (simp add: numeral_eq_Suc)
  show ?thesis
    using assms(1,2) unfolding assms(3,4) four
    by (simp add: on_link_def call disc setNode_def) (simp add: calm_def)
qed

text \<open>
  C29: the way a client is lost.  \<open>connectToNode\<close> has found the empty slot, in which a client is stashed; before it
  asks for a client to reuse, a node in an earlier slot disconnects.  Now the first reusable client is the one
  of the earlier slot; \<open>registerNode\<close> puts it over the stashed one, and no pointer to this one is left.
\<close>

theorem slot_race_loses_client:
  assumes "tk_loop t = LConnect (CTake addr slot)" and "b = hb_ble (tk_hub t)" and "distinct (clients (bl_nodes b))"
    and "slot < length (bl_nodes b)" and "cn_client (bl_nodes b ! slot) = Some d"
    and "findSlotIndex (\<lambda>n. \<not> cn_used n \<and> cn_client n \<noteq> None) b = Some j" and "j < slot"
    and "cn_client (bl_nodes b ! j) = Some c"
    and "calm (he_ble env)"
  shows "let t' = task_run env api (replicate 4 (MainTask serial up)) t; ns = bl_nodes (hb_ble (tk_hub t')) in
    cn_client (ns ! slot) = Some c \<and> d \<notin> set (loop_held (tk_loop t') @ clients ns)"
proof -
  let ?e = "he_ble env" and ?ns = "bl_nodes b"
  let ?ns' = "?ns[j := (?ns ! j)\<lparr>cn_client := None\<rparr>, slot := (?ns ! slot)\<lparr>cn_client := Some c\<rparr>]"
  have acq: "acquireClient ?e b = (Some c, b\<lparr>bl_nodes := ?ns[j := (?ns ! j)\<lparr>cn_client := None\<rparr>]\<rparr>)"
    using assms(6,8) by (simp add: acquireClient_def findReusableClient_def setNode_def)
  define t' where "t' = task_run env api (replicate 4 (MainTask serial up)) t"
  have run: "bl_nodes (hb_ble (tk_hub t')) = ?ns' \<and> loop_held (tk_loop t') = []"
    using connect_four_steps [OF acq [unfolded assms(2)] assms(9) _ t'_def] assms(1,7)
    by (cases t; cases "tk_sys t") (simp add: assms(2))
  have other: "cn_client (?ns ! i) \<noteq> Some d" if "i < length ?ns" "i \<noteq> slot" for i
    using clients_unique [OF assms(3) that(1) assms(4)] assms(5) that(2) by blast
  have "c \<noteq> d" using other [of j] assms(4,7,8) by auto
  then have "d \<notin> set (clients ?ns')" unfolding client_in_slot using other assms(4,7)
    by (auto simp: nth_list_update)
  then show ?thesis using run assms(4) unfolding t'_def [symmetric] by (simp add: Let_def)
qed

text \<open>
  Two nodes get connected; the second one is lost, a third one is found; when its slot, the second one, has been
  found, the first node is lost.
\<close>

definition freed_schedule :: "string task_action list" where
  "freed_schedule = HostTask (ScanResult [TEMPIO_SERVICE_UUID] ''aa'') # replicate 27 (MainTask None True)
     @ HostTask (ScanResult [TEMPIO_SERVICE_UUID] ''bb'') # replicate 27 (MainTask None True)
     @ [HostTask (Disconnected 1), HostTask (ScanResult [TEMPIO_SERVICE_UUID] ''cc'')] @ replicate 5 (MainTask None True)
     @ [HostTask (Disconnected 0)]"

definition freed_early :: "(string, string \<rightharpoonup> string) tasks" where
  "freed_early = task_run one_env (map_wifi True) freed_schedule (tasks_at one_start [])"

lemma freed_facts:
  "tk_loop freed_early = LConnect (CTake ''cc'' 1)"
  "findSlotIndex (\<lambda>n. \<not> cn_used n \<and> cn_client n \<noteq> None) (hb_ble (tk_hub freed_early)) = Some 0"
  "map cn_client (bl_nodes (hb_ble (tk_hub freed_early))) = [Some 0, Some 1, None, None, None]"
  by code_simp+

theorem slot_race_loses_client_witness:
  "let t = task_run one_env (map_wifi True) (replicate 4 (MainTask None True)) freed_early; ns = bl_nodes (hb_ble (tk_hub t)) in
   cn_client (ns ! 1) = Some 0 \<and> 1 \<notin> set (loop_held (tk_loop t) @ clients ns)"
proof -
  let ?ns = "bl_nodes (hb_ble (tk_hub freed_early))"
  note maps = freed_facts(3)
  have len: "length ?ns = 5" using arg_cong [OF maps, of length] by simp
  then have nth: "cn_client (?ns ! i) = [Some 0, Some 1, None, None, None] ! i" if "i < 5" for i
    using that maps nth_map [of i ?ns cn_client] by simp
  have "clients ?ns = concat (map (\<lambda>c. case c of None \<Rightarrow> [] | Some c \<Rightarrow> [c]) (map cn_client ?ns))"
    by (simp add: clients_def comp_def)
  then have "distinct (clients ?ns)" unfolding maps by simp
  moreover have "calm (he_ble one_env)" by (simp add: calm_def one_env_def example_hub_env_def example_env_def)
  ultimately show ?thesis
    using slot_race_loses_client [OF freed_facts(1) refl _ _ _ freed_facts(2), of 1 0 one_env "map_wifi True" None True]
      len nth [of 0] nth [of 1] by simp
qed

section \<open>A scan result for the address of a connection in progress\<close>






section \<open>A link that is lost between a test and the use\<close>

text \<open>
  \<open>registerNode\<close> and \<open>bleSendToNode\<close> test the pointer to the characteristic and then use it; \<open>hub_ready\<close> and
  \<open>bleSendToNode\<close> above are the two together, as one step.  Apart, where \<open>None\<close> stands for a
  null pointer that is dereferenced:
\<close>

definition char_test :: "nat \<Rightarrow> 'adr ble \<Rightarrow> bool" where
  "char_test slot b \<longleftrightarrow> cn_configChar (bl_nodes b ! slot) \<noteq> None"

definition char_write :: "'adr ble_env \<Rightarrow> nat \<Rightarrow> byte list \<Rightarrow> 'adr ble \<Rightarrow> (bool \<times> 'adr ble) option" where
  "char_write env slot data b =
     (case cn_configChar (bl_nodes b ! slot) of None \<Rightarrow> None | Some ch \<Rightarrow> Some (writeValue env b ch data))"

lemma char_write_None: "char_write env slot data b = None \<longleftrightarrow> cn_configChar (bl_nodes b ! slot) = None"
  by (simp add: char_write_def split: option.splits)

lemma disconnect_char:
  assumes "ble_inv held b" and "slot < length (bl_nodes b)" and "cn_used (bl_nodes b ! slot)" and "char_test slot b"
  shows "cn_configChar (bl_nodes (onDisconnect c b) ! slot) = None \<longleftrightarrow> cn_client (bl_nodes b ! slot) = Some c"
proof (cases "findSlotByClient b c")
  case None
  then have "cn_client (bl_nodes b ! slot) \<noteq> Some c"
    using assms(2,3) by (auto simp: findSlotByClient_def findSlotIndex_def first_index_None)
  with None assms(4) show ?thesis by (simp add: onDisconnect_def char_test_def)
next
  case (Some i)
  note iD = findSlotByClient_Some [OF Some]
  have "distinct (clients (bl_nodes b))" using assms(1) by (simp add: ble_inv_def)
  then have "i = slot \<longleftrightarrow> cn_client (bl_nodes b ! slot) = Some c"
    using clients_unique [of "bl_nodes b" i slot c] iD assms(2) by auto
  with Some iD(1) assms(2,4) show ?thesis
    by (auto simp: onDisconnect_def setNode_def Let_def nth_list_update char_test_def)
qed

text \<open>
  C39: with nothing in between, the test protects the use.  If a callback of the host task comes in between, the
  pointer has become null exactly when it is the disconnect of the very client in the slot: then the main
  task (HUB_READY, a flush) or the MQTT task (a direct command) dereferences it.  No other callback does any harm.
\<close>

theorem null_after_disconnect:
  assumes "ble_inv held b" and "slot < length (bl_nodes b)" and "cn_used (bl_nodes b ! slot)" and "char_test slot b"
  shows "(let ready = bytes_HubReady \<lparr>hr_type = msg_code HUB_READY\<rparr> in
      \<exists>ok. char_write env slot ready b = Some (ok, hub_ready env slot b))
    \<and> (findSlotByAddr b (be_addr env (cstr node)) = Some slot
        \<longrightarrow> char_write env slot data b = Some (bleSendToNode env b node data))
    \<and> (char_write env slot data (run_event env e b) = None
        \<longleftrightarrow> (\<exists>c. e = Disconnected c \<and> cn_client (bl_nodes b ! slot) = Some c))"
proof -
  obtain ch where ch: "cn_configChar (bl_nodes b ! slot) = Some ch"
    using assms(4) by (auto simp: char_test_def)
  have "cn_configChar (bl_nodes (run_event env e b) ! slot) = None
      \<longleftrightarrow> (\<exists>c. e = Disconnected c \<and> cn_client (bl_nodes b ! slot) = Some c)"
  proof (cases e)
    case (Disconnected c)
    with disconnect_char [OF assms, of c] show ?thesis by simp
  next
    case (Notified src data rssi)
    let ?b = "onDataNotify (be_toString env) src data rssi b"
    have "map cn_configChar (bl_nodes ?b) = map cn_configChar (bl_nodes b)" by (rule onDataNotify_nodes)
    then have "cn_configChar (bl_nodes ?b ! slot) = cn_configChar (bl_nodes b ! slot)"
      using assms(2) by (metis length_map nth_map)
    with Notified ch show ?thesis by simp
  qed (simp add: ch onResult_def)
  then show ?thesis
    by (simp add: char_write_None) (simp add: char_write_def ch hub_ready_def bleSendToNode_def prod_eq_iff)
qed

theorem null_after_disconnect_witness:
  "char_test 0 example_ble \<and> findSlotByAddr example_ble (be_addr example_env (cstr ''aa'')) = Some 0
   \<and> char_write example_env 0 [0x12, 9, 0, 90, 0] (run_event example_env (Disconnected 0) example_ble) = None
   \<and> char_write example_env 0 [0x12, 9, 0, 90, 0] (run_event example_env (Disconnected 1) example_ble) \<noteq> None"
proof -
  have facts: "0 < length (bl_nodes example_ble)" "cn_used (bl_nodes example_ble ! 0)" "char_test 0 example_ble"
      "findSlotByAddr example_ble (be_addr example_env (cstr ''aa'')) = Some 0"
      "cn_client (bl_nodes example_ble ! 0) = Some 0"
    by code_simp+
  note null_after_disconnect [OF example_ble_inv(1) facts(1-3), of example_env "''aa''" "[0x12, 9, 0, 90, 0]"]
  from this [of "Disconnected 0"] this [of "Disconnected 1"] facts show ?thesis by simp
qed

end
