(* ===== verification/Task_Progress.thy ===== *)
theory Task_Progress
  imports Task_Links
begin

text \<open>
  The main loop always comes round.  The loops of a pass end although the other tasks refill the queues and the
  pool meanwhile: a measure of the work that is left decreases with each step of the main task, and a step of
  another task adds at most a constant to it.
\<close>

section \<open>The work that is left\<close>

text \<open>
  The weights are the numbers of steps, where the handling of a command, a report or an acknowledgement
  counts as three or two.  In the steps before a queue is published it counts as full.
\<close>

fun flush_weight :: "flush_pc \<Rightarrow> nat" where
  "flush_weight (FCheck node) = 4"
| "flush_weight (FPop node) = 3"
| "flush_weight (FSend node c) = 5"
| "flush_weight (FSent node c ok) = 4"

fun connect_weight :: "'adr connect_pc \<Rightarrow> nat" where
  "connect_weight (CStop addr) = 15"
| "connect_weight (CPick addr) = 14"
| "connect_weight (CTake addr slot) = 13"
| "connect_weight (CConnect addr slot c) = 12"
| "connect_weight (CDiscover addr slot c) = 11"
| "connect_weight (CDisconnect slot c) = 3"
| "connect_weight (CStash slot c) = 2"
| "connect_weight (CRegister addr slot c) = 10"
| "connect_weight (CUse addr slot c cfg) = 9"
| "connect_weight (CPause addr slot) = 8"
| "connect_weight (CReady addr slot) = 7"
| "connect_weight (CLed addr) = 6"
| "connect_weight (CFlush f) = Suc (flush_weight f)"
| "connect_weight CStart = 1"

fun loop_weight :: "'adr loop_pc \<Rightarrow> 'adr ble \<Rightarrow> nat" where
  "loop_weight LTop b = 73"
| "loop_weight LRescan b = 72"
| "loop_weight LNext b = 71"
| "loop_weight (LConnect c) b = 55 + connect_weight c"
| "loop_weight LStatus b = 55"
| "loop_weight LMqtt b = 54"
| "loop_weight LReports b = 37 + 2 * length (reports b)"
| "loop_weight (LReport r) b = 38 + 2 * length (reports b)"
| "loop_weight LAcks b = 28 + 2 * length (acks b)"
| "loop_weight (LAck a) b = 29 + 2 * length (acks b)"
| "loop_weight (LFlushAll idx) b = 2 + 5 * (5 - idx)"
| "loop_weight (LFlush idx f) b = flush_weight f + 2 + 5 * (5 - idx)"
| "loop_weight LDelay b = 1"

definition loop_work :: "'adr loop_pc \<Rightarrow> 'adr hub \<Rightarrow> nat" where
  "loop_work pc h = 3 * size (pool_cmds (hb_pool h)) + loop_weight pc (hb_ble h)"

abbreviation work_left :: "('adr, 'nvs) tasks \<Rightarrow> nat" where
  "work_left t \<equiv> loop_work (tk_loop t) (tk_hub t)"

text \<open>It is bounded, because the queues and the pool are.\<close>

lemma queue_room:
  assumes "queues_ok b"
  shows "length (reports b) \<le> 8" and "length (acks b) \<le> 4"
  using assms tsq.items_cap [of REPORT_QUEUE_MAX "bl_reportQueue b"]
    tsq.items_cap [of CMD_PENDING_PER_NODE "bl_ackQueue b"]
  by (simp_all add: queues_ok_def config_defs)

lemma size_sum_bags: "size (\<Sum>k \<in> A. f k) = (\<Sum>k \<in> A. size (f k :: 'a multiset))"
  by (induction A rule: infinite_finite_induct) auto

lemma pool_cmds_bounded:
  assumes "pool_inv p"
  shows "size (pool_cmds p) \<le> 20"
proof -
  have "card (dom (pool_abs p)) \<le> 5"
    using pool_activeSlots_abs [OF assms] length_filter_le [of sl_used "pp_slots p"] assms
    by (simp add: pool_activeSlots_def pool_inv_def config_defs)
  moreover have "length (mb_pending (pool_abs p) k) \<le> 4" for k
    using pool.cap_abs [OF assms, of k] by (auto simp: mb_pending_def config_defs split: option.splits)
  then have "size (pool_cmds p) \<le> (\<Sum>k \<in> dom (pool_abs p). 4)"
    unfolding pool_cmds_def mb_bag_def size_sum_bags by (intro sum_mono) simp
  ultimately show ?thesis by simp
qed

lemma loop_work_bounded:
  assumes "pool_inv (hb_pool h)" and "queues_ok (hb_ble h)"
  shows "loop_work pc h \<le> 133"
proof -
  have flush: "flush_weight f \<le> 5" for f by (cases f) simp_all
  have "flush_weight f \<le> 17" for f by (cases f) simp_all
  then have "connect_weight c \<le> 18" for c :: "'a connect_pc"
    by (cases c) simp_all
  moreover have "flush_weight f + 2 + 5 * (5 - idx) \<le> 73" for f idx
    using flush [of f] by linarith
  ultimately have "loop_weight pc (hb_ble h) \<le> 73"
    using queue_room [OF assms(2)] by (cases pc) auto
  with pool_cmds_bounded [OF assms(1)] show ?thesis by (simp add: loop_work_def)
qed

section \<open>The main task\<close>

lemma flush_work:
  assumes "pool_filed (hb_pool h)" and "flush_target f" and "flush_step env f h = (r, h')"
  shows "3 * size (pool_cmds (hb_pool h')) + (case r of None \<Rightarrow> 0 | Some f' \<Rightarrow> flush_weight f')
    < 3 * size (pool_cmds (hb_pool h)) + flush_weight f"
proof (cases f)
  case (FPop node)
  have inv: "pool_inv (hb_pool h)" using assms(1) by (simp add: pool_filed_def)
  obtain r0 p where pop: "pool_pop (clock env h) (hb_pool h) node = (r0, p)" by fastforce
  have h': "hb_pool h' = p" "r = map_option (FSend node) r0"
    using assms(3) FPop pop by (auto simp: read_clock_def Let_def split: option.splits)
  show ?thesis
  proof (cases r0)
    case None
    from size_mset_mono [OF pool_pop_bag(2) [OF inv pop this]] h' None FPop show ?thesis by simp
  next
    case (Some c)
    from size_mset_mono [OF pool_pop_bag(3) [OF inv pop this]] h' Some FPop show ?thesis by simp
  qed
next
  case (FSent node c ok)
  show ?thesis
  proof (cases ok)
    case False
    have "fits 18 (cstr node)" "pool_inv (hb_pool h)" using assms(1,2) FSent by (simp_all add: pool_filed_def)
    from size_mset_mono [OF pool_pushFront_bag(2) [OF this(2,1), of "clock env h" c]] False assms(3) FSent
    show ?thesis by (auto simp: read_clock_def)
  qed (use assms(3) FSent in auto)
qed (use assms(3) in \<open>auto split: if_splits prod.splits dest: send_now_ble(3)\<close>)

lemma connect_work:
  assumes "connect_step env c h = (r, h')" and "\<nexists>f. c = CFlush f"
  shows "(case r of None \<Rightarrow> 0 | Some c' \<Rightarrow> connect_weight c') < connect_weight c"
  using assms by (cases c) (auto simp: on_link_def split: option.splits prod.splits)

lemma loop_step_work:
  assumes "pool_filed (hb_pool h)" and "queues_ok (hb_ble h)" and "loop_target pc"
    and "loop_step env up pc h = (r, h')" and "queues_ok (hb_ble h')"
  shows "(case r of None \<Rightarrow> 0 | Some pc' \<Rightarrow> loop_work pc' h') < loop_work pc h"
proof (cases "\<exists>f idx. pc = LConnect (CFlush f) \<or> pc = LFlush idx f")
  case True
  then obtain f idx where pc: "pc = LConnect (CFlush f) \<or> pc = LFlush idx f" by blast
  obtain r0 h1 where step: "flush_step env f h = (r0, h1)" by fastforce
  have "flush_target f" using assms(3) pc by auto
  from flush_work [OF assms(1) this step] pc show ?thesis
    using step assms(4) by (auto simp: loop_work_def split: option.splits)
next
  case False
  have pool: "hb_pool h' = hb_pool h" using loop_step_pool [OF assms(4) False] by simp
  have "(case r of None \<Rightarrow> 0 | Some pc' \<Rightarrow> loop_weight pc' (hb_ble h')) < loop_weight pc (hb_ble h)"
  proof (cases pc)
    case (LConnect c)
    obtain r0 h1 where step: "connect_step env c h = (r0, h1)" by fastforce
    have "\<nexists>f. c = CFlush f" using False LConnect by auto
    from connect_work [OF step this] step assms(4) LConnect show ?thesis by (auto split: option.splits)
  next
    case LReports
    obtain r0 b where get: "bleGetPendingReport (hb_ble h) = (r0, b)" by fastforce
    have "tsq_inv REPORT_QUEUE_MAX (bl_reportQueue (hb_ble h))" using assms(2) by (simp add: queues_ok_def)
    from bleGetPendingReport_cases(2,3) [OF this get] get assms(4) LReports queue_room(2) [OF assms(5)]
    show ?thesis by (auto split: option.splits)
  next
    case LAcks
    obtain r0 b where get: "bleGetPendingAck (hb_ble h) = (r0, b)" by fastforce
    have "tsq_inv CMD_PENDING_PER_NODE (bl_ackQueue (hb_ble h))" using assms(2) by (simp add: queues_ok_def)
    from bleGetPendingAck_cases(3) [OF this get] get assms(4) LAcks
    show ?thesis by (auto split: option.splits)
  next
    case (LFlushAll idx)
    have "length (pp_slots (hb_pool h)) = 5" using assms(1) by (simp add: pool_filed_def pool_inv_def config_defs)
    with assms(4) LFlushAll show ?thesis by (auto simp: Let_def split: if_splits)
  qed (use assms(4) queue_room(1) [OF assms(5)] False in \<open>auto simp: on_link_def publish_def read_clock_def Let_def
      split: option.splits prod.splits\<close>)
  then show ?thesis
    using pool by (cases r) (simp_all add: loop_work_def)
qed

section \<open>The other tasks\<close>

lemma weight_other:
  assumes "queues_ok b'"
  shows "loop_weight pc b' \<le> loop_weight pc b + 16"
  using queue_room [OF assms] by (cases pc) simp_all

lemma push_work:
  assumes "pool_inv p" and "fits 18 node"
  shows "size (pool_cmds (snd (pool_push now p node c))) \<le> Suc (size (pool_cmds p))"
  using size_mset_mono [OF pool_push_bag(2) [OF assms, of now c]] by simp

lemma mqtt_step_work:
  assumes "pool_filed (hb_pool h)" and "list_all (\<lambda>c. fits 18 (mc_target c)) (mqtt_hand m)"
    and "mqtt_step env m h = (m', h')"
  shows "size (pool_cmds (hb_pool h')) \<le> Suc (size (pool_cmds (hb_pool h)))"
proof -
  have hub: "hb_pool (handleHubCommand env c h) = hb_pool h" for c by (rule handleHubCommand_pool)
  show ?thesis
    using assms hub push_work
    by (cases "(env, m, h)" rule: mqtt_step.cases)
      (auto simp: read_clock_def pool_filed_def split: if_splits prod.splits dest: send_now_ble(3))
qed

fun is_main :: "'adr task_action \<Rightarrow> bool" where
  "is_main (MainTask serial wifiUp) = True"
| "is_main _ = False"

text \<open>The invariant of the schedules: the pool is in order, and the queues are.\<close>

definition tasks_live :: "('adr, 'nvs) tasks \<Rightarrow> bool" where
  "tasks_live t \<longleftrightarrow> tasks_ok t \<and> (\<exists>lost. links_at lost t)"

lemma tasks_live_do: "tasks_live t \<Longrightarrow> tasks_live (task_do env api a t)"
  using task_do_ok [of t env api a] task_do_links [of _ t env api a] by (auto simp: tasks_live_def)

lemma tasks_liveD:
  assumes "tasks_live t"
  shows "pool_filed (hb_pool (tk_hub t))" and "loop_target (tk_loop t)" and "queues_ok (hb_ble (tk_hub t))"
    and "list_all (\<lambda>c. fits 18 (mc_target c)) (mqtt_hand (tk_mqtt t))"
  using assms by (auto simp: tasks_live_def tasks_ok_def links_at_def links_ok_def intro: ble_inv_queues)

lemma other_work:
  assumes "tasks_live t" and "\<not> is_main a"
  shows "work_left (task_do env api a t) \<le> work_left t + 19"
proof -
  let ?t' = "task_do env api a t"
  have "size (pool_cmds (hb_pool (tk_hub ?t'))) \<le> Suc (size (pool_cmds (hb_pool (tk_hub t))))"
  proof (cases a)
    case MqttTask
    obtain m' h' where step: "mqtt_step env (tk_mqtt t) (tk_hub t) = (m', h')" by fastforce
    from mqtt_step_work [OF tasks_liveD(1,4) [OF assms(1)] step] step MqttTask show ?thesis by simp
  next
    case (Arrives i ev)
    obtain m h' where arr: "arrive env i ev (tk_hub t) = (m, h')" by fastforce
    from arrive_quiet [OF arr] arr task_do_arrives [of env api i ev t] Arrives show ?thesis by auto
  qed (use assms(2) in \<open>simp_all add: on_ble_def\<close>)
  moreover have "tk_loop ?t' = tk_loop t"
    using assms(2) by (cases a) (auto split: prod.splits mqtt_pc.splits)
  moreover have "loop_weight (tk_loop t) (hb_ble (tk_hub ?t')) \<le> loop_weight (tk_loop t) (hb_ble (tk_hub t)) + 16"
    by (rule weight_other [OF tasks_liveD(3) [OF tasks_live_do [OF assms(1)]]])
  ultimately show ?thesis by (simp add: loop_work_def)
qed

lemma main_work:
  assumes "tasks_live t" and "tk_loop (task_do env api (MainTask serial up) t) \<noteq> LTop"
  shows "work_left (task_do env api (MainTask serial up) t) < work_left t"
proof -
  obtain r h' where step: "loop_step env up (tk_loop t) (tk_hub t) = (r, h')" by fastforce
  have "queues_ok (hb_ble h')"
    using tasks_liveD(3) [OF tasks_live_do [OF assms(1)], of env api "MainTask serial up"] step by (simp add: Let_def)
  from loop_step_work [OF tasks_liveD(1,3,2) [OF assms(1)] step this] assms(2) step show ?thesis
    by (auto simp: Let_def split: option.splits)
qed

section \<open>Every schedule\<close>

lemma pass_work:
  assumes "tasks_live t" and "\<forall>i. 0 < i \<and> i \<le> length sched \<longrightarrow> tk_loop (task_run env api (take i sched) t) \<noteq> LTop"
  shows "length (filter is_main sched) \<le> work_left t + 19 * length (filter (\<lambda>a. \<not> is_main a) sched)"
  using assms
proof (induction sched arbitrary: t)
  case (Cons a sched)
  let ?t' = "task_do env api a t"
  have "\<forall>i. 0 < i \<and> i \<le> length sched \<longrightarrow> tk_loop (task_run env api (take i sched) ?t') \<noteq> LTop"
    using Cons.prems(2) by (metis Suc_le_mono length_Cons take_Suc_Cons task_run_Cons zero_less_Suc)
  note rest = Cons.IH [OF tasks_live_do [OF Cons.prems(1)] this]
  show ?case
  proof (cases "is_main a")
    case True
    then obtain serial up where a: "a = MainTask serial up" by (cases a) auto
    have "tk_loop (task_run env api (take 1 (a # sched)) t) \<noteq> LTop" using Cons.prems(2) by force
    then have "tk_loop ?t' \<noteq> LTop" by simp
    with main_work [OF Cons.prems(1)] a have "work_left ?t' < work_left t" by blast
    with rest True show ?thesis by simp
  next
    case False
    with rest other_work [OF Cons.prems(1), of a env api] show ?thesis by simp
  qed
qed simp

text \<open>
  C12: the main loop cannot be kept from coming round.  However the MQTT task and the callbacks refill the
  pool and the queues, and at whatever point of a pass the schedule starts: if the main task gets more than 133
  steps, and 19 more for each step of the other tasks, it begins a new pass.
\<close>

theorem scheduled_pass_ends:
  assumes "boot_mem pmem rmem amem" and "pool_mem mem"
    and "t = task_run env api before (power_on_tasks env api root_ca mac wifiUp addr0 pmem rmem amem mem nvs)"
    and "length (filter is_main sched) > 133 + 19 * length (filter (\<lambda>a. \<not> is_main a) sched)"
  shows "\<exists>i. 0 < i \<and> i \<le> length sched \<and> tk_loop (task_run env api (take i sched) t) = LTop"
proof (rule ccontr)
  assume never: "\<not> ?thesis"
  let ?t0 = "power_on_tasks env api root_ca mac wifiUp addr0 pmem rmem amem mem nvs"
  have "tasks_live ?t0"
    using tasks_ok_start(1,2) [OF assms(1,2) refl, of env api root_ca mac wifiUp addr0 nvs]
    unfolding tasks_live_def by blast
  then have live: "tasks_live t"
    unfolding assms(3) by (rule task_run_keeps) (rule tasks_live_do)
  have "work_left t \<le> 133"
    using tasks_liveD(1,3) [OF live] by (intro loop_work_bounded) (simp_all add: pool_filed_def)
  with pass_work [OF live, of sched env api] never assms(4) show False by auto
qed

theorem scheduled_pass_ends_witness:
  "\<exists>i. 0 < i \<and> i \<le> 154
     \<and> tk_loop (task_run one_env (map_wifi True) (take i (MqttTask # replicate 153 (MainTask None True))) paused) = LTop"
proof -
  have "133 + 19 * length (filter (\<lambda>a. \<not> is_main a) (MqttTask # replicate 153 (MainTask None True)))
      < length (filter is_main (MqttTask # replicate 153 (MainTask None True)))" by simp
  from scheduled_pass_ends [OF example_boot_mem example_mem_ok paused_def [unfolded one_start_def] this]
  show ?thesis by simp
qed

end
