(* ===== verification/Spec2Isabelle.thy ===== *)
theory Spec2Isabelle
  imports Gatt_Profile Boot Ir_Node Task_Network Task_Addresses Task_Races Task_Hazards Task_Progress
begin

text \<open>
  The firmware of tempio: a hub (ESP32, \<^verbatim>\<open>src/firmware/src/hub\<close>) that collects the readings of battery
  nodes (\<^verbatim>\<open>src/firmware/src/sensor\<close>) over Bluetooth LE, publishes them over MQTT, and carries commands
  the other way.  Shared code is in \<^verbatim>\<open>src/firmware/lib\<close>.  This development models the implementation
  files of the firmware, operation by operation, and proves what makes them correct.

  \<^bold>\<open>How the parts interact.\<close>  A node wakes up, advertises, and waits.  The hub's scan callback queues its
  address; the main loop stops the scanner, connects, subscribes, puts the node into one of five
  slots, writes HUB_READY and then the commands that are pending for the node.  The node answers
  HUB_READY with its type and a reading; the notify callback queues them as reports, the main loop
  publishes them.  Commands come as MQTT messages in ESP-IDF's MQTT task: a command is written at once if
  its node is connected, else it waits in the pending pool, for at most five minutes.  The node acknowledges
  commands by notifications that reach the server as reports do.

  \<^bold>\<open>Theories and sources.\<close>
  \<^item> \<^verbatim>\<open>Prelude\<close>: machine types, little-endian bytes, C strings and \<open>strlcpy\<close>, the search for the first
    match in a table, tables keyed by a field; the collection \<open>tempio_inv\<close> of preservation lemmas.
  \<^item> \<^verbatim>\<open>Protocol\<close>: \<^verbatim>\<open>lib/protocol/protocol.h\<close>, the UUIDs, the codes and the packed structures as byte lists.
  \<^item> \<^verbatim>\<open>Node_State\<close>: \<^verbatim>\<open>lib/storage/node_state.cpp\<close>, the sleep interval and its copy in the flash.
  \<^item> \<^verbatim>\<open>Thread_Safe_Queue\<close>: \<^verbatim>\<open>util/thread_safe_queue.h\<close>; locale \<open>bounded_fifo\<close>, interpreted as \<open>tsq\<close>.
  \<^item> \<^verbatim>\<open>Hub_Types\<close>: \<^verbatim>\<open>config.h\<close> and \<^verbatim>\<open>dto/\<close>; \<^verbatim>\<open>Json_Api\<close>: ArduinoJson as a parameter, the documents of
    \<open>toJson\<close>.
  \<^item> \<^verbatim>\<open>Pending_Pool\<close>: \<^verbatim>\<open>util/pending_pool.h\<close>; locale \<open>mailbox\<close> (a map from nodes to bounded command
    lists), interpreted as \<open>pool\<close>.  \<^verbatim>\<open>Pool_Race\<close>: the two tasks that share it, interleaved.
  \<^item> \<^verbatim>\<open>Ble_State\<close> (\<^verbatim>\<open>ble/ble_internal.h\<close> and the slot helpers of \<^verbatim>\<open>ble_central.cpp\<close>), \<^verbatim>\<open>Ble_Data\<close>
    (\<^verbatim>\<open>ble_data.cpp\<close>), \<^verbatim>\<open>Ble_Callbacks\<close> (the callbacks of \<^verbatim>\<open>ble_connection.cpp\<close>), \<^verbatim>\<open>Ble_Link\<close> (the send API;
    locale \<open>node_link\<close>, interpreted as \<open>ble\<close>), \<^verbatim>\<open>Ble_Connection\<close> (connecting, and the loop of
    \<^verbatim>\<open>ble_central.cpp\<close>), \<^verbatim>\<open>Ble_Central\<close> and \<^verbatim>\<open>Ble_Reports\<close> (their properties).
  \<^item> \<^verbatim>\<open>Cmd_Send\<close>, \<^verbatim>\<open>Cmd_Dispatcher\<close>, \<^verbatim>\<open>Cmd_Flush\<close>: \<^verbatim>\<open>cmd/cmd_dispatcher.cpp\<close> and \<^verbatim>\<open>cmd/hub_command.cpp\<close>.
  \<^item> \<^verbatim>\<open>Mqtt_Client\<close>, \<^verbatim>\<open>Mqtt_Handler\<close>: \<^verbatim>\<open>net/mqtt_handler.cpp\<close>, \<^verbatim>\<open>util/hub_id.cpp\<close>;
    \<^verbatim>\<open>Wifi_Manager\<close>: \<^verbatim>\<open>net/wifi_manager.cpp\<close>.
  \<^item> \<^verbatim>\<open>Hub_Main\<close>: \<^verbatim>\<open>hub/main.cpp\<close> and the hub as a transition system; \<^verbatim>\<open>Boot\<close>: the wait for a serial
    monitor before it, and \<^verbatim>\<open>net/root_ca.h\<close>.
  \<^item> \<^verbatim>\<open>Sensor_Node\<close>: \<^verbatim>\<open>sensor/ble_peripheral.cpp\<close>, \<^verbatim>\<open>sensor/main.cpp\<close>; \<^verbatim>\<open>Node_Steps\<close>: the node as a
    transition system over many wake cycles, of which every run of \<open>setup\<close> is an instance.
  \<^item> \<^verbatim>\<open>Ir_Node\<close>: \<^verbatim>\<open>ir/main.cpp\<close>, which so far only initialises its transmitter.
  \<^item> \<^verbatim>\<open>Gatt_Profile\<close>: the profile the node publishes, and that it has what the hub looks for.
  \<^item> \<^verbatim>\<open>Hub_Monitor\<close>, \<^verbatim>\<open>Pool_Bag\<close>, \<^verbatim>\<open>Hub_Content\<close>: interfaces for invariants of the whole hub (below);
    \<^verbatim>\<open>Hub_Traffic\<close>: two such invariants; \<^verbatim>\<open>Network\<close>: the hub composed with any number of nodes;
    \<^verbatim>\<open>Hub_Progress\<close>: liveness.
  \<^item> \<^verbatim>\<open>Hub_Tasks\<close>: the main task (\<open>loop\<close>, \<open>processNextPending\<close>, \<open>connectToNode\<close>, \<open>registerNode\<close>,
    \<open>flushNodePending\<close>), the MQTT task (\<open>dispatchCommand\<close>) and the host task as programs that preempt each other;
    \<^verbatim>\<open>Task_Content\<close>, \<^verbatim>\<open>Task_Links\<close>, \<^verbatim>\<open>Task_Addresses\<close>: invariants under every schedule; \<^verbatim>\<open>Task_Network\<close>: the
    tasks composed with the nodes; \<^verbatim>\<open>Task_Races\<close>: the order of the commands; \<^verbatim>\<open>Task_Progress\<close>: a pass ends
    although it is preempted; \<^verbatim>\<open>Task_Hazards\<close>: the moments where preemption does harm.
  \<^item> This theory: the properties that span the hub and the node.

  \<^bold>\<open>How state and operations correspond.\<close>  Each \<^verbatim>\<open>static\<close> variable is a field of the record of its
  file, each function a definition with the function's name that takes and returns the record; indices
  stand for slot pointers, \<open>None\<close> for \<^verbatim>\<open>nullptr\<close>, \<open>-1\<close> and \<^verbatim>\<open>false\<close> with an out parameter.  Integers
  are words of their width where they can wrap or are cut (times, ids, intervals, lengths of IR
  packets); floats are their raw bits.  Calls with an effect outside are logs: the characteristic
  writes (\<open>bl_writes\<close>), the MQTT calls (\<open>mq_log\<close>), the node's notifications (\<open>sn_notifies\<close>), the WiFi
  connection attempts (\<open>wf_begins\<close>).  Messages on the serial line are left out.

  \<^bold>\<open>Libraries.\<close>  NimBLE (\<open>ble_env\<close>), ArduinoJson (\<open>json_api\<close>), Preferences (\<open>prefs_api\<close>, \<open>wifi_api\<close>),
  the clock, the heap size and the WiFi state (\<open>hub_env\<close>, \<open>sensor_env\<close>, arguments) are parameters.
  Almost nothing is assumed about them; where a property needs more it is a named hypothesis:
  \<open>prefs_laws\<close> and \<open>wifi_store_laws\<close> (a store returns what was put), \<open>clock_law\<close> (a clock that
  advances, read modulo \<open>2 ^ 32\<close>), \<open>json_bounded\<close> (\<open>serializeJson\<close> stays in its buffer), \<open>peer_answers\<close> (NimBLE
  finds, under any UUID it is asked for, what a peer has created), \<open>only_from_air\<close> (notifications come from nodes)
  and \<open>calm\<close> (for liveness: nothing that is asked of NimBLE fails, and no callback interferes).  Whether NimBLE
  delivers scan results after the scanner has been stopped is a parameter (\<open>be_late\<close>); no property depends on it.

  \<^bold>\<open>Concurrency.\<close>  A callback of NimBLE can run whenever the main loop blocks in a call to NimBLE: every
  such call is \<open>ble_call\<close>, in which the environment runs any list of callbacks.  \<open>hub_step\<close> lets passes of
  the loop, single callbacks and MQTT events follow each other in any order.  Below this stands the task
  model of \<open>Hub_Tasks\<close>: a task is a program with a control state (\<open>loop_pc\<close>, \<open>connect_pc\<close>, \<open>flush_pc\<close>,
  \<open>mqtt_pc\<close>) that holds its local variables, its steps end at the critical sections, the searches of the slots
  and the calls that block, and a schedule is any list of steps of the tasks.  The lemma \<open>tasks_refine_hub\<close> relates the
  two levels: every run of the hub model is also a run of the tasks.  The invariants of \<open>Task_Content\<close> and \<open>Task_Links\<close>
  hold after every schedule, where a command or a client may also be in a local variable of a task, and
  \<open>Task_Network\<close> traces the traffic to its origin while the nodes act between any two steps.  By
  \<open>hub_refines_race\<close> a schedule is, for one node, a run of the interleaved pool (\<open>Pool_Race\<close>).  The addresses are
  all different (\<open>scheduled_no_node_twice\<close>) if, whenever a slot is marked as used, no scan result has queued its address
  again since its \<open>pop\<close>; \<open>scan_result_requeues\<close> shows that such a scan result is possible.  Some pieces of code are one
  step although a callback of the host task could come within them: they are listed in \<open>Hub_Tasks\<close>, and for the tests
  of a characteristic before its use \<open>null_after_disconnect\<close> shows what this hides.  Liveness is shown for
  the hub model only: there a calm environment lets every pass do its work, whereas a schedule may stop a task
  for ever.

  \<^bold>\<open>Invariants of the whole hub.\<close>  The locale \<open>hub_monitor\<close> lists the elementary changes that the hub makes
  to its traffic (a notification, a write, a step of the pool, ...); its lemmas say that a predicate which
  survives them survives every operation up to \<open>hub_loop\<close>.  \<open>hub_receiver\<close> adds the commands that come in,
  \<open>hub_keeper\<close> all actions of the hub; \<open>hub_content\<close>, a special case by \<open>sublocale\<close>, speaks of what is in the
  pool, in the queues and on the wire.  \<open>Hub_Traffic\<close> interprets them for string lengths (\<open>strings\<close>) and for
  sending at most once (\<open>once\<close>), \<open>Network\<close> and \<open>Task_Network\<close> use them for the origin of all traffic.  \<open>hub_tasks\<close> is the same
  interface for the steps of the tasks; every \<open>hub_content\<close> gives one (\<open>content_tasks\<close>), so that the two invariants
  hold under every schedule without a new proof.

  \<^bold>\<open>The network.\<close>  In \<open>net_run\<close> the radio delivers anything that has been sent, at any time, in any order, any
  number of times or never, to any node; while the hub performs one action the nodes may take any
  number of steps, with what the hub has written by the end of the action.  So every real run is
  covered.  \<open>task_net\<close> is the same system with the hub broken into the steps of its tasks.

  \<^bold>\<open>Loops.\<close>  The loops of the hub are total functions with a measure (the items in a queue, the commands
  in the pool, the slots that are left, the attempts that are left), so no fuel is used.  The wait loops
  of the node and of the hub's boot depend on the clock and are partial functions with an option as result;
  \<open>sensor_always_sleeps\<close> and \<open>hub_boot_returns\<close> show that they return.  In the task model the other tasks can
  refill what a loop empties; \<open>scheduled_pass_ends\<close> shows that a pass ends nevertheless, with \<open>work_left\<close> as the
  measure, after at most 133 steps and 19 more for each step of another task.

  \<^bold>\<open>What the lemmas show.\<close>  Refinements: the ring buffer is a bounded list, the pool a bounded map, the
  flush a function on lists (\<open>flushNode_loop_refines\<close>).  Invariants: \<open>ble_inv\<close> (every NimBLE client in
  exactly one place), \<open>addr_inv\<close> (no address queued or in use twice), \<open>pool_inv\<close>, \<open>targets_ok\<close> (every command under its
  node), \<open>sys_ok\<close> for all reachable states of the hub, \<open>sensor_ok\<close> for the node, \<open>net_ok\<close> for both together.
  Progress: \<open>link_step\<close> (what a pass does to the links) and \<open>accounted\<close> (each command is settled or still
  pending) give the liveness properties, with the position in the queue as the measure.  Functional
  behaviour, round trips and bounds: the properties, labelled C1, C2 and so on where they stand.  Some
  properties state behaviour that is surprising: \<open>unsendable_never_expires\<close>, \<open>race_loses_command\<close>,
  \<open>early_disconnect_unnoticed\<close>, \<open>reset_restarts_silently\<close>, \<open>command_overtakes_hub_ready\<close> (a command is written in the
  delay before HUB_READY), \<open>slot_race_loses_client\<close> (a disconnect between two searches of the slots),
  \<open>scan_result_requeues\<close> (an address is queued while its connection is in progress), \<open>null_after_disconnect\<close> (a null
  pointer is used).

  \<^bold>\<open>Not modelled.\<close>  The server, its dashboard and the broker's configuration (other programs, in other
  languages); the messages of the hub and of the sensor node on the serial line.  The lines of the sources that no definition maps are declarations, headers, includes and
  comments.
\<close>

section \<open>From the hub to the node and back\<close>

lemma unat_clamp_interval:
  "int (unat (clamp_interval (word_of_int n))) = max 10 (min 3600 (n mod 65536))"
proof -
  have w: "int (unat (word_of_int n :: u16)) = n mod 65536"
    by (simp add: unsigned_of_int take_bit_eq_mod flip: uint_nat)
  show ?thesis
    unfolding clamp_interval_def w [symmetric]
    by (simp add: max_def min_def word_le_def)
qed

text \<open>C1: SET_INTERVAL from end to end.  When the hub reports the command as sent, exactly one packet
  has been written; a connected node that receives it sleeps the requested number of seconds, cut
  to 16 bits and to the range from 10 to 3600, and has them in its flash: after a loss of power at this moment the
  next boot finds the same interval; and it answers a command id other than 0 with one
  notification, from which the hub makes an acknowledgement with the node's address, that id and
  success.\<close>

theorem set_interval_end_to_end:
  assumes "trySend env js cmd b = (True, b1)" and "cstr (mc_type cmd) = ''SET_INTERVAL''"
    and "prefs_laws api" and "ns_opened (sn_state s)"
    and "sn_dataChar s" and "sn_deviceConnected s" and "mc_cmd_id cmd \<noteq> 0"
    and "ble_inv held b2" and "resolveSourceSlot b2 src = Some i" and "length (acks b2) < 4"
  shows "\<exists>h pkt ack. bl_writes b1 = bl_writes b @ [(h, pkt, True)]
    \<and> (let s' = onWrite api pkt s
       in int (unat (ns_sleepInterval (sn_state s')))
            = max 10 (min 3600 (js_int js (snd (js_parse js (cstr (mc_payload cmd)))) ''interval_sec'' 60 mod 65536))
        \<and> ns_sleepInterval (ns_begin api (ns_boot (ns_prefs (sn_state s')))) = ns_sleepInterval (sn_state s')
        \<and> sn_notifies s' = sn_notifies s @ [ack]
        \<and> acks (onDataNotify ts src ack rssi b2) = acks b2
            @ [\<lparr>ar_node_id = take 17 (cstr (ts (cn_addr (bl_nodes b2 ! i)))),
                ar_cmd_id = mc_cmd_id cmd, ar_success = True\<rparr>])"
proof -
  let ?sec = "js_int js (snd (js_parse js (cstr (mc_payload cmd)))) ''interval_sec'' 60"
  let ?pkt = "bytes_SetInterval \<lparr>si_type = msg_code SET_INTERVAL, si_cmd_id = mc_cmd_id cmd,
      si_interval_sec = word_of_int ?sec\<rparr>"
  let ?ca = "\<lparr>ca_type = msg_code CMD_ACK, ca_cmd_id = mc_cmd_id cmd, ca_success = 1\<rparr>"
  have "packet_of js cmd = Some ?pkt"
    using assms(1,2) by (auto simp: trySend_packet packet_of_def Let_def split: prod.splits if_splits)
  with assms(1) ble.send_ok(2) [of env b "mc_target cmd" ?pkt b1]
  obtain h where w: "bl_writes b1 = bl_writes b @ [(h, ?pkt, True)]"
    by (auto simp: trySend_packet)
  have s': "onWrite api ?pkt s
      = send_ack (mc_cmd_id cmd) (s\<lparr>sn_state := ns_setSleepInterval api (sn_state s) (word_of_int ?sec)\<rparr>)"
    using onWrite_set_interval [of api "mc_cmd_id cmd" "word_of_int ?sec" "[]" s] assms(5-7) by simp
  have ack: "acks (onDataNotify ts src (bytes_CmdAck ?ca) rssi b2) = acks b2
      @ [\<lparr>ar_node_id = take 17 (cstr (ts (cn_addr (bl_nodes b2 ! i)))),
          ar_cmd_id = mc_cmd_id cmd, ar_success = True\<rparr>]"
    using onDataNotify_packet(2) [of ?ca ts src "[]" rssi b2] assms(9,10)
      handleCmdAck_acks [OF assms(8), of ?ca "[]"]
    by (simp add: source_addr_def strlcpy_source)
  have "int (unat (ns_sleepInterval (sn_state (onWrite api ?pkt s)))) = max 10 (min 3600 (?sec mod 65536))"
    unfolding s' by (simp add: unat_clamp_interval del: of_nat_unat)
  moreover have "sn_notifies (onWrite api ?pkt s) = sn_notifies s @ [bytes_CmdAck ?ca]"
    unfolding s' by (simp add: send_ack_def notify_def)
  moreover have "ns_sleepInterval (ns_begin api (ns_boot (ns_prefs (sn_state (onWrite api ?pkt s)))))
      = ns_sleepInterval (sn_state (onWrite api ?pkt s))"
    unfolding s' using interval_in_flash [OF assms(3,4)] by simp
  ultimately show ?thesis
    unfolding Let_def using w ack by blast
qed

definition connected_sensor :: "(string \<rightharpoonup> u16) sensor" where
  "connected_sensor = (sensor_boot Map.empty)\<lparr>sn_state := ns_begin map_prefs (ns_boot Map.empty),
     sn_dataChar := True, sn_deviceConnected := True\<rparr>"

theorem set_interval_end_to_end_witness:
  "\<exists>b1 h pkt ack. trySend example_env example_json example_set example_ble = (True, b1)
     \<and> bl_writes b1 = bl_writes example_ble @ [(h, pkt, True)]
     \<and> ns_sleepInterval (sn_state (onWrite map_prefs pkt connected_sensor)) = 90
     \<and> ns_sleepInterval (ns_begin map_prefs (ns_boot (ns_prefs (sn_state (onWrite map_prefs pkt connected_sensor))))) = 90
     \<and> sn_notifies (onWrite map_prefs pkt connected_sensor) = [ack]
     \<and> acks (onDataNotify id (Some 0) ack 0 example_ble)
       = [\<lparr>ar_node_id = ''aa'', ar_cmd_id = 9, ar_success = True\<rparr>]"
proof -
  obtain b1 where send: "trySend example_env example_json example_set example_ble = (True, b1)"
    using example_send by blast
  have slot: "resolveSourceSlot example_ble (Some 0) = Some 0"
    by (simp add: resolveSourceSlot_def example_ble_queues)
  have cmd: "cstr (mc_type example_set) = ''SET_INTERVAL''" "mc_cmd_id example_set = 9"
    by (simp_all add: example_set_def cstr_def)
  have on: "ns_opened (sn_state connected_sensor)" "sn_dataChar connected_sensor" "sn_deviceConnected connected_sensor"
      "sn_notifies connected_sensor = []"
    by (simp_all add: connected_sensor_def sensor_boot_def ns_begin_def Let_def)
  have sec: "js_int example_json doc ''interval_sec'' 60 = 90" for doc
    by (simp add: example_json_def)
  obtain h pkt ack where w: "bl_writes b1 = bl_writes example_ble @ [(h, pkt, True)]"
    and iv: "int (unat (ns_sleepInterval (sn_state (onWrite map_prefs pkt connected_sensor)))) = 90"
    and flash: "ns_sleepInterval (ns_begin map_prefs (ns_boot (ns_prefs (sn_state (onWrite map_prefs pkt connected_sensor)))))
       = ns_sleepInterval (sn_state (onWrite map_prefs pkt connected_sensor))"
    and n: "sn_notifies (onWrite map_prefs pkt connected_sensor) = [ack]"
    and a: "acks (onDataNotify id (Some 0) ack 0 example_ble)
       = [\<lparr>ar_node_id = ''aa'', ar_cmd_id = 9, ar_success = True\<rparr>]"
    using set_interval_end_to_end [OF send cmd(1) map_prefs_laws on(1-3) _ example_ble_inv(1) slot, of id 0]
    by (auto simp: Let_def cmd on sec example_ble_queues cstr_def)
  have "ns_sleepInterval (sn_state (onWrite map_prefs pkt connected_sensor)) = 90"
    using iv by (simp add: word_unat_eq_iff del: of_nat_unat)
  with flash send w n a show ?thesis by metis
qed

text \<open>C20: a reading from end to end.  What a connected node sends after HUB_READY are two
  notifications; received by the hub, the first one sets the type of the node's slot, the second one
  puts one report into the queue, with the values the node has measured and the node's address and
  type, if there is room.\<close>

theorem reading_end_to_end:
  assumes "sn_dataChar s" and "sn_deviceConnected s"
    and "ble_inv held b" and "resolveSourceSlot b src = Some i" and "length (reports b) < 8"
  shows "\<exists>info reading r. sn_notifies (ble_send_sensor_data env (ble_send_node_info s))
      = sn_notifies s @ [info, reading]
    \<and> (let b1 = onDataNotify ts src info rssi b; b2 = onDataNotify ts src reading rssi b1
       in reports b2 = reports b @ [r] \<and> cn_nodeType (bl_nodes b2 ! i) = NT_SENSOR)
    \<and> sr_node_id r = take 17 (cstr (ts (cn_addr (bl_nodes b ! i)))) \<and> sr_node_type_str r = ''sensor''
    \<and> sr_temperature r = se_temp env \<and> sr_humidity r = se_humidity env
    \<and> sr_ldr r = word_of_int (se_ldr env) \<and> sr_battery_mv r = word_of_int (2900 + se_bat env)
    \<and> sr_ble_rssi r = rssi"
proof -
  let ?info = "bytes_NodeInfo \<lparr>ni_type = msg_code NODE_INFO, ni_node_type = NT_SENSOR,
      ni_battery_mv = 3100, ni_fw_major = 0, ni_fw_minor = 1\<rparr>"
  let ?reading = "bytes_SensorData (sensor_data env)"
  have sent: "sn_notifies (ble_send_sensor_data env (ble_send_node_info s))
      = sn_notifies s @ [?info, ?reading]"
    using assms(1,2) by (simp add: ble_send_sensor_data_def ble_send_node_info_def notify_def)
  define b1 where "b1 = setNode i (cn_nodeType_update (\<lambda>_. NT_SENSOR)) b"
  have info: "onDataNotify ts src ?info rssi b = b1"
    using assms(4) read_bytes(2) [of "\<lparr>ni_type = msg_code NODE_INFO, ni_node_type = NT_SENSOR,
      ni_battery_mv = 3100, ni_fw_major = 0, ni_fw_minor = 1\<rparr>" "[]"]
    by (simp add: onDataNotify_def bytes_NodeInfo_def handleNodeInfo_def b1_def Let_def)
  have i: "i < length (bl_nodes b)" by (rule resolveSourceSlot_Some(1) [OF assms(4)])
  have inv: "ble_inv held b1"
    unfolding info [symmetric] using assms(3) by (rule onDataNotify_inv)
  have b1: "reports b1 = reports b" "cn_addr (bl_nodes b1 ! i) = cn_addr (bl_nodes b ! i)"
      "cn_nodeType (bl_nodes b1 ! i) = NT_SENSOR"
    using i by (simp_all add: b1_def setNode_def)
  have slot: "resolveSourceSlot b1 src = Some i"
    using assms(4) unfolding resolveSourceSlot_def findSlotByClient_def findSlotIndex_def b1_def
    by (auto simp: setNode_def first_index_Some nth_list_update split: option.splits)
  let ?r = "buildReport b1 (Some i) (sensor_data env) (source_addr ts b1 (Some i)) rssi"
  have "onDataNotify ts src ?reading rssi b1 = enqueueReport ?r b1"
    using onDataNotify_packet(1) [of "sensor_data env" ts src "[]" rssi b1] slot
    by (simp add: sensor_data_def Let_def)
  moreover have "reports (enqueueReport ?r b1) = reports b @ [?r]"
    unfolding enqueueReport_reports [OF inv] using b1(1) assms(5) by simp
  moreover have "cn_nodeType (bl_nodes (enqueueReport ?r b1) ! i) = NT_SENSOR"
    using b1(3) by (simp add: enqueueReport_def)
  moreover have "sr_node_id ?r = take 17 (cstr (ts (cn_addr (bl_nodes b ! i))))"
      "sr_node_type_str ?r = ''sensor''" "sr_temperature ?r = se_temp env"
      "sr_humidity ?r = se_humidity env" "sr_ldr ?r = word_of_int (se_ldr env)"
      "sr_battery_mv ?r = word_of_int (2900 + se_bat env)" "sr_ble_rssi ?r = rssi"
    using b1 by (simp_all add: buildReport_def source_addr_def strlcpy_source sensor_data_def
        NT_SENSOR_def NT_IR_def strlcpy_def cstr_def)
  ultimately show ?thesis
    unfolding Let_def using sent info by metis
qed

theorem reading_end_to_end_witness:
  "\<exists>info reading r. sn_notifies (ble_send_sensor_data example_sensor_env (ble_send_node_info connected_sensor))
      = [info, reading]
     \<and> reports (onDataNotify id (Some 0) reading 0 (onDataNotify id (Some 0) info 0 example_ble)) = [r]
     \<and> sr_node_id r = ''aa'' \<and> sr_ldr r = 100 \<and> sr_battery_mv r = 2900"
proof -
  have slot: "resolveSourceSlot example_ble (Some 0) = Some 0"
    by (simp add: resolveSourceSlot_def example_ble_queues)
  have on: "sn_dataChar connected_sensor" "sn_deviceConnected connected_sensor"
      "sn_notifies connected_sensor = []"
    by (simp_all add: connected_sensor_def sensor_boot_def)
  show ?thesis
    using reading_end_to_end [OF on(1,2) example_ble_inv(1) slot, of example_sensor_env id 0]
    by (auto simp: Let_def on example_ble_queues cstr_def example_sensor_env_def)
qed

end
